(* ===== verification/Xv6_Prelude.thy ===== *)
theory Xv6_Prelude
  imports Main "HOL-Library.Word"
begin

text \<open>
  Shared vocabulary of the development: the machine integer types of \<open>types.h\<close>, the
  outcomes of kernel code other than a normal return, the sequencing combinator that
  threads them, and generic lemmas on lists and words that the component theories use.
\<close>

unbundle bit_operations_syntax

section \<open>Types\<close>

text \<open>\<open>uchar\<close>, \<open>ushort\<close> and \<open>uint\<close> of \<open>types.h\<close>; a C \<open>int\<close> that is only stored,
  added and compared is a \<open>u32\<close> read with \<open>sint\<close> where the source compares it signed.\<close>

type_synonym u8 = "8 word"
type_synonym u16 = "16 word"
type_synonym u32 = "32 word"

section \<open>Outcomes of kernel code\<close>

text \<open>
  Kernel code either returns or ends in one of these ways. \<open>Panic\<close> is a call of
  \<open>panic\<close> with its message. \<open>Fault\<close> is an access the C program has no right to make
  (a null pointer, an index outside its array). \<open>Sleeps\<close> is a call of \<open>sleep\<close> that no
  other activity of the modelled step can wake.
\<close>

datatype kerr = Panic string | Fault string | Sleeps string

type_synonym 'a res = "kerr + 'a"

definition rbind :: "'a res \<Rightarrow> ('a \<Rightarrow> 'b res) \<Rightarrow> 'b res" where
  "rbind m f = (case m of Inl e \<Rightarrow> Inl e | Inr x \<Rightarrow> f x)"

lemma rbind_simps [simp]:
  "rbind (Inl e) f = Inl e"
  "rbind (Inr x) f = f x"
  by (simp_all add: rbind_def)

lemma rbind_eq_Inr [simp]: "rbind m f = Inr y \<longleftrightarrow> (\<exists>x. m = Inr x \<and> f x = Inr y)"
  by (cases m) auto

lemma Inr_eq_rbind [simp]: "Inr y = rbind m f \<longleftrightarrow> (\<exists>x. m = Inr x \<and> f x = Inr y)"
  by (cases m) auto

lemma rbind_assoc: "rbind (rbind m f) g = rbind m (\<lambda>x. rbind (f x) g)"
  by (cases m) auto

lemma rbind_cong [fundef_cong]:
  "m = m' \<Longrightarrow> (\<And>x. m' = Inr x \<Longrightarrow> f x = f' x) \<Longrightarrow> rbind m f = rbind m' f'"
  by (cases m') auto

section \<open>Sleep channels\<close>

text \<open>The addresses that processes sleep on: the log, an inode's or buffer's sleep lock, the two
  ends of a pipe, a process waiting for its children, the clock and the console input.\<close>

datatype chan = Ch_log | Ch_inode nat | Ch_buf nat | Ch_nread nat | Ch_nwrite nat | Ch_proc nat | Ch_ticks | Ch_input

section \<open>Searching an array\<close>

text \<open>The index of the first element that satisfies a test: the loop
  \<open>for(i = 0; i < N; i++) if(P(a[i])) break\<close>.\<close>

fun first_index :: "('a \<Rightarrow> bool) \<Rightarrow> 'a list \<Rightarrow> nat option" where
  "first_index P [] = None"
| "first_index P (x # xs) = (if P x then Some 0 else map_option Suc (first_index P xs))"

lemma first_index_SomeD:
  "first_index P xs = Some i \<Longrightarrow> i < length xs \<and> P (xs ! i) \<and> (\<forall>j < i. \<not> P (xs ! j))"
proof (induction xs arbitrary: i)
  case Nil
  then show ?case by simp
next
  case (Cons x xs)
  show ?case
  proof (cases "P x")
    case True
    with Cons.prems show ?thesis by simp
  next
    case False
    with Cons.prems obtain k where k: "first_index P xs = Some k" "i = Suc k" by auto
    from Cons.IH [OF k(1)] k(2) False show ?thesis
      by (auto simp: less_Suc_eq_0_disj)
  qed
qed

lemma first_index_None: "first_index P xs = None \<longleftrightarrow> (\<forall>x \<in> set xs. \<not> P x)"
  by (induction xs) auto

lemma first_index_ex: "\<exists>x \<in> set xs. P x \<Longrightarrow> \<exists>i. first_index P xs = Some i"
  using first_index_None [of P xs] by (cases "first_index P xs") auto

lemma first_index_Some_iff:
  "first_index P xs = Some i \<longleftrightarrow> i < length xs \<and> P (xs ! i) \<and> (\<forall>j < i. \<not> P (xs ! j))"
proof
  assume r: "i < length xs \<and> P (xs ! i) \<and> (\<forall>j < i. \<not> P (xs ! j))"
  then have "first_index P xs \<noteq> None" by (metis first_index_None nth_mem)
  then obtain k where k: "first_index P xs = Some k" by blast
  from first_index_SomeD [OF k] r have "k = i"
    by (metis linorder_neqE_nat)
  with k show "first_index P xs = Some i" by simp
qed (rule first_index_SomeD)

section \<open>Words\<close>

lemma and_not_mask_eq: "(a :: 'a::len word) AND NOT (mask n) = push_bit n (drop_bit n a)"
  by (rule bit_word_eqI) (auto simp: bit_simps)

lemma unat_and_mask: "unat ((a :: 'a::len word) AND mask n) = unat a mod 2 ^ n"
  by (metis take_bit_eq_mask take_bit_eq_mod unsigned_take_bit_eq)

end
