(* ===== verification/Xv6_Mmu.thy ===== *)
theory Xv6_Mmu
  imports Xv6_Prelude
begin

text \<open>
  The constants and macros of \<open>param.h\<close>, \<open>memlayout.h\<close> and \<open>mmu.h\<close>: sizes, the
  kernel's address layout, and the split of a 32-bit virtual address into page
  directory index, page table index and offset. Addresses are 32-bit words, so the
  arithmetic of the macros wraps as it does in C.
\<close>

section \<open>\<open>param.h\<close> and \<open>memlayout.h\<close>\<close>

definition NPROC :: nat where "NPROC = 64"
definition KSTACKSIZE :: u32 where [simp]: "KSTACKSIZE = 4096"
definition NOFILE :: nat where "NOFILE = 16"
definition NFILE :: nat where "NFILE = 100"
definition NINODE :: nat where "NINODE = 50"
definition NDEV :: nat where "NDEV = 10"
definition ROOTDEV :: u32 where [simp]: "ROOTDEV = 1"
definition MAXARG :: nat where "MAXARG = 32"
definition MAXOPBLOCKS :: nat where "MAXOPBLOCKS = 10"
definition LOGSIZE :: nat where "LOGSIZE = MAXOPBLOCKS * 3"
definition NBUF :: nat where "NBUF = MAXOPBLOCKS * 3"
definition SWAPBLOCKS :: nat where "SWAPBLOCKS = 250 * 8"
definition FSSIZE :: nat where "FSSIZE = 1000"

definition EXTMEM :: u32 where [simp]: "EXTMEM = 0x100000"
definition PHYSTOP :: u32 where [simp]: "PHYSTOP = 0x400000"
definition DEVSPACE :: u32 where [simp]: "DEVSPACE = 0xFE000000"
definition KERNBASE :: u32 where [simp]: "KERNBASE = 0x80000000"
definition KERNLINK :: u32 where [simp]: "KERNLINK = KERNBASE + EXTMEM"

definition V2P :: "u32 \<Rightarrow> u32" where "V2P a = a - KERNBASE"
definition P2V :: "u32 \<Rightarrow> u32" where "P2V a = a + KERNBASE"

section \<open>\<open>mmu.h\<close>: page directory, page table, flags\<close>

definition PGSIZE :: u32 where [simp]: "PGSIZE = 4096"
definition NPDENTRIES :: nat where "NPDENTRIES = 1024"
definition NPTENTRIES :: nat where "NPTENTRIES = 1024"
definition PTXSHIFT :: nat where [simp]: "PTXSHIFT = 12"
definition PDXSHIFT :: nat where [simp]: "PDXSHIFT = 22"

definition PDX :: "u32 \<Rightarrow> u32" where "PDX va = drop_bit PDXSHIFT va AND 0x3FF"
definition PTX :: "u32 \<Rightarrow> u32" where "PTX va = drop_bit PTXSHIFT va AND 0x3FF"
definition PGADDR :: "u32 \<Rightarrow> u32 \<Rightarrow> u32 \<Rightarrow> u32" where
  "PGADDR d t off = push_bit PDXSHIFT d OR push_bit PTXSHIFT t OR off"

definition PGROUNDUP :: "u32 \<Rightarrow> u32" where
  "PGROUNDUP sz = (sz + PGSIZE - 1) AND NOT (PGSIZE - 1)"
definition PGROUNDDOWN :: "u32 \<Rightarrow> u32" where
  "PGROUNDDOWN a = a AND NOT (PGSIZE - 1)"

definition PTE_P :: u32 where [simp]: "PTE_P = 0x001"
definition PTE_W :: u32 where [simp]: "PTE_W = 0x002"
definition PTE_U :: u32 where [simp]: "PTE_U = 0x004"
definition PTE_PS :: u32 where [simp]: "PTE_PS = 0x080"
definition PTE_A :: u32 where [simp]: "PTE_A = 0x020"
definition PTE_S :: u32 where [simp]: "PTE_S = 0x080"

definition PTE_ADDR :: "u32 \<Rightarrow> u32" where "PTE_ADDR pte = pte AND NOT 0xFFF"
definition PTE_FLAGS :: "u32 \<Rightarrow> u32" where "PTE_FLAGS pte = pte AND 0xFFF"

section \<open>Page arithmetic\<close>

text \<open>A page-aligned address: \<open>a % PGSIZE == 0\<close>.\<close>

definition pg_aligned :: "u32 \<Rightarrow> bool" where
  "pg_aligned a \<longleftrightarrow> a AND 0xFFF = 0"

lemma mask12: "(0xFFF :: u32) = mask 12"
  by (simp add: mask_eq_decr_exp)

lemma mask10: "(0x3FF :: u32) = mask 10"
  by (simp add: mask_eq_decr_exp)

lemma PTE_ADDR_shift: "PTE_ADDR a = push_bit 12 (drop_bit 12 a)"
  unfolding PTE_ADDR_def mask12 by (rule and_not_mask_eq)

lemma PGROUNDDOWN_eq_PTE_ADDR: "PGROUNDDOWN a = PTE_ADDR a"
  by (simp add: PGROUNDDOWN_def PTE_ADDR_def)

lemma u32_less: "unat (a :: u32) < 4294967296"
  using unsigned_less [of a] by simp

lemma unat_PTE_ADDR: "unat (PTE_ADDR a) = unat a div 4096 * 4096"
  using u32_less [of a]
  by (simp add: PTE_ADDR_shift push_bit_eq_mult unat_word_ariths drop_bit_eq_div unat_div_distrib)

lemma unat_PTE_FLAGS: "unat (PTE_FLAGS a) = unat a mod 4096"
  by (simp add: PTE_FLAGS_def mask12 unat_and_mask)

lemma unat_PDX: "unat (PDX a) = unat a div 4194304"
  using u32_less [of a]
  by (simp add: PDX_def mask10 unat_and_mask drop_bit_eq_div unat_div_distrib)

lemma unat_PTX: "unat (PTX a) = unat a div 4096 mod 1024"
  by (simp add: PTX_def mask10 unat_and_mask drop_bit_eq_div unat_div_distrib)

lemma pg_aligned_unat: "pg_aligned a \<longleftrightarrow> unat a mod 4096 = 0"
  unfolding pg_aligned_def mask12
  using unat_and_mask [of a 12] by (simp add: word_unat_eq_iff)

lemma pg_aligned_mod: "pg_aligned a \<longleftrightarrow> a mod PGSIZE = 0"
  by (simp add: pg_aligned_unat word_unat_eq_iff unat_mod_distrib)

lemma PTE_ADDR_aligned [simp]: "pg_aligned (PTE_ADDR a)"
  by (simp add: pg_aligned_unat unat_PTE_ADDR)

lemma PTE_ADDR_idem [simp]: "PTE_ADDR (PTE_ADDR a) = PTE_ADDR a"
  by (rule bit_word_eqI) (auto simp: PTE_ADDR_def bit_simps)

lemma PTE_ADDR_of_aligned: "pg_aligned a \<Longrightarrow> PTE_ADDR a = a"
  by (auto simp: word_unat_eq_iff unat_PTE_ADDR pg_aligned_unat)

lemma unat_aligned_add:
  assumes "pg_aligned p" and "x < PGSIZE"
  shows "unat (p + x) = unat p + unat x"
proof -
  from assms(2) have "unat x < 4096" by (simp add: word_less_nat_alt)
  with assms(1) u32_less [of p] show ?thesis
    by (auto simp: unat_word_ariths pg_aligned_unat)
qed

text \<open>An address inside a page rounds down to the page.\<close>

lemma PTE_ADDR_add: "pg_aligned p \<Longrightarrow> x < PGSIZE \<Longrightarrow> PTE_ADDR (p + x) = p"
proof -
  assume a: "pg_aligned p" "x < PGSIZE"
  then have "unat x < 4096" by (simp add: word_less_nat_alt)
  with a have "unat (PTE_ADDR (p + x)) = unat p"
    by (auto simp: unat_PTE_ADDR unat_aligned_add pg_aligned_unat)
  then show ?thesis by (simp add: word_unat_eq_iff)
qed

lemma PTE_ADDR_or_flags [simp]: "PTE_ADDR (PTE_ADDR a OR PTE_FLAGS b) = PTE_ADDR a"
  unfolding PTE_ADDR_def PTE_FLAGS_def mask12
  by (rule bit_word_eqI) (auto simp: bit_simps)

lemma PTE_ADDR_or: "PTE_ADDR (a OR b) = PTE_ADDR a OR PTE_ADDR b"
  unfolding PTE_ADDR_def by (rule bit_word_eqI) (auto simp: bit_simps)

lemma PTE_ADDR_and_not:
  assumes "PTE_ADDR b = 0"
  shows "PTE_ADDR (a AND NOT b) = PTE_ADDR a"
proof (rule bit_word_eqI)
  fix n
  assume "n < LENGTH(32)"
  from assms have "\<not> bit (b AND NOT 0xFFF) n" by (simp add: PTE_ADDR_def)
  then show "bit (PTE_ADDR (a AND NOT b)) n = bit (PTE_ADDR a) n"
    unfolding PTE_ADDR_def bit_and_iff bit_not_iff by auto
qed

lemma V2P_P2V [simp]: "V2P (P2V a) = a" and P2V_V2P [simp]: "P2V (V2P a) = a"
  by (simp_all add: P2V_def V2P_def)

text \<open>The three parts of a virtual address determine it, and are read back.\<close>

lemma PGADDR_split: "PGADDR (PDX va) (PTX va) (PTE_FLAGS va) = va"
  unfolding PGADDR_def PDX_def PTX_def PTE_FLAGS_def mask12 mask10
proof (rule bit_word_eqI)
  fix n
  assume "n < LENGTH(32)"
  then show "bit (push_bit PDXSHIFT (drop_bit PDXSHIFT va AND mask 10) OR
      push_bit PTXSHIFT (drop_bit PTXSHIFT va AND mask 10) OR va AND mask 12) n = bit va n"
    by (cases "n < 22") (auto simp: bit_simps)
qed

end
