(* ===== verification/Xv6_Mem.thy ===== *)
theory Xv6_Mem
  imports Xv6_Mmu
begin

text \<open>
  Byte-addressed memory as the kernel sees it, and the routines of \<open>string.c\<close> (with the
  \<open>rep stos\<close> instructions of \<open>x86.h\<close> they use). A memory is a function from kernel
  virtual addresses to bytes; 32-bit loads and stores are little-endian. The C loops are
  kept byte by byte, and each is then proved equal to a closed description of the
  resulting memory.
\<close>

section \<open>Memory\<close>

type_synonym memory = "u32 \<Rightarrow> u8"

definition ld32 :: "memory \<Rightarrow> u32 \<Rightarrow> u32" where
  "ld32 m a = ucast (m a) OR push_bit 8 (ucast (m (a + 1)))
     OR push_bit 16 (ucast (m (a + 2))) OR push_bit 24 (ucast (m (a + 3)))"

definition st32 :: "memory \<Rightarrow> u32 \<Rightarrow> u32 \<Rightarrow> memory" where
  "st32 m a v = m(a := ucast v, a + 1 := ucast (drop_bit 8 v),
     a + 2 := ucast (drop_bit 16 v), a + 3 := ucast (drop_bit 24 v))"

text \<open>Bytes \<open>a, a+1, \<dots>, a+n-1\<close> as a list, and storing a list of bytes from \<open>a\<close> on.\<close>

definition mread :: "memory \<Rightarrow> u32 \<Rightarrow> nat \<Rightarrow> u8 list" where
  "mread m a n = map (\<lambda>i. m (a + of_nat i)) [0..<n]"

definition mwrite :: "memory \<Rightarrow> u32 \<Rightarrow> u8 list \<Rightarrow> memory" where
  "mwrite m a bs = (\<lambda>x. if unat (x - a) < length bs then bs ! unat (x - a) else m x)"

section \<open>\<open>x86.h\<close>: string stores\<close>

fun stosb :: "memory \<Rightarrow> u32 \<Rightarrow> u8 \<Rightarrow> nat \<Rightarrow> memory" where
  "stosb m a c 0 = m"
| "stosb m a c (Suc n) = stosb (m(a := c)) (a + 1) c n"

fun stosl :: "memory \<Rightarrow> u32 \<Rightarrow> u32 \<Rightarrow> nat \<Rightarrow> memory" where
  "stosl m a v 0 = m"
| "stosl m a v (Suc n) = stosl (st32 m a v) (a + 4) v n"

section \<open>\<open>string.c\<close>\<close>

definition memset :: "memory \<Rightarrow> u32 \<Rightarrow> u32 \<Rightarrow> u32 \<Rightarrow> memory" where
  "memset m dst c n =
     (if dst mod 4 = 0 \<and> n mod 4 = 0 then
        let c = c AND 0xFF in
        stosl m dst (push_bit 24 c OR push_bit 16 c OR push_bit 8 c OR c) (unat (n div 4))
      else stosb m dst (ucast c) (unat n))"

fun memcmp :: "memory \<Rightarrow> u32 \<Rightarrow> u32 \<Rightarrow> nat \<Rightarrow> int" where
  "memcmp m s1 s2 0 = 0"
| "memcmp m s1 s2 (Suc n) =
     (if m s1 \<noteq> m s2 then uint (m s1) - uint (m s2) else memcmp m (s1 + 1) (s2 + 1) n)"

fun copy_forward :: "memory \<Rightarrow> u32 \<Rightarrow> u32 \<Rightarrow> nat \<Rightarrow> memory" where
  "copy_forward m d s 0 = m"
| "copy_forward m d s (Suc n) = copy_forward (m(d := m s)) (d + 1) (s + 1) n"

fun copy_backward :: "memory \<Rightarrow> u32 \<Rightarrow> u32 \<Rightarrow> nat \<Rightarrow> memory" where
  "copy_backward m d s 0 = m"
| "copy_backward m d s (Suc n) = copy_backward (m(d - 1 := m (s - 1))) (d - 1) (s - 1) n"

definition memmove :: "memory \<Rightarrow> u32 \<Rightarrow> u32 \<Rightarrow> u32 \<Rightarrow> memory" where
  "memmove m dst src n =
     (if src < dst \<and> src + n > dst
      then copy_backward m (dst + n) (src + n) (unat n)
      else copy_forward m dst src (unat n))"

definition memcpy :: "memory \<Rightarrow> u32 \<Rightarrow> u32 \<Rightarrow> u32 \<Rightarrow> memory" where
  "memcpy m dst src n = memmove m dst src n"

text \<open>A C string is read through a byte stream: \<open>\<lambda>i. m (p + of_nat i)\<close> for a pointer \<open>p\<close>.\<close>

type_synonym bytes = "nat \<Rightarrow> u8"

fun strncmp :: "bytes \<Rightarrow> bytes \<Rightarrow> nat \<Rightarrow> int" where
  "strncmp p q 0 = 0"
| "strncmp p q (Suc n) =
     (if p 0 \<noteq> 0 \<and> p 0 = q 0 then strncmp (\<lambda>i. p (Suc i)) (\<lambda>i. q (Suc i)) n
      else uint (p 0) - uint (q 0))"

fun strncpy :: "memory \<Rightarrow> u32 \<Rightarrow> u32 \<Rightarrow> nat \<Rightarrow> memory" where
  "strncpy m s t 0 = m"
| "strncpy m s t (Suc n) =
     (let c = m t; m' = m(s := c) in
      if c \<noteq> 0 then strncpy m' (s + 1) (t + 1) n else stosb m' (s + 1) 0 n)"

fun safestrcpy_loop :: "memory \<Rightarrow> u32 \<Rightarrow> u32 \<Rightarrow> nat \<Rightarrow> memory" where
  "safestrcpy_loop m s t 0 = m(s := 0)"
| "safestrcpy_loop m s t (Suc n) =
     (let c = m t; m' = m(s := c) in
      if c \<noteq> 0 then safestrcpy_loop m' (s + 1) (t + 1) n else m'(s + 1 := 0))"

definition safestrcpy :: "memory \<Rightarrow> u32 \<Rightarrow> u32 \<Rightarrow> int \<Rightarrow> memory" where
  "safestrcpy m s t n = (if n \<le> 0 then m else safestrcpy_loop m s t (nat (n - 1)))"

partial_function (option) strlen :: "bytes \<Rightarrow> nat \<Rightarrow> nat option" where
  "strlen s n = (if s n = 0 then Some n else strlen s (n + 1))"

section \<open>Loads and stores\<close>

lemma unat_eq_iff: "n < 4294967296 \<Longrightarrow> unat (x :: u32) = n \<longleftrightarrow> x = of_nat n"
  by (auto simp: unat_of_nat)

definition w_aligned :: "u32 \<Rightarrow> bool" where
  "w_aligned a \<longleftrightarrow> a AND 3 = 0"

lemma w_aligned_unat: "w_aligned a \<longleftrightarrow> unat a mod 4 = 0"
proof -
  have "a AND 3 = a AND mask 2" by (simp add: mask_eq_decr_exp)
  then show ?thesis unfolding w_aligned_def
    using unat_and_mask [of a 2] by (simp add: word_unat_eq_iff del: unat_eq_0)
qed

lemma unat_w_add: "w_aligned a \<Longrightarrow> unat k < 4 \<Longrightarrow> unat (a + k) = unat a + unat k"
  using u32_less [of a] by (auto simp: unat_word_ariths w_aligned_unat)

lemma w_aligned_neq:
  assumes "w_aligned a" "w_aligned b" "a \<noteq> b" "unat i < 4" "unat j < 4"
  shows "a + i \<noteq> b + j"
proof
  assume "a + i = b + j"
  then have "unat a + unat i = unat b + unat j" using assms by (metis unat_w_add)
  moreover have "unat a mod 4 = 0" "unat b mod 4 = 0" using assms by (simp_all add: w_aligned_unat)
  ultimately have "unat a = unat b" using assms(4,5) by presburger
  then show False using assms(3) by (simp add: word_unat_eq_iff)
qed

lemma ld32_st32_same [simp]: "ld32 (st32 m a v) a = v"
proof (rule bit_word_eqI)
  fix n
  assume "n < LENGTH(32)"
  then consider "n < 8" | "8 \<le> n" "n < 16" | "16 \<le> n" "n < 24" | "24 \<le> n" "n < 32"
    by fastforce
  then show "bit (ld32 (st32 m a v) a) n = bit v n"
    by cases (auto simp: ld32_def st32_def bit_simps)
qed

lemma st32_other:
  assumes "w_aligned a" "w_aligned b" "a \<noteq> b" "unat j < 4"
  shows "st32 m a v (b + j) = m (b + j)"
  using w_aligned_neq [OF assms(1-3) _ assms(4), of 0] w_aligned_neq [OF assms(1-3) _ assms(4), of 1]
    w_aligned_neq [OF assms(1-3) _ assms(4), of 2] w_aligned_neq [OF assms(1-3) _ assms(4), of 3]
  by (simp add: st32_def)

lemma ld32_st32_other:
  "w_aligned a \<Longrightarrow> w_aligned b \<Longrightarrow> a \<noteq> b \<Longrightarrow> ld32 (st32 m a v) b = ld32 m b"
  using st32_other [of a b 0] st32_other [of a b 1] st32_other [of a b 2] st32_other [of a b 3]
  by (simp add: ld32_def)

lemma ld32_st32:
  "w_aligned a \<Longrightarrow> w_aligned b \<Longrightarrow> ld32 (st32 m a v) b = (if a = b then v else ld32 m b)"
  by (simp add: ld32_st32_other)

section \<open>Closed forms of the loops\<close>

lemma unat_sub_cases:
  "unat ((a :: u32) - b) = (if unat b \<le> unat a then unat a - unat b else 4294967296 + unat a - unat b)"
  using u32_less [of a] u32_less [of b] by (auto simp: unat_sub_if_size word_size)

lemma unat_sub_add:
  "unat ((a :: u32) - (d + k)) =
     (if unat k \<le> unat (a - d) then unat (a - d) - unat k else 4294967296 + unat (a - d) - unat k)"
  using unat_sub_cases [of "a - d" k] by (simp add: diff_diff_eq)

lemma stosb_eq: "n \<le> 4294967296 \<Longrightarrow> stosb m d c n a = (if unat (a - d) < n then c else m a)"
proof (induction n arbitrary: m d)
  case 0
  then show ?case by simp
next
  case (Suc n)
  have "a = d \<longleftrightarrow> unat (a - d) = 0" by (simp add: unat_eq_iff [where n = 0])
  with Suc show ?case by (auto simp: unat_sub_add)
qed

lemma st32_all:
  assumes "\<And>i. i < 4 \<Longrightarrow> ucast (drop_bit (8 * i) v) = (c :: u8)"
  shows "st32 m d v a = (if unat (a - d) < 4 then c else m a)"
proof -
  have v: "ucast v = c" "ucast (drop_bit 8 v) = c" "ucast (drop_bit 16 v) = c"
    "ucast (drop_bit 24 v) = c"
    using assms [of 0] assms [of 1] assms [of 2] assms [of 3] by simp_all
  have "unat (a - d) < 4 \<longleftrightarrow> a = d \<or> a = d + 1 \<or> a = d + 2 \<or> a = d + 3"
  proof
    assume "unat (a - d) < 4"
    then consider "unat (a - d) = 0" | "unat (a - d) = 1" | "unat (a - d) = 2" | "unat (a - d) = 3"
      by linarith
    then show "a = d \<or> a = d + 1 \<or> a = d + 2 \<or> a = d + 3"
      by cases (auto simp: unat_eq_iff diff_eq_eq add.commute)
  qed auto
  then show ?thesis by (auto simp: st32_def v)
qed

lemma stosl_eq:
  assumes "\<And>i. i < 4 \<Longrightarrow> ucast (drop_bit (8 * i) v) = (c :: u8)"
  shows "4 * n \<le> 4294967296 \<Longrightarrow> stosl m d v n a = (if unat (a - d) < 4 * n then c else m a)"
proof (induction n arbitrary: m d)
  case 0
  then show ?case by simp
next
  case (Suc n)
  then show ?case by (auto simp: unat_sub_add st32_all [OF assms])
qed

lemma byte_replicate:
  assumes "i < 4"
  shows "ucast (drop_bit (8 * i) (push_bit 24 (c AND 0xFF) OR push_bit 16 (c AND 0xFF)
    OR push_bit 8 (c AND 0xFF) OR (c AND 0xFF) :: u32)) = (ucast c :: u8)"
proof -
  have m: "(0xFF :: u32) = mask 8" by (simp add: mask_eq_decr_exp)
  from assms consider "i = 0" | "i = 1" | "i = 2" | "i = 3" by linarith
  then show ?thesis
    unfolding m by cases (auto intro!: bit_word_eqI simp: bit_simps)
qed

theorem memset_eq: "memset m dst c n = (\<lambda>a. if unat (a - dst) < unat n then ucast c else m a)"
proof (rule ext)
  fix a
  show "memset m dst c n a = (if unat (a - dst) < unat n then ucast c else m a)"
  proof (cases "dst mod 4 = 0 \<and> n mod 4 = 0")
    case True
    then have "unat n mod 4 = 0" by (simp add: word_unat_eq_iff unat_mod_distrib)
    then have q: "4 * unat (n div 4) = unat n" by (simp add: unat_div_distrib) presburger
    then have "4 * unat (n div 4) \<le> 4294967296" using u32_less [of n] by simp
    from stosl_eq [OF byte_replicate this] True q show ?thesis
      by (simp add: memset_def Let_def)
  next
    case False
    then show ?thesis using u32_less [of n] by (auto simp: memset_def stosb_eq)
  qed
qed

lemma copy_forward_eq:
  "\<lbrakk> unat s + n \<le> 4294967296; unat d + n \<le> 4294967296; unat d \<le> unat s \<or> unat s + n \<le> unat d \<rbrakk>
   \<Longrightarrow> copy_forward m d s n a = (if unat (a - d) < n then m (s + (a - d)) else m a)"
proof (induction n arbitrary: m d s)
  case 0
  then show ?case by simp
next
  case (Suc n)
  let ?m = "m(d := m s)"
  show ?case
  proof (cases "n = 0")
    case True
    then show ?thesis by (auto simp: unat_0_iff)
  next
    case False
    with Suc.prems have u: "unat (d + 1) = unat d + 1" "unat (s + 1) = unat s + 1"
      by (auto simp: unat_word_ariths)
    with Suc have IH: "copy_forward ?m (d + 1) (s + 1) n a =
        (if unat (a - (d + 1)) < n then ?m (s + 1 + (a - (d + 1))) else ?m a)"
      by auto
    have src: "s + (a - d) \<noteq> d" if "unat (a - d) < Suc n" "a \<noteq> d"
    proof
      assume e: "s + (a - d) = d"
      have "unat (s + (a - d)) = unat s + unat (a - d)"
        using that Suc.prems by (auto simp: unat_word_ariths)
      then have "unat s + unat (a - d) = unat d" by (simp only: e)
      moreover have "0 < unat (a - d)" using that by (simp add: unat_gt_0)
      ultimately show False using Suc.prems that by auto
    qed
    have "unat (a - d) = 0 \<longleftrightarrow> a = d" by (simp add: unat_0_iff)
    then show ?thesis using IH src Suc.prems False
      by (auto simp: unat_sub_add)
  qed
qed

lemma copy_backward_eq:
  "\<lbrakk> n \<le> unat s; n \<le> unat d; unat s \<le> unat d \<rbrakk>
   \<Longrightarrow> copy_backward m d s n a =
     (if unat d - n \<le> unat a \<and> unat a < unat d then m (s + (a - d)) else m a)"
proof (induction n arbitrary: m d s)
  case 0
  then show ?case by auto
next
  case (Suc n)
  let ?m = "m(d - 1 := m (s - 1))"
  from Suc.prems have u: "unat (d - 1) = unat d - 1" "unat (s - 1) = unat s - 1"
    by (auto simp: unat_sub_cases)
  then have p: "n \<le> unat (s - 1)" "n \<le> unat (d - 1)" "unat (s - 1) \<le> unat (d - 1)"
    using Suc.prems by auto
  have e: "s - 1 + (a - (d - 1)) = s + (a - d)" by simp
  have IH: "copy_backward ?m (d - 1) (s - 1) n a =
      (if unat (d - 1) - n \<le> unat a \<and> unat a < unat (d - 1) then ?m (s + (a - d)) else ?m a)"
    using Suc.IH [OF p, of ?m] unfolding e .
  have eq: "a = d - 1 \<longleftrightarrow> unat a = unat d - 1" by (simp add: word_unat_eq_iff u)
  have src: "s + (a - d) \<noteq> d - 1" if "unat d - 1 - n \<le> unat a" "unat a < unat d - 1"
  proof
    assume "s + (a - d) = d - 1"
    then have e: "s - (d - a) = d - 1" by simp
    have "unat (s - (d - a)) = unat s - (unat d - unat a)"
      using that Suc.prems by (auto simp: unat_sub_cases)
    then show False using that Suc.prems unfolding e u by simp
  qed
  show ?case using IH u eq src Suc.prems by auto
qed

theorem memmove_eq:
  assumes "unat src + unat n < 4294967296" and "unat dst + unat n < 4294967296"
  shows "memmove m dst src n = (\<lambda>a. if unat (a - dst) < unat n then m (src + (a - dst)) else m a)"
proof (rule ext)
  fix a
  have us: "unat (src + n) = unat src + unat n" and ud: "unat (dst + n) = unat dst + unat n"
    using assms by (simp_all add: unat_word_ariths)
  show "memmove m dst src n a = (if unat (a - dst) < unat n then m (src + (a - dst)) else m a)"
  proof (cases "src < dst \<and> src + n > dst")
    case True
    then have "unat src < unat dst" by (simp add: word_less_nat_alt)
    then have "copy_backward m (dst + n) (src + n) (unat n) a =
        (if unat dst \<le> unat a \<and> unat a < unat dst + unat n then m (src + (a - dst)) else m a)"
      using copy_backward_eq [of "unat n" "src + n" "dst + n" m a] us ud by simp
    moreover have "unat dst \<le> unat a \<and> unat a < unat dst + unat n \<longleftrightarrow> unat (a - dst) < unat n"
      using assms u32_less [of a] by (auto simp: unat_sub_cases)
    ultimately show ?thesis using True by (simp add: memmove_def algebra_simps)
  next
    case False
    then have "unat dst \<le> unat src \<or> unat src + unat n \<le> unat dst"
      using us by (auto simp: word_less_nat_alt)
    then show ?thesis
      using False copy_forward_eq [of src "unat n" dst m a] assms by (auto simp: memmove_def)
  qed
qed

text \<open>Reading back what was written, and frames of block writes.\<close>

lemma length_mread [simp]: "length (mread m a n) = n"
  by (simp add: mread_def)

lemma nth_mread [simp]: "i < n \<Longrightarrow> mread m a n ! i = m (a + of_nat i)"
  by (simp add: mread_def)

lemma mread_mwrite_same:
  "length bs \<le> 4294967296 \<Longrightarrow> mread (mwrite m a bs) a (length bs) = bs"
  by (rule nth_equalityI) (auto simp: mwrite_def unat_of_nat)

lemma mwrite_mread_move:
  assumes "unat n < 4294967296"
  shows "mwrite m d (mread m' s (unat n)) = (\<lambda>a. if unat (a - d) < unat n then m' (s + (a - d)) else m a)"
  by (rule ext) (auto simp: mwrite_def)

lemma memmove_mwrite:
  assumes "unat src + unat n < 4294967296" and "unat dst + unat n < 4294967296"
  shows "memmove m dst src n = mwrite m dst (mread m src (unat n))"
  using memmove_eq [OF assms] by (simp add: mwrite_mread_move u32_less)

section \<open>Strings\<close>

text \<open>The C string that starts a byte stream, cut off after \<open>n\<close> bytes.\<close>

definition cstrn :: "nat \<Rightarrow> bytes \<Rightarrow> u8 list" where
  "cstrn n p = takeWhile (\<lambda>c. c \<noteq> 0) (map p [0..<n])"

lemma cstrn_0 [simp]: "cstrn 0 p = []"
  by (simp add: cstrn_def)

lemma cstrn_Suc [simp]:
  "cstrn (Suc n) p = (if p 0 = 0 then [] else p 0 # cstrn n (\<lambda>i. p (Suc i)))"
  by (simp add: cstrn_def upt_conv_Cons map_Suc_upt [symmetric] comp_def del: upt_Suc)

lemma strncmp_0_iff: "strncmp p q n = 0 \<longleftrightarrow> cstrn n p = cstrn n q"
proof (induction n arbitrary: p q)
  case 0
  then show ?case by simp
next
  case (Suc n)
  then show ?case by (auto simp: word_uint_eq_iff)
qed

lemma strlen_eq:
  assumes "s (n + k) = 0" and "\<forall>i < k. s (n + i) \<noteq> 0"
  shows "strlen s n = Some (n + k)"
  using assms
proof (induction k arbitrary: n)
  case 0
  then show ?case by (simp add: strlen.simps)
next
  case (Suc k)
  from Suc.prems have "s n \<noteq> 0" by force
  moreover have "strlen s (Suc n) = Some (Suc n + k)"
    using Suc.prems by (intro Suc.IH) force+
  ultimately show ?case by (subst strlen.simps) simp
qed

lemma safestrcpy_loop_outside:
  "n + 1 < 4294967296 \<Longrightarrow> n < unat (a - s) \<Longrightarrow> safestrcpy_loop m s t n a = m a"
proof (induction n arbitrary: m s t)
  case 0
  then show ?case by auto
next
  case (Suc n)
  then have "a \<noteq> s" "a \<noteq> s + 1" by auto
  moreover have "n < unat (a - (s + 1))" using Suc.prems by (auto simp: unat_sub_add)
  ultimately show ?case using Suc by (auto simp: Let_def)
qed

lemma safestrcpy_loop_terminated:
  "n + 1 < 4294967296 \<Longrightarrow> \<exists>k \<le> n. safestrcpy_loop m s t n (s + of_nat k) = 0"
proof (induction n arbitrary: m s t)
  case 0
  then show ?case by simp
next
  case (Suc n)
  show ?case
  proof (cases "m t = 0")
    case True
    then show ?thesis by (intro exI [of _ 1]) (auto simp: Let_def)
  next
    case False
    have "n + 1 < 4294967296" using Suc.prems by simp
    from Suc.IH [OF this, of "m(s := m t)" "s + 1" "t + 1"] obtain k where
      "k \<le> n" "safestrcpy_loop (m(s := m t)) (s + 1) (t + 1) n (s + 1 + of_nat k) = 0" by blast
    with False show ?thesis by (intro exI [of _ "Suc k"]) (auto simp: Let_def add.assoc)
  qed
qed

text \<open>\<open>safestrcpy\<close> writes only the \<open>n\<close> bytes of its buffer and leaves a NUL in it.\<close>

lemma safestrcpy_safe:
  assumes "0 < n" and "n < 4294967296"
  shows "\<exists>k < nat n. safestrcpy m s t n (s + of_nat k) = 0"
    and "nat n \<le> unat (a - s) \<Longrightarrow> safestrcpy m s t n a = m a"
proof -
  show "\<exists>k < nat n. safestrcpy m s t n (s + of_nat k) = 0"
    using safestrcpy_loop_terminated [of "nat (n - 1)" m s t] assms
    by (auto simp: safestrcpy_def) force
  show "safestrcpy m s t n a = m a" if "nat n \<le> unat (a - s)"
    using safestrcpy_loop_outside [of "nat (n - 1)" a s m t] assms that
    by (auto simp: safestrcpy_def)
qed

section \<open>Properties\<close>

text \<open>C21. \<open>memset\<close> sets exactly the \<open>n\<close> bytes from \<open>dst\<close> on to the low byte of \<open>c\<close>, on the
  word-wise path (aligned address and length) as on the byte-wise one, and also where the
  range wraps around the end of the address space.\<close>

theorem memset_fills:
  "memset m dst c n = (\<lambda>a. if unat (a - dst) < unat n then ucast c else m a)"
  by (rule memset_eq)

text \<open>C18. \<open>memmove\<close> copies the old contents of the source range, whether or not the ranges
  overlap, and changes nothing outside the destination, for ranges that do not wrap.\<close>

theorem memmove_copies:
  assumes "unat src + unat n < 2 ^ 32" and "unat dst + unat n < 2 ^ 32"
  shows "memmove m dst src n = (\<lambda>a. if unat (a - dst) < unat n then m (src + (a - dst)) else m a)"
  using assms by (intro memmove_eq) simp_all

theorem memmove_copies_witness:
  "memmove ucast 2 1 3 = (\<lambda>a. if unat (a - 2) < 3 then ucast (1 + (a - 2)) else ucast a)"
  using memmove_copies [of 1 3 2 ucast] by simp

text \<open>C22. \<open>strncmp\<close> returns 0 exactly when the C strings agree up to \<open>n\<close> bytes.\<close>

theorem strncmp_equal:
  "strncmp p q n = 0 \<longleftrightarrow> takeWhile (\<lambda>c. c \<noteq> 0) (map p [0..<n]) = takeWhile (\<lambda>c. c \<noteq> 0) (map q [0..<n])"
  using strncmp_0_iff [of p q n] by (simp add: cstrn_def)

end
