(* ===== verification/Xv6_Rmap.thy ===== *)
theory Xv6_Rmap
  imports Xv6_Mem "HOL-Library.Multiset"
begin

text \<open>
  The reverse map of \<open>proc.c\<close>: for each physical page a reference count and the
  addresses of the page table entries that refer to it. The interface the paging code
  relies on is the locale \<open>page_refs\<close>: the entry stands for the multiset of the page
  table entries that map the page. It is interpreted on the entry operations of the
  source.
\<close>

section \<open>State and operations\<close>

record rmap_struct =
  refcount :: u32
  pte_id :: "u32 list"
  present_id :: "bool list"

text \<open>The array \<open>rmap[PHYSTOP / PGSIZE]\<close>, indexed by physical page number.\<close>

type_synonym rmap_table = "u32 \<Rightarrow> rmap_struct"

definition NPAGES :: u32 where [simp]: "NPAGES = PHYSTOP div PGSIZE"

definition initrmap :: "rmap_table \<Rightarrow> rmap_table" where
  "initrmap rmap = (\<lambda>i. if i < NPAGES
     then (rmap i)\<lparr>refcount := 0, present_id := replicate NPROC False\<rparr> else rmap i)"

definition check_rmap :: "rmap_table \<Rightarrow> u32 \<Rightarrow> bool res" where
  "check_rmap rmap pgnum =
     (if pgnum < NPAGES then Inr (refcount (rmap pgnum) = 1) else Inl (Fault ''rmap index''))"

definition inc_entry :: "u32 \<Rightarrow> rmap_struct \<Rightarrow> rmap_struct" where
  "inc_entry pte r =
     (let r = r\<lparr>refcount := refcount r + 1\<rparr> in
      case first_index Not (present_id r) of
        None \<Rightarrow> r
      | Some i \<Rightarrow> r\<lparr>present_id := (present_id r)[i := True], pte_id := (pte_id r)[i := pte]\<rparr>)"

definition inc_sharing :: "u32 \<Rightarrow> u32 \<Rightarrow> rmap_table \<Rightarrow> rmap_table res" where
  "inc_sharing pte page_num rmap =
     (if page_num < NPAGES then Inr (rmap(page_num := inc_entry pte (rmap page_num)))
      else Inl (Fault ''rmap index''))"

definition dec_entry :: "u32 \<Rightarrow> rmap_struct \<Rightarrow> (bool \<times> rmap_struct) res" where
  "dec_entry pte r =
     (let r = r\<lparr>refcount := refcount r - 1\<rparr> in
      case first_index (\<lambda>(pr, p). pr \<and> p = pte) (zip (present_id r) (pte_id r)) of
        None \<Rightarrow> Inl (Panic ''Trying to reduce refrence of page which is not refrenced'')
      | Some i \<Rightarrow> Inr (refcount r = 0, r\<lparr>present_id := (present_id r)[i := False]\<rparr>))"

definition dec_sharing :: "u32 \<Rightarrow> u32 \<Rightarrow> rmap_table \<Rightarrow> (bool \<times> rmap_table) res" where
  "dec_sharing pte page_num rmap =
     (if page_num < NPAGES then
        rbind (dec_entry pte (rmap page_num)) (\<lambda>(do_free, r).
        Inr (do_free, rmap(page_num := r)))
      else Inl (Fault ''rmap index''))"

section \<open>The interface: a bounded multiset of references\<close>

locale page_refs =
  fixes inc :: "'p \<Rightarrow> 'r \<Rightarrow> 'r"
    and dec :: "'p \<Rightarrow> 'r \<Rightarrow> (bool \<times> 'r) res"
    and count_of :: "'r \<Rightarrow> u32"
    and refs :: "'r \<Rightarrow> 'p multiset"
    and invar :: "'r \<Rightarrow> bool"
    and cap :: nat
  assumes refs_inc: "invar r \<Longrightarrow> size (refs r) < cap \<Longrightarrow> refs (inc p r) = add_mset p (refs r)"
    and invar_inc: "invar r \<Longrightarrow> size (refs r) < cap \<Longrightarrow> invar (inc p r)"
    and count_refs: "invar r \<Longrightarrow> unat (count_of r) = size (refs r)"
    and dec_present: "invar r \<Longrightarrow> p \<in># refs r \<Longrightarrow>
      \<exists>r'. dec p r = Inr (size (refs r) = 1, r') \<and> refs r' = refs r - {#p#} \<and> invar r'"
    and dec_absent: "invar r \<Longrightarrow> p \<notin># refs r \<Longrightarrow> \<exists>e. dec p r = Inl (Panic e)"
begin

lemma count_1_iff: "invar r \<Longrightarrow> count_of r = 1 \<longleftrightarrow> (\<exists>p. refs r = {#p#})"
  using count_refs [of r] by (auto simp: word_unat_eq_iff size_1_singleton_mset)

text \<open>Dropping a reference that was just taken gives the references back, and says
  \<open>free\<close> exactly when there was none before.\<close>

lemma dec_inc:
  assumes "invar r" and "size (refs r) < cap"
  shows "\<exists>r'. dec p (inc p r) = Inr (refs r = {#}, r') \<and> refs r' = refs r \<and> invar r'"
proof -
  from assms have "invar (inc p r)" "refs (inc p r) = add_mset p (refs r)"
    by (simp_all add: invar_inc refs_inc)
  with dec_present [of "inc p r" p] show ?thesis by (auto simp: size_eq_0_iff_empty)
qed

lemma dec_InrD:
  assumes "invar r" and "dec p r = Inr (fr, r')"
  shows "p \<in># refs r" and "fr \<longleftrightarrow> refs r = {#p#}" and "refs r' = refs r - {#p#}" and "invar r'"
proof -
  show p: "p \<in># refs r" using dec_absent [OF assms(1)] assms(2) by fastforce
  with dec_present [OF assms(1) p] assms(2)
  show "fr \<longleftrightarrow> refs r = {#p#}" and "refs r' = refs r - {#p#}" and "invar r'"
    by (auto dest!: size_1_singleton_mset [unfolded One_nat_def])
qed

text \<open>A sole reference is freed by its drop; one of several is not.\<close>

lemma dec_frees_iff:
  "invar r \<Longrightarrow> p \<in># refs r \<Longrightarrow> (\<exists>r'. dec p r = Inr (True, r')) \<longleftrightarrow> count_of r = 1"
  using dec_present [of r p] count_refs [of r] by (auto simp: word_unat_eq_iff)

end

section \<open>The source's entries implement it\<close>

definition rmap_refs :: "rmap_struct \<Rightarrow> u32 multiset" where
  "rmap_refs r = mset (map snd (filter fst (zip (present_id r) (pte_id r))))"

definition rmap_ok :: "rmap_struct \<Rightarrow> bool" where
  "rmap_ok r \<longleftrightarrow> length (pte_id r) = NPROC \<and> length (present_id r) = NPROC \<and>
     unat (refcount r) = size (rmap_refs r)"

lemma filter_zip_set_True:
  "length xs = length ys \<Longrightarrow> i < length xs \<Longrightarrow> \<not> xs ! i \<Longrightarrow>
   mset (map snd (filter fst (zip (xs[i := True]) (ys[i := y])))) =
     add_mset y (mset (map snd (filter fst (zip xs ys))))"
proof (induction xs ys arbitrary: i rule: list_induct2)
  case Nil
  then show ?case by simp
next
  case (Cons x xs y ys)
  then show ?case by (cases i) auto
qed

lemma filter_zip_set_False:
  "length xs = length ys \<Longrightarrow> i < length xs \<Longrightarrow> xs ! i \<Longrightarrow>
   mset (map snd (filter fst (zip (xs[i := False]) ys))) =
     mset (map snd (filter fst (zip xs ys))) - {#ys ! i#}"
proof (induction xs ys arbitrary: i rule: list_induct2)
  case Nil
  then show ?case by simp
next
  case (Cons x xs y ys)
  show ?case
  proof (cases i)
    case 0
    with Cons show ?thesis by simp
  next
    case (Suc j)
    with Cons.prems have j: "j < length xs" "xs ! j" by simp_all
    then have "ys ! j \<in># mset (map snd (filter fst (zip xs ys)))"
      using Cons.hyps by (force simp: in_set_conv_nth image_iff)
    with Cons.IH [OF j] Suc show ?thesis by (auto simp: insert_DiffM2)
  qed
qed

lemma size_rmap_refs_less:
  assumes "length (pte_id r) = NPROC" "length (present_id r) = NPROC"
  shows "size (rmap_refs r) < NPROC \<longleftrightarrow> (\<exists>x \<in> set (present_id r). \<not> x)"
proof -
  have "size (rmap_refs r) = length (filter (\<lambda>x. x) (present_id r))"
  proof -
    have "map fst (filter fst (zip (present_id r) (pte_id r))) =
        filter (\<lambda>x. x) (map fst (zip (present_id r) (pte_id r)))"
      by (simp add: filter_map comp_def)
    then show ?thesis using assms by (metis length_map map_fst_zip rmap_refs_def size_mset)
  qed
  then show ?thesis using assms length_filter_less [of _ "present_id r" "\<lambda>x. x"]
    by (metis filter_True nless_le)
qed

interpretation rmap: page_refs inc_entry dec_entry refcount rmap_refs rmap_ok NPROC
proof
  fix r p
  assume ok: "rmap_ok r" and less: "size (rmap_refs r) < NPROC"
  then obtain i where i: "first_index Not (present_id r) = Some i"
    using size_rmap_refs_less [of r] first_index_ex [of "present_id r" Not]
    by (auto simp: rmap_ok_def)
  from first_index_SomeD [OF i]
  have i': "i < length (present_id r)" "\<not> present_id r ! i" by simp_all
  from i show refs: "rmap_refs (inc_entry p r) = add_mset p (rmap_refs r)"
    using filter_zip_set_True [of "present_id r" "pte_id r" i p] i' ok
    by (simp add: inc_entry_def rmap_refs_def rmap_ok_def Let_def)
  have "unat (refcount r + 1) = unat (refcount r) + 1"
    using ok less by (auto simp: unat_word_ariths rmap_ok_def NPROC_def)
  then have "unat (refcount (inc_entry p r)) = size (rmap_refs (inc_entry p r))"
    using ok i refs by (simp add: rmap_ok_def inc_entry_def Let_def)
  then show "rmap_ok (inc_entry p r)"
    using ok i by (simp add: rmap_ok_def inc_entry_def Let_def)
next
  fix r
  assume "rmap_ok r"
  then show "unat (refcount r) = size (rmap_refs r)" by (simp add: rmap_ok_def)
next
  fix r p
  assume ok: "rmap_ok r" and p: "p \<in># rmap_refs r"
  then obtain i where i: "first_index (\<lambda>(pr, q). pr \<and> q = p) (zip (present_id r) (pte_id r)) = Some i"
    using first_index_ex [of "zip (present_id r) (pte_id r)" "\<lambda>(pr, q). pr \<and> q = p"]
    by (fastforce simp: rmap_refs_def)
  from first_index_SomeD [OF i] ok
  have i': "i < length (present_id r)" "present_id r ! i" "pte_id r ! i = p"
    by (auto simp: rmap_ok_def)
  let ?r = "r\<lparr>refcount := refcount r - 1, present_id := (present_id r)[i := False]\<rparr>"
  have refs: "rmap_refs ?r = rmap_refs r - {#p#}"
    using filter_zip_set_False [of "present_id r" "pte_id r" i] i' ok
    by (simp add: rmap_refs_def rmap_ok_def)
  have pos: "0 < size (rmap_refs r)" using p by (cases "rmap_refs r") auto
  have cnt: "unat (refcount r - 1) = size (rmap_refs r) - 1"
    using ok pos by (auto simp: rmap_ok_def unat_sub_cases)
  have "dec_entry p r = Inr (refcount r - 1 = 0, ?r)"
    using i by (simp add: dec_entry_def Let_def)
  moreover have "refcount r - 1 = 0 \<longleftrightarrow> size (rmap_refs r) = 1"
    using cnt pos by (simp flip: unat_0_iff) arith
  moreover have "rmap_ok ?r"
    using ok refs cnt p by (auto simp: rmap_ok_def size_Diff_singleton rmap_refs_def)
  ultimately show "\<exists>r'. dec_entry p r = Inr (size (rmap_refs r) = 1, r') \<and>
      rmap_refs r' = rmap_refs r - {#p#} \<and> rmap_ok r'"
    using refs by auto
next
  fix r p
  assume "rmap_ok r" and p: "p \<notin># rmap_refs r"
  then have "first_index (\<lambda>(pr, q). pr \<and> q = p) (zip (present_id r) (pte_id r)) = None"
    by (force simp: rmap_refs_def first_index_None)
  then show "\<exists>e. dec_entry p r = Inl (Panic e)"
    by (simp add: dec_entry_def Let_def)
qed

section \<open>Properties\<close>

lemma inc_sharing_at:
  "page_num < NPAGES \<Longrightarrow> inc_sharing pte page_num rmap = Inr (rmap(page_num := inc_entry pte (rmap page_num)))"
  by (simp add: inc_sharing_def)

text \<open>C17. Taking a reference to a page and dropping it again restores the references of the
  page, and the drop reports that the page is free exactly when nobody else refers to it;
  other pages are not touched.\<close>

theorem inc_dec_sharing:
  assumes "page_num < NPAGES" and "rmap_ok (rmap page_num)" and "size (rmap_refs (rmap page_num)) < NPROC"
  shows "\<exists>r1 r2. inc_sharing pte page_num rmap = Inr r1 \<and>
    dec_sharing pte page_num r1 = Inr (rmap_refs (rmap page_num) = {#}, r2) \<and>
    rmap_refs (r2 page_num) = rmap_refs (rmap page_num) \<and> rmap_ok (r2 page_num) \<and>
    (\<forall>q. q \<noteq> page_num \<longrightarrow> r2 q = rmap q)"
proof -
  let ?r1 = "rmap(page_num := inc_entry pte (rmap page_num))"
  from rmap.dec_inc [OF assms(2,3), of pte] obtain r where
    "dec_entry pte (inc_entry pte (rmap page_num)) = Inr (rmap_refs (rmap page_num) = {#}, r)"
    "rmap_refs r = rmap_refs (rmap page_num)" "rmap_ok r" by blast
  with assms(1) show ?thesis
    by (intro exI [of _ ?r1] exI [of _ "?r1(page_num := r)"]) (simp add: inc_sharing_at dec_sharing_def)
qed

definition rmap_empty :: rmap_table where
  "rmap_empty = initrmap (\<lambda>_. \<lparr>refcount = 0, pte_id = replicate NPROC 0, present_id = []\<rparr>)"

lemma rmap_empty_refs: "page_num < NPAGES \<Longrightarrow> rmap_refs (rmap_empty page_num) = {#}"
  by (simp add: rmap_empty_def initrmap_def rmap_refs_def filter_empty_conv)

lemma rmap_empty_ok: "page_num < NPAGES \<Longrightarrow> rmap_ok (rmap_empty page_num)"
  using rmap_empty_refs [of page_num] by (simp add: rmap_ok_def) (simp add: rmap_empty_def initrmap_def)

theorem inc_dec_sharing_witness:
  "\<exists>r1 r2. inc_sharing 0x80200000 5 rmap_empty = Inr r1 \<and>
    dec_sharing 0x80200000 5 r1 = Inr (True, r2) \<and> rmap_refs (r2 5) = {#} \<and> rmap_ok (r2 5) \<and>
    (\<forall>q. q \<noteq> 5 \<longrightarrow> r2 q = rmap_empty q)"
  using inc_dec_sharing [of 5 rmap_empty "0x80200000"] rmap_empty_ok [of 5] rmap_empty_refs [of 5]
  by (simp add: NPROC_def)

end
