(* ===== verification/Xv6_Bio.thy ===== *)
theory Xv6_Bio
  imports Xv6_Mem
begin

text \<open>
  The block layer: the IDE request queue of \<open>ide.c\<close> and the buffer cache of \<open>bio.c\<close>
  with the page transfer routines used by swapping. Buffers are numbered \<open>0..<NBUF\<close>; the doubly linked MRU list from
  \<open>bcache.head.next\<close> to \<open>bcache.head.prev\<close> is the list \<open>lru\<close> of buffer numbers and the
  singly linked \<open>idequeue\<close> is a list too. The drive is the array \<open>disk\<close> of 512-byte
  blocks; \<open>ide_error\<close> is what its status register reports, and \<open>crashes\<close>, which no code reads,
  collects the contents of the drive before each write: what a power failure may leave. The spin locks around the
  critical sections are not part of this state: each operation is one atomic step.
  Waiting for the drive is the run of interrupts that serve the queue; waiting for a
  buffer that is locked ends in \<open>Sleeps\<close>.
\<close>

section \<open>Sleep locks (\<open>sleeplock.c\<close>)\<close>

record sleeplock =
  locked :: bool
  lpid :: u32

definition initsleeplock :: sleeplock where
  "initsleeplock = \<lparr>locked = False, lpid = 0\<rparr>"

definition acquiresleep :: "u32 \<Rightarrow> sleeplock \<Rightarrow> sleeplock res" where
  "acquiresleep mypid lk =
     (if locked lk then Inl (Sleeps ''acquiresleep'') else Inr (lk\<lparr>locked := True, lpid := mypid\<rparr>))"

definition releasesleep :: "sleeplock \<Rightarrow> sleeplock" where
  "releasesleep lk = lk\<lparr>locked := False, lpid := 0\<rparr>"

definition holdingsleep :: "u32 \<Rightarrow> sleeplock \<Rightarrow> bool" where
  "holdingsleep mypid lk \<longleftrightarrow> locked lk \<and> lpid lk = mypid"

section \<open>Buffers and the state\<close>

definition BSIZE :: nat where "BSIZE = 512"
definition B_VALID :: u32 where [simp]: "B_VALID = 0x2"
definition B_DIRTY :: u32 where [simp]: "B_DIRTY = 0x4"

record buf =
  flags :: u32
  dev :: u32
  blockno :: u32
  block :: sleeplock
  refcnt :: u32
  data :: "u8 list"

abbreviation valid :: "buf \<Rightarrow> bool" where
  "valid b \<equiv> flags b AND B_VALID \<noteq> 0"

abbreviation dirty :: "buf \<Rightarrow> bool" where
  "dirty b \<equiv> flags b AND B_DIRTY \<noteq> 0"

record bstate =
  bufs :: "nat \<Rightarrow> buf"
  lru :: "nat list"
  idequeue :: "nat list"
  havedisk1 :: bool
  ide_error :: bool
  disk :: "u32 \<Rightarrow> u32 \<Rightarrow> u8 list"
  crashes :: "(u32 \<Rightarrow> u32 \<Rightarrow> u8 list) set"

definition upd_buf :: "nat \<Rightarrow> (buf \<Rightarrow> buf) \<Rightarrow> bstate \<Rightarrow> bstate" where
  "upd_buf i f s = s\<lparr>bufs := (bufs s)(i := f (bufs s i))\<rparr>"

section \<open>\<open>ide.c\<close>\<close>

text \<open>Start the request for \<open>b\<close>. A write hands the data to the drive at once.\<close>

definition idestart :: "nat \<Rightarrow> bstate \<Rightarrow> bstate res" where
  "idestart i s =
     (let b = bufs s i; dv = dev b AND 1 in
      if blockno b \<ge> of_nat (FSSIZE + SWAPBLOCKS) then Inl (Panic ''incorrect blockno'')
      else if dirty b
      then Inr (s\<lparr>disk := (disk s)(dv := (disk s dv)(blockno b := data b)), crashes := insert (disk s) (crashes s)\<rparr>)
      else Inr s)"

text \<open>The interrupt handler: finish the head of the queue, start the next request.\<close>

definition ideintr :: "bstate \<Rightarrow> bstate res" where
  "ideintr s =
     (case idequeue s of
        [] \<Rightarrow> Inr s
      | i # q \<Rightarrow>
          let b = bufs s i;
              d = (if \<not> dirty b \<and> \<not> ide_error s then disk s (dev b AND 1) (blockno b) else data b);
              s = upd_buf i (\<lambda>b. b\<lparr>data := d, flags := (flags b OR B_VALID) AND NOT B_DIRTY\<rparr>)
                    (s\<lparr>idequeue := q\<rparr>)
          in case q of [] \<Rightarrow> Inr s | j # _ \<Rightarrow> idestart j s)"

text \<open>The loop \<open>while((b->flags & (B_VALID|B_DIRTY)) != B_VALID) sleep(b, &idelock)\<close>, woken by
  at most \<open>n\<close> interrupts.\<close>

fun idewait_buf :: "nat \<Rightarrow> nat \<Rightarrow> bstate \<Rightarrow> bstate res" where
  "idewait_buf 0 i s =
     (if flags (bufs s i) AND (B_VALID OR B_DIRTY) = B_VALID then Inr s else Inl (Sleeps ''iderw''))"
| "idewait_buf (Suc n) i s =
     (if flags (bufs s i) AND (B_VALID OR B_DIRTY) = B_VALID then Inr s
      else rbind (ideintr s) (idewait_buf n i))"

definition iderw :: "u32 \<Rightarrow> nat \<Rightarrow> bstate \<Rightarrow> bstate res" where
  "iderw mypid i s =
     (let b = bufs s i in
      if \<not> holdingsleep mypid (block b) then Inl (Panic ''iderw: buf not locked'')
      else if flags b AND (B_VALID OR B_DIRTY) = B_VALID then Inl (Panic ''iderw: nothing to do'')
      else if dev b \<noteq> 0 \<and> \<not> havedisk1 s then Inl (Panic ''iderw: ide disk 1 not present'')
      else
        let s1 = s\<lparr>idequeue := idequeue s @ [i]\<rparr> in
        rbind (if hd (idequeue s1) = i then idestart i s1 else Inr s1) (\<lambda>s2.
        idewait_buf (length (idequeue s2)) i s2))"

section \<open>\<open>bio.c\<close>\<close>

definition binit :: "bstate \<Rightarrow> bstate" where
  "binit s = s\<lparr>lru := rev [0..<NBUF],
     bufs := (\<lambda>i. if i < NBUF then (bufs s i)\<lparr>block := initsleeplock\<rparr> else bufs s i)\<rparr>"

definition bget :: "u32 \<Rightarrow> u32 \<Rightarrow> u32 \<Rightarrow> bstate \<Rightarrow> (nat \<times> bstate) res" where
  "bget mypid dv bn s =
     (case first_index (\<lambda>i. dev (bufs s i) = dv \<and> blockno (bufs s i) = bn) (lru s) of
        Some k \<Rightarrow>
          let i = lru s ! k; s = upd_buf i (\<lambda>b. b\<lparr>refcnt := refcnt b + 1\<rparr>) s in
          rbind (acquiresleep mypid (block (bufs s i))) (\<lambda>lk.
          Inr (i, upd_buf i (\<lambda>b. b\<lparr>block := lk\<rparr>) s))
      | None \<Rightarrow>
          (case first_index (\<lambda>i. refcnt (bufs s i) = 0 \<and> \<not> dirty (bufs s i)) (rev (lru s)) of
             Some k \<Rightarrow>
               let i = rev (lru s) ! k;
                   s = upd_buf i (\<lambda>b. b\<lparr>dev := dv, blockno := bn, flags := 0, refcnt := 1\<rparr>) s in
               rbind (acquiresleep mypid (block (bufs s i))) (\<lambda>lk.
               Inr (i, upd_buf i (\<lambda>b. b\<lparr>block := lk\<rparr>) s))
           | None \<Rightarrow> Inl (Panic ''bget: no buffers'')))"

definition bread :: "u32 \<Rightarrow> u32 \<Rightarrow> u32 \<Rightarrow> bstate \<Rightarrow> (nat \<times> bstate) res" where
  "bread mypid dv bn s =
     rbind (bget mypid dv bn s) (\<lambda>(i, s).
     rbind (if \<not> valid (bufs s i) then iderw mypid i s else Inr s) (\<lambda>s.
     Inr (i, s)))"

definition bwrite :: "u32 \<Rightarrow> nat \<Rightarrow> bstate \<Rightarrow> bstate res" where
  "bwrite mypid i s =
     (if \<not> holdingsleep mypid (block (bufs s i)) then Inl (Panic ''bwrite'')
      else iderw mypid i (upd_buf i (\<lambda>b. b\<lparr>flags := flags b OR B_DIRTY\<rparr>) s))"

definition brelse :: "u32 \<Rightarrow> nat \<Rightarrow> bstate \<Rightarrow> bstate res" where
  "brelse mypid i s =
     (if \<not> holdingsleep mypid (block (bufs s i)) then Inl (Panic ''brelse'')
      else
        let s = upd_buf i (\<lambda>b. b\<lparr>block := releasesleep (block b), refcnt := refcnt b - 1\<rparr>) s in
        Inr (if refcnt (bufs s i) = 0 then s\<lparr>lru := i # remove1 i (lru s)\<rparr> else s))"

text \<open>The page transfer loops, over the block offsets \<open>0, \<dots>, 7\<close> still to do.\<close>

fun write_pag_to_disk_loop ::
  "u32 \<Rightarrow> memory \<Rightarrow> u32 \<Rightarrow> u32 \<Rightarrow> nat list \<Rightarrow> bstate \<Rightarrow> bstate res" where
  "write_pag_to_disk_loop mypid m page block_id [] s = Inr s"
| "write_pag_to_disk_loop mypid m page block_id (i # is) s =
     rbind (bget mypid ROOTDEV (block_id + of_nat i) s) (\<lambda>(b, s).
     rbind (bwrite mypid b
       (upd_buf b (\<lambda>x. x\<lparr>data := mread m (page + of_nat (i * 512)) 512\<rparr>) s)) (\<lambda>s.
     rbind (brelse mypid b s) (\<lambda>s.
     write_pag_to_disk_loop mypid m page block_id is s)))"

definition write_pag_to_disk ::
  "u32 \<Rightarrow> memory \<Rightarrow> u32 \<Rightarrow> u32 \<Rightarrow> bstate \<Rightarrow> bstate res" where
  "write_pag_to_disk mypid m page block_id s =
     write_pag_to_disk_loop mypid m page block_id [0..<8] s"

fun read_page_from_disk_loop ::
  "u32 \<Rightarrow> u32 \<Rightarrow> u32 \<Rightarrow> nat list \<Rightarrow> memory \<Rightarrow> bstate \<Rightarrow> (memory \<times> bstate) res" where
  "read_page_from_disk_loop mypid slot mem [] m s = Inr (m, s)"
| "read_page_from_disk_loop mypid slot mem (i # is) m s =
     rbind (bread mypid ROOTDEV (slot + of_nat i) s) (\<lambda>(b, s).
     let m = mwrite m (mem + of_nat (i * 512)) (take 512 (data (bufs s b))) in
     rbind (brelse mypid b s) (\<lambda>s.
     read_page_from_disk_loop mypid slot mem is m s))"

definition read_page_from_disk ::
  "u32 \<Rightarrow> u32 \<Rightarrow> u32 \<Rightarrow> memory \<Rightarrow> bstate \<Rightarrow> (memory \<times> bstate) res" where
  "read_page_from_disk mypid slot mem m s =
     read_page_from_disk_loop mypid slot mem [0..<8] m s"

section \<open>Flag bits\<close>

lemma and_exp_eq: "(x :: u32) AND 2 ^ n = (if bit x n then 2 ^ n else 0)"
  by (rule bit_word_eqI) (auto simp: bit_simps)

lemma flag_simps [simp]:
  fixes x :: u32
  shows "x AND 2 = 0 \<longleftrightarrow> \<not> bit x 1" "x AND 4 = 0 \<longleftrightarrow> \<not> bit x 2"
    "x AND 6 = 2 \<longleftrightarrow> bit x 1 \<and> \<not> bit x 2"
proof -
  have "(6 :: u32) = 2 OR 4" by simp
  then have "x AND 6 = (x AND 2) OR (x AND 4)" by (metis bit.conj_disj_distrib)
  then show "x AND 2 = 0 \<longleftrightarrow> \<not> bit x 1" "x AND 4 = 0 \<longleftrightarrow> \<not> bit x 2"
    "x AND 6 = 2 \<longleftrightarrow> bit x 1 \<and> \<not> bit x 2"
    using and_exp_eq [of x 1] and_exp_eq [of x 2] by simp_all
qed

lemma flag_update_simps [simp]:
  fixes x :: u32
  shows "bit ((x OR 2) AND - 5) (Suc 0)" "\<not> bit ((x OR 2) AND - 5) 2"
    "bit ((x OR 6) AND - 5) (Suc 0)" "\<not> bit ((x OR 6) AND - 5) 2"
    "bit (x OR 4) 2" "bit (x OR 4) (Suc 0) = bit x (Suc 0)"
proof -
  have m5: "(- 5 :: u32) = NOT 4" by simp
  then show *: "bit ((x OR 2) AND - 5) (Suc 0)" "\<not> bit ((x OR 2) AND - 5) 2" for x :: u32
    by (simp_all only: bit_simps) simp_all
  have "x OR 6 = (x OR 4) OR 2" by (simp add: or.assoc)
  with * [of "x OR 4"] show "bit ((x OR 6) AND - 5) (Suc 0)" "\<not> bit ((x OR 6) AND - 5) 2" by simp_all
qed (simp_all add: bit_simps)

section \<open>Invariant and logical contents\<close>

text \<open>
  The invariant of the block layer between operations: the list holds every buffer once,
  no two buffers hold the same block of the root device, a buffer that nobody holds and
  that is not dirty agrees with the drive, and the request queue is empty.
\<close>

definition buf_ok :: "(u32 \<Rightarrow> u32 \<Rightarrow> u8 list) \<Rightarrow> buf \<Rightarrow> bool" where
  "buf_ok dsk b \<longleftrightarrow> length (data b) = BSIZE \<and> (dev b = 0 \<or> dev b = 1) \<and>
     (dirty b \<longrightarrow> valid b \<and> dev b = 1) \<and> (locked (block b) \<longleftrightarrow> refcnt b = 1) \<and>
     (refcnt b = 0 \<or> refcnt b = 1) \<and>
     (refcnt b = 0 \<longrightarrow> valid b \<longrightarrow> \<not> dirty b \<longrightarrow> data b = dsk (dev b) (blockno b))"

definition bio_ok :: "bstate \<Rightarrow> bool" where
  "bio_ok s \<longleftrightarrow> distinct (lru s) \<and> set (lru s) = {0..<NBUF} \<and>
     idequeue s = [] \<and> havedisk1 s \<and> \<not> ide_error s \<and>
     (\<forall>dv bn. length (disk s dv bn) = BSIZE) \<and> (\<forall>i < NBUF. buf_ok (disk s) (bufs s i)) \<and>
     (\<forall>i < NBUF. \<forall>j < NBUF. dev (bufs s i) = 1 \<longrightarrow> dev (bufs s j) = 1 \<longrightarrow>
        blockno (bufs s i) = blockno (bufs s j) \<longrightarrow> i = j)"

lemma bio_okD:
  assumes "bio_ok s"
  shows "distinct (lru s)" "set (lru s) = {0..<NBUF}" "idequeue s = []" "havedisk1 s"
    "\<not> ide_error s" "length (disk s dv bn) = BSIZE"
    "i < NBUF \<Longrightarrow> buf_ok (disk s) (bufs s i)"
    "i < NBUF \<Longrightarrow> j < NBUF \<Longrightarrow> dev (bufs s i) = 1 \<Longrightarrow> dev (bufs s j) = 1 \<Longrightarrow>
       blockno (bufs s i) = blockno (bufs s j) \<Longrightarrow> i = j"
  using assms by (simp_all add: bio_ok_def)

lemma bio_ok_not_locked: "bio_ok s \<Longrightarrow> i < NBUF \<Longrightarrow> refcnt (bufs s i) = 0 \<Longrightarrow> \<not> locked (block (bufs s i))"
  using bio_okD(7) [of s i] by (simp add: buf_ok_def)

text \<open>What block \<open>bn\<close> of the root device holds for a reader of the cache.\<close>

definition content :: "bstate \<Rightarrow> u32 \<Rightarrow> u8 list" where
  "content s bn =
     (case first_index (\<lambda>i. dev (bufs s i) = 1 \<and> blockno (bufs s i) = bn) (lru s) of
        Some k \<Rightarrow> (let b = bufs s (lru s ! k) in if valid b then data b else disk s 1 bn)
      | None \<Rightarrow> disk s 1 bn)"

definition held :: "bstate \<Rightarrow> u32 \<Rightarrow> bool" where
  "held s bn \<longleftrightarrow> (\<exists>i < NBUF. dev (bufs s i) = 1 \<and> blockno (bufs s i) = bn \<and> refcnt (bufs s i) \<noteq> 0)"

definition cached :: "bstate \<Rightarrow> u32 \<Rightarrow> bool" where
  "cached s bn \<longleftrightarrow> (\<exists>i < NBUF. dev (bufs s i) = 1 \<and> blockno (bufs s i) = bn)"

text \<open>The blocks whose buffers the log pins.\<close>

definition pinned :: "bstate \<Rightarrow> u32 set" where
  "pinned s = {bn. \<exists>i < NBUF. dev (bufs s i) = 1 \<and> blockno (bufs s i) = bn \<and> dirty (bufs s i)}"

definition bio_avail :: "bstate \<Rightarrow> bool" where
  "bio_avail s \<longleftrightarrow> (\<exists>i < NBUF. refcnt (bufs s i) = 0 \<and> \<not> dirty (bufs s i))"

text \<open>Buffer \<open>i\<close> holds block \<open>bn\<close> and is locked by the caller.\<close>

definition owns :: "u32 \<Rightarrow> nat \<Rightarrow> u32 \<Rightarrow> bstate \<Rightarrow> bool" where
  "owns mypid i bn s \<longleftrightarrow> i < NBUF \<and> dev (bufs s i) = 1 \<and> blockno (bufs s i) = bn \<and>
     holdingsleep mypid (block (bufs s i)) \<and> refcnt (bufs s i) = 1"

lemma upd_buf_simps [simp]:
  "bufs (upd_buf i f s) j = (if j = i then f (bufs s i) else bufs s j)"
  "lru (upd_buf i f s) = lru s" "idequeue (upd_buf i f s) = idequeue s"
  "havedisk1 (upd_buf i f s) = havedisk1 s" "ide_error (upd_buf i f s) = ide_error s"
  "disk (upd_buf i f s) = disk s" "crashes (upd_buf i f s) = crashes s"
  by (simp_all add: upd_buf_def)

lemma crashes_simps [simp]:
  "bio_ok (s\<lparr>crashes := c\<rparr>) = bio_ok s" "content (s\<lparr>crashes := c\<rparr>) = content s"
  by (simp_all add: bio_ok_def content_def fun_eq_iff Let_def split: option.split)

lemma pinned_replace:
  assumes "i < NBUF" and "bufs s' = (bufs s)(i := b)"
  shows "pinned s' = {bn. \<exists>j < NBUF. j \<noteq> i \<and> dev (bufs s j) = 1 \<and> blockno (bufs s j) = bn \<and> dirty (bufs s j)} \<union>
    (if dev b = 1 \<and> dirty b then {blockno b} else {})"
  using assms by (auto simp: pinned_def split: if_splits)

lemma pinned_same:
  assumes "i < NBUF" and "bufs s' = (bufs s)(i := b)" and "dirty b = dirty (bufs s i)"
    and "dirty b \<Longrightarrow> dev b = dev (bufs s i) \<and> blockno b = blockno (bufs s i)"
  shows "pinned s' = pinned s"
  using pinned_replace [OF assms(1,2)] pinned_replace [OF assms(1), of s s "bufs s i"] assms(3,4) by auto

lemma lru_nth_less: "bio_ok s \<Longrightarrow> k < length (lru s) \<Longrightarrow> lru s ! k < NBUF"
  using nth_mem [of k "lru s"] by (simp add: bio_okD(2))

lemma rev_lru_nth_less: "bio_ok s \<Longrightarrow> k < length (lru s) \<Longrightarrow> rev (lru s) ! k < NBUF"
  using nth_mem [of k "rev (lru s)"] by (simp add: bio_okD(2))

text \<open>The search for a block of the root device finds the one buffer that holds it.\<close>

lemma first_index_cached:
  assumes ok: "bio_ok s" and i: "i < NBUF" "dev (bufs s i) = 1" "blockno (bufs s i) = bn"
  shows "\<exists>k. first_index (\<lambda>i. dev (bufs s i) = 1 \<and> blockno (bufs s i) = bn) (lru s) = Some k \<and>
    lru s ! k = i"
proof -
  let ?P = "\<lambda>i. dev (bufs s i) = 1 \<and> blockno (bufs s i) = bn"
  from ok i(1) have "i \<in> set (lru s)" by (simp add: bio_okD(2))
  with i obtain k where k: "first_index ?P (lru s) = Some k"
    using first_index_ex [of "lru s" ?P] by blast
  from first_index_SomeD [OF k] have k': "k < length (lru s)" "?P (lru s ! k)" by simp_all
  with i have "lru s ! k = i"
    by (intro bio_okD(8) [OF ok]) (simp_all add: lru_nth_less ok)
  with k show ?thesis by blast
qed

lemma first_index_uncached:
  "bio_ok s \<Longrightarrow> (\<And>i. i < NBUF \<Longrightarrow> \<not> (dev (bufs s i) = 1 \<and> blockno (bufs s i) = bn)) \<Longrightarrow>
   first_index (\<lambda>i. dev (bufs s i) = 1 \<and> blockno (bufs s i) = bn) (lru s) = None"
  by (simp add: first_index_None bio_okD(2))

lemma content_cached:
  assumes "bio_ok s" "i < NBUF" "dev (bufs s i) = 1" "blockno (bufs s i) = bn"
  shows "content s bn = (if valid (bufs s i) then data (bufs s i) else disk s 1 bn)"
  using first_index_cached [OF assms] by (auto simp: content_def Let_def)

lemma content_uncached:
  "bio_ok s \<Longrightarrow> (\<And>i. i < NBUF \<Longrightarrow> \<not> (dev (bufs s i) = 1 \<and> blockno (bufs s i) = bn)) \<Longrightarrow>
   content s bn = disk s 1 bn"
  using first_index_uncached [of s bn] by (simp add: content_def)

lemma length_content: "bio_ok s \<Longrightarrow> length (content s bn) = BSIZE"
proof (cases "\<exists>i < NBUF. dev (bufs s i) = 1 \<and> blockno (bufs s i) = bn")
  case True
  assume ok: "bio_ok s"
  from True obtain i where i: "i < NBUF" "dev (bufs s i) = 1" "blockno (bufs s i) = bn" by blast
  from bio_okD(7) [OF ok i(1)] show ?thesis
    by (simp add: content_cached [OF ok i] bio_okD(6) [OF ok] buf_ok_def)
next
  case False
  assume "bio_ok s"
  with False show ?thesis by (simp add: content_uncached bio_okD(6))
qed

section \<open>The operations\<close>

text \<open>\<open>bget\<close> of a block nobody holds succeeds when the block is cached or a buffer is free.\<close>

lemma bget_cached:
  assumes ok: "bio_ok s" and i: "i < NBUF" "dev (bufs s i) = 1" "blockno (bufs s i) = bn"
    and free: "refcnt (bufs s i) = 0"
  shows "bget mypid 1 bn s = Inr (i, upd_buf i (\<lambda>b. b\<lparr>refcnt := 1,
    block := (block b)\<lparr>locked := True, lpid := mypid\<rparr>\<rparr>) s)"
proof -
  from first_index_cached [OF ok i] obtain k where
    "first_index (\<lambda>i. dev (bufs s i) = 1 \<and> blockno (bufs s i) = bn) (lru s) = Some k"
    "lru s ! k = i" by blast
  moreover have "\<not> locked (block (bufs s i))" using ok i(1) free by (rule bio_ok_not_locked)
  ultimately show ?thesis using free
    by (simp add: bget_def Let_def acquiresleep_def upd_buf_def)
qed

lemma bget_recycle:
  assumes ok: "bio_ok s"
    and new: "\<And>i. i < NBUF \<Longrightarrow> \<not> (dev (bufs s i) = 1 \<and> blockno (bufs s i) = bn)"
    and av: "bio_avail s"
  shows "\<exists>i. i < NBUF \<and> refcnt (bufs s i) = 0 \<and> \<not> dirty (bufs s i) \<and>
    bget mypid 1 bn s = Inr (i, upd_buf i (\<lambda>b. b\<lparr>dev := 1, blockno := bn, flags := 0,
      refcnt := 1, block := (block b)\<lparr>locked := True, lpid := mypid\<rparr>\<rparr>) s)"
proof -
  let ?Q = "\<lambda>i. refcnt (bufs s i) = 0 \<and> \<not> dirty (bufs s i)"
  from av have "\<exists>i \<in> set (rev (lru s)). ?Q i"
    unfolding bio_avail_def set_rev bio_okD(2) [OF ok] by force
  then obtain k where k: "first_index ?Q (rev (lru s)) = Some k"
    using first_index_ex [of "rev (lru s)" ?Q] by blast
  let ?i = "rev (lru s) ! k"
  from first_index_SomeD [OF k] have i: "?i < NBUF" "refcnt (bufs s ?i) = 0" "\<not> dirty (bufs s ?i)"
    by (simp_all add: rev_lru_nth_less ok)
  then have "\<not> locked (block (bufs s ?i))" by (intro bio_ok_not_locked [OF ok])
  with first_index_uncached [OF ok new] k i show ?thesis
    by (intro exI [of _ ?i]) (simp add: bget_def Let_def acquiresleep_def upd_buf_def)
qed

text \<open>A request on an idle queue is served by one interrupt.\<close>

lemma iderw_read:
  assumes "idequeue s = []" "havedisk1 s" "\<not> ide_error s" "holdingsleep mypid (block (bufs s i))"
    "dev (bufs s i) = 1" "blockno (bufs s i) < of_nat (FSSIZE + SWAPBLOCKS)"
    "\<not> valid (bufs s i)" "\<not> dirty (bufs s i)"
  shows "iderw mypid i s = Inr (upd_buf i (\<lambda>b. b\<lparr>data := disk s 1 (blockno b),
    flags := (flags b OR B_VALID) AND NOT B_DIRTY\<rparr>) s)"
  using assms by (simp add: iderw_def Let_def idestart_def ideintr_def not_le [symmetric] upd_buf_def)

lemma iderw_write:
  assumes "idequeue s = []" "havedisk1 s" "holdingsleep mypid (block (bufs s i))"
    "dev (bufs s i) = 1" "blockno (bufs s i) < of_nat (FSSIZE + SWAPBLOCKS)" "dirty (bufs s i)"
  shows "iderw mypid i s = Inr (upd_buf i (\<lambda>b. b\<lparr>flags := (flags b OR B_VALID) AND NOT B_DIRTY\<rparr>)
    (s\<lparr>disk := (disk s)(1 := (disk s 1)(blockno (bufs s i) := data (bufs s i))), crashes := insert (disk s) (crashes s)\<rparr>))"
  using assms by (simp add: iderw_def Let_def idestart_def ideintr_def not_le [symmetric] upd_buf_def)

text \<open>Replacing one buffer (and the block it holds on the drive) keeps the invariant.\<close>

lemma bio_ok_replace:
  assumes ok: "bio_ok s" and i: "i < NBUF" and b: "dev b = 1" "blockno b = bn"
    and sole: "\<And>j. j < NBUF \<Longrightarrow> j \<noteq> i \<Longrightarrow> \<not> (dev (bufs s j) = 1 \<and> blockno (bufs s j) = bn)"
    and s': "bufs s' = (bufs s)(i := b)" "disk s' = (disk s)(1 := (disk s 1)(bn := d))"
      "distinct (lru s')" "set (lru s') = {0..<NBUF}" "idequeue s' = []" "havedisk1 s'" "\<not> ide_error s'"
    and d: "length d = BSIZE" and bok: "buf_ok (disk s') b"
  shows "bio_ok s'"
proof -
  have other: "buf_ok (disk s') (bufs s j)" if "j < NBUF" "j \<noteq> i" for j
    using bio_okD(7) [OF ok that(1)] sole [OF that] unfolding s'(2) buf_ok_def by auto
  have uniq: "j = k" if "j < NBUF" "k < NBUF" "dev (bufs s' j) = 1" "dev (bufs s' k) = 1"
    "blockno (bufs s' j) = blockno (bufs s' k)" for j k
  proof (rule ccontr)
    assume "j \<noteq> k"
    then consider "j = i" "k \<noteq> i" | "k = i" "j \<noteq> i" | "j \<noteq> i" "k \<noteq> i" by blast
    then show False
    proof cases
      case 1
      with that b show False using sole [OF that(2) 1(2)] by (simp add: s'(1))
    next
      case 2
      with that b show False using sole [OF that(1) 2(2)] by (simp add: s'(1))
    next
      case 3
      with that \<open>j \<noteq> k\<close> show False using bio_okD(8) [OF ok that(1,2)] by (simp add: s'(1))
    qed
  qed
  show ?thesis
    unfolding bio_ok_def
  proof (intro conjI allI impI)
    show "length (disk s' dv x) = BSIZE" for dv x using d bio_okD(6) [OF ok] by (simp add: s'(2))
    show "buf_ok (disk s') (bufs s' j)" if "j < NBUF" for j
      using other [OF that] bok by (simp add: s'(1))
  qed (use s' uniq in simp_all)
qed

text \<open>\<dots> and changes the contents of that block only, if the buffer was free before.\<close>

lemma content_replace:
  assumes ok: "bio_ok s" and ok': "bio_ok s'" and i: "i < NBUF" and b: "dev b = 1" "blockno b = bn"
    and old: "dev (bufs s i) = 1 \<Longrightarrow> blockno (bufs s i) \<noteq> bn \<Longrightarrow>
      refcnt (bufs s i) = 0 \<and> \<not> dirty (bufs s i)"
    and s': "bufs s' = (bufs s)(i := b)" "disk s' = (disk s)(1 := (disk s 1)(bn := d))"
  shows "content s' = (content s)(bn := (if valid b then data b else d))"
proof (rule ext)
  fix x
  show "content s' x = ((content s)(bn := (if valid b then data b else d))) x"
  proof (cases "x = bn")
    case True
    then show ?thesis using content_cached [OF ok' i, of x] b s' by simp
  next
    case x: False
    show ?thesis
    proof (cases "\<exists>j < NBUF. j \<noteq> i \<and> dev (bufs s j) = 1 \<and> blockno (bufs s j) = x")
      case True
      then obtain j where "j < NBUF" "j \<noteq> i" "dev (bufs s j) = 1" "blockno (bufs s j) = x" by blast
      then show ?thesis
        using content_cached [OF ok, of j x] content_cached [OF ok', of j x] x s' by simp
    next
      case none: False
      then have "\<not> (dev (bufs s' j) = 1 \<and> blockno (bufs s' j) = x)" if "j < NBUF" for j
        using that x b s' by (cases "j = i") auto
      from content_uncached [OF ok' this] have "content s' x = disk s 1 x"
        using x s' by simp
      moreover have "content s x = disk s 1 x"
      proof (cases "dev (bufs s i) = 1 \<and> blockno (bufs s i) = x")
        case True
        then show ?thesis
          using content_cached [OF ok i, of x] old x bio_okD(7) [OF ok i] by (auto simp: buf_ok_def)
      next
        case False
        with none show ?thesis by (intro content_uncached [OF ok]) auto
      qed
      ultimately show ?thesis using x by simp
    qed
  qed
qed

lemma bget_spec:
  assumes ok: "bio_ok s" and free: "\<not> held s bn" and av: "cached s bn \<or> bio_avail s"
  shows "\<exists>i b. bget mypid 1 bn s = Inr (i, s\<lparr>bufs := (bufs s)(i := b)\<rparr>) \<and>
    owns mypid i bn (s\<lparr>bufs := (bufs s)(i := b)\<rparr>) \<and> bio_ok (s\<lparr>bufs := (bufs s)(i := b)\<rparr>) \<and>
    content (s\<lparr>bufs := (bufs s)(i := b)\<rparr>) = content s \<and> refcnt (bufs s i) = 0 \<and>
    (valid b \<longrightarrow> data b = content s bn) \<and> (dirty b \<longrightarrow> dirty (bufs s i)) \<and>
    (valid b \<longrightarrow> \<not> dirty b \<longrightarrow> data b = disk s 1 bn) \<and>
    pinned (s\<lparr>bufs := (bufs s)(i := b)\<rparr>) = pinned s"
proof (cases "\<exists>i < NBUF. dev (bufs s i) = 1 \<and> blockno (bufs s i) = bn")
  case True
  then obtain i where i: "i < NBUF" "dev (bufs s i) = 1" "blockno (bufs s i) = bn" by blast
  with free have r: "refcnt (bufs s i) = 0" by (auto simp: held_def)
  let ?b = "(bufs s i)\<lparr>refcnt := 1, block := (block (bufs s i))\<lparr>locked := True, lpid := mypid\<rparr>\<rparr>"
  let ?s = "s\<lparr>bufs := (bufs s)(i := ?b)\<rparr>"
  have sole: "\<not> (dev (bufs s j) = 1 \<and> blockno (bufs s j) = bn)" if "j < NBUF" "j \<noteq> i" for j
    using bio_okD(8) [OF ok that(1) i(1)] that i by auto
  have b: "buf_ok (disk s) ?b" using bio_okD(7) [OF ok i(1)] by (simp add: buf_ok_def)
  have ok': "bio_ok ?s"
    by (rule bio_ok_replace [OF ok i(1) _ _ sole, where b = ?b and d = "disk s 1 bn"])
      (use i b bio_okD [OF ok] in simp_all)
  have "content ?s = (content s)(bn := if valid ?b then data ?b else disk s 1 bn)"
    by (rule content_replace [OF ok ok' i(1)]) (use i in simp_all)
  then have c: "content ?s = content s" using content_cached [OF ok i] by auto
  have "pinned ?s = pinned s" by (rule pinned_same [OF i(1), where b = ?b]) simp_all
  then show ?thesis
    using bget_cached [OF ok i r, of mypid] ok' c i r content_cached [OF ok i] bio_okD(7) [OF ok i(1)]
    by (intro exI [of _ i] exI [of _ ?b]) (simp add: upd_buf_def owns_def holdingsleep_def buf_ok_def)
next
  case False
  then have new: "\<And>i. i < NBUF \<Longrightarrow> \<not> (dev (bufs s i) = 1 \<and> blockno (bufs s i) = bn)" by blast
  have av: "bio_avail s" using av False by (simp add: cached_def)
  from bget_recycle [OF ok new av, where mypid = mypid] obtain i where
    i: "i < NBUF" "refcnt (bufs s i) = 0" "\<not> dirty (bufs s i)" and
    g: "bget mypid 1 bn s = Inr (i, upd_buf i (\<lambda>b. b\<lparr>dev := 1, blockno := bn, flags := 0,
      refcnt := 1, block := (block b)\<lparr>locked := True, lpid := mypid\<rparr>\<rparr>) s)" by blast
  let ?b = "(bufs s i)\<lparr>dev := 1, blockno := bn, flags := 0,
      refcnt := 1, block := (block (bufs s i))\<lparr>locked := True, lpid := mypid\<rparr>\<rparr>"
  let ?s = "s\<lparr>bufs := (bufs s)(i := ?b)\<rparr>"
  have b: "buf_ok (disk s) ?b" using bio_okD(7) [OF ok i(1)] by (simp add: buf_ok_def)
  have ok': "bio_ok ?s"
    by (rule bio_ok_replace [OF ok i(1) _ _ new, where b = ?b and d = "disk s 1 bn"])
      (use b bio_okD [OF ok] in simp_all)
  have "content ?s = (content s)(bn := if valid ?b then data ?b else disk s 1 bn)"
    by (rule content_replace [OF ok ok' i(1)]) (use i in simp_all)
  then have c: "content ?s = content s" using content_uncached [OF ok new] by auto
  have "pinned ?s = pinned s" by (rule pinned_same [OF i(1), where b = ?b]) (use i(3) in simp_all)
  then show ?thesis
    using g ok' c i by (intro exI [of _ i] exI [of _ ?b]) (simp add: upd_buf_def owns_def holdingsleep_def)
qed

lemma owns_sole:
  "bio_ok s \<Longrightarrow> owns mypid i bn s \<Longrightarrow> j < NBUF \<Longrightarrow> j \<noteq> i \<Longrightarrow>
   \<not> (dev (bufs s j) = 1 \<and> blockno (bufs s j) = bn)"
  using bio_okD(8) [of s j i] by (auto simp: owns_def)

text \<open>The owner of a buffer may replace its data and flags and the block on the drive.\<close>

lemma owned_replace:
  assumes ok: "bio_ok s" and own: "owns mypid i bn s"
    and b: "dev b = 1" "blockno b = bn" "refcnt b = 1" "locked (block b)"
      "length (data b) = BSIZE" "dirty b \<longrightarrow> valid b"
    and d: "length d = BSIZE"
    and s': "s' = s\<lparr>bufs := (bufs s)(i := b), disk := (disk s)(1 := (disk s 1)(bn := d))\<rparr>"
  shows "bio_ok s'" and "content s' = (content s)(bn := (if valid b then data b else d))"
proof -
  have i: "i < NBUF" "blockno (bufs s i) = bn" using own by (simp_all add: owns_def)
  show ok': "bio_ok s'"
    by (rule bio_ok_replace [OF ok i(1) b(1,2) owns_sole [OF ok own]])
      (use s' d b bio_okD [OF ok] in \<open>simp_all add: buf_ok_def\<close>)
  show "content s' = (content s)(bn := (if valid b then data b else d))"
    by (rule content_replace [OF ok ok' i(1) b(1,2)]) (use i s' in simp_all)
qed

abbreviation blimit :: u32 where
  "blimit \<equiv> of_nat (FSSIZE + SWAPBLOCKS)"

lemma bread_spec:
  assumes ok: "bio_ok s" and free: "\<not> held s bn" and av: "cached s bn \<or> bio_avail s" and lim: "bn < blimit"
  shows "\<exists>i b. bread mypid 1 bn s = Inr (i, s\<lparr>bufs := (bufs s)(i := b)\<rparr>) \<and>
    owns mypid i bn (s\<lparr>bufs := (bufs s)(i := b)\<rparr>) \<and> bio_ok (s\<lparr>bufs := (bufs s)(i := b)\<rparr>) \<and>
    content (s\<lparr>bufs := (bufs s)(i := b)\<rparr>) = content s \<and> refcnt (bufs s i) = 0 \<and>
    valid b \<and> data b = content s bn \<and> (dirty b \<longrightarrow> dirty (bufs s i)) \<and>
    (\<not> dirty b \<longrightarrow> data b = disk s 1 bn) \<and> pinned (s\<lparr>bufs := (bufs s)(i := b)\<rparr>) = pinned s"
proof -
  from bget_spec [OF ok free av, where mypid = mypid] obtain i b where
    g: "bget mypid 1 bn s = Inr (i, s\<lparr>bufs := (bufs s)(i := b)\<rparr>)" and
    own: "owns mypid i bn (s\<lparr>bufs := (bufs s)(i := b)\<rparr>)" and
    ok1: "bio_ok (s\<lparr>bufs := (bufs s)(i := b)\<rparr>)" and
    c1: "content (s\<lparr>bufs := (bufs s)(i := b)\<rparr>) = content s" and
    r: "refcnt (bufs s i) = 0" and v: "valid b \<longrightarrow> data b = content s bn"
      "dirty b \<longrightarrow> dirty (bufs s i)" "valid b \<longrightarrow> \<not> dirty b \<longrightarrow> data b = disk s 1 bn" and
    pin: "pinned (s\<lparr>bufs := (bufs s)(i := b)\<rparr>) = pinned s" by blast
  let ?s1 = "s\<lparr>bufs := (bufs s)(i := b)\<rparr>"
  show ?thesis
  proof (cases "valid b")
    case True
    with g own ok1 c1 r v pin show ?thesis
      by (intro exI [of _ i] exI [of _ b]) (simp add: bread_def)
  next
    case False
    have i: "i < NBUF" "dev b = 1" "blockno b = bn" "refcnt b = 1" "holdingsleep mypid (block b)"
      using own by (simp_all add: owns_def)
    have nd: "\<not> dirty b" using False bio_okD(7) [OF ok1 i(1)] by (auto simp: buf_ok_def)
    let ?b = "b\<lparr>data := disk s 1 bn, flags := (flags b OR B_VALID) AND NOT B_DIRTY\<rparr>"
    let ?s2 = "s\<lparr>bufs := (bufs s)(i := ?b)\<rparr>"
    have rd: "iderw mypid i ?s1 = Inr ?s2"
      using iderw_read [of ?s1 mypid i] bio_okD [OF ok] i lim False nd by (simp add: upd_buf_def)
    have 2: "bio_ok ?s2" "content ?s2 = (content ?s1)(bn := disk s 1 bn)"
      using owned_replace [OF ok1 own, of ?b "disk s 1 bn" ?s2] i bio_okD(6) [OF ok]
      by (simp_all add: holdingsleep_def)
    have "content s bn = disk s 1 bn"
      using content_cached [OF ok1, of i bn] i False c1 by simp
    then have "content ?s2 = content s" using 2(2) c1 by auto
    moreover have "pinned ?s2 = pinned ?s1" by (rule pinned_same [OF i(1), where b = ?b]) (use nd in simp_all)
    ultimately show ?thesis using g rd 2(1) own i r False \<open>content s bn = disk s 1 bn\<close> pin
      by (intro exI [of _ i] exI [of _ ?b]) (simp add: bread_def owns_def)
  qed
qed

lemma bwrite_spec:
  assumes ok: "bio_ok s" and own: "owns mypid i bn s" and lim: "bn < blimit"
  shows "\<exists>b s'. bwrite mypid i s = Inr s' \<and> bufs s' = (bufs s)(i := b) \<and>
    disk s' = (disk s)(1 := (disk s 1)(bn := data (bufs s i))) \<and> lru s' = lru s \<and>
    crashes s' = insert (disk s) (crashes s) \<and> owns mypid i bn s' \<and> bio_ok s' \<and> content s' = (content s)(bn := data (bufs s i)) \<and>
    valid b \<and> \<not> dirty b \<and> data b = data (bufs s i)"
proof -
  let ?b = "(bufs s i)\<lparr>flags := (flags (bufs s i) OR B_DIRTY OR B_VALID) AND NOT B_DIRTY\<rparr>"
  let ?s' = "s\<lparr>bufs := (bufs s)(i := ?b), disk := (disk s)(1 := (disk s 1)(bn := data (bufs s i))),
    crashes := insert (disk s) (crashes s)\<rparr>"
  have i: "i < NBUF" "dev (bufs s i) = 1" "blockno (bufs s i) = bn" "refcnt (bufs s i) = 1"
    "holdingsleep mypid (block (bufs s i))" using own by (simp_all add: owns_def)
  have len: "length (data (bufs s i)) = BSIZE" using bio_okD(7) [OF ok i(1)] by (simp add: buf_ok_def)
  have w: "bwrite mypid i s = Inr ?s'"
    using iderw_write [of "upd_buf i (\<lambda>b. b\<lparr>flags := flags b OR B_DIRTY\<rparr>) s" mypid i]
      bio_okD [OF ok] i lim
    by (simp add: bwrite_def upd_buf_def or.assoc)
  let ?t = "s\<lparr>bufs := (bufs s)(i := ?b), disk := (disk s)(1 := (disk s 1)(bn := data (bufs s i)))\<rparr>"
  have "bio_ok ?t" "content ?t = (content s)(bn := data (bufs s i))"
    using owned_replace [OF ok own, of ?b "data (bufs s i)" ?t] i len by (simp_all add: holdingsleep_def)
  then have "bio_ok ?s'" "content ?s' = (content s)(bn := data (bufs s i))"
    by simp_all
  moreover have "owns mypid i bn ?s'" using i by (simp add: owns_def)
  ultimately show ?thesis using w by (intro exI [of _ ?b] exI [of _ ?s']) simp
qed

lemma brelse_spec:
  assumes ok: "bio_ok s" and own: "owns mypid i bn s"
    and clean: "valid (bufs s i) \<Longrightarrow> \<not> dirty (bufs s i) \<Longrightarrow> data (bufs s i) = disk s 1 bn"
  shows "\<exists>b s'. brelse mypid i s = Inr s' \<and> bufs s' = (bufs s)(i := b) \<and> disk s' = disk s \<and> crashes s' = crashes s \<and>
    lru s' = i # remove1 i (lru s) \<and> bio_ok s' \<and> content s' = content s \<and>
    refcnt b = 0 \<and> flags b = flags (bufs s i) \<and> data b = data (bufs s i) \<and>
    dev b = dev (bufs s i) \<and> blockno b = blockno (bufs s i)"
proof -
  let ?b = "(bufs s i)\<lparr>block := releasesleep (block (bufs s i)), refcnt := 0\<rparr>"
  let ?s' = "s\<lparr>bufs := (bufs s)(i := ?b), lru := i # remove1 i (lru s)\<rparr>"
  have i: "i < NBUF" "dev (bufs s i) = 1" "blockno (bufs s i) = bn" "refcnt (bufs s i) = 1"
    "holdingsleep mypid (block (bufs s i))" using own by (simp_all add: owns_def)
  have r: "brelse mypid i s = Inr ?s'"
    using i by (simp add: brelse_def Let_def upd_buf_def)
  have bk: "buf_ok (disk s) ?b"
    using bio_okD(7) [OF ok i(1)] i clean by (simp add: buf_ok_def releasesleep_def)
  have ok': "bio_ok ?s'"
    by (rule bio_ok_replace [OF ok i(1) _ _ owns_sole [OF ok own], where b = ?b and d = "disk s 1 bn"])
      (use i bk bio_okD [OF ok] in \<open>simp_all add: insert_absorb\<close>)
  have "content ?s' = (content s)(bn := if valid ?b then data ?b else disk s 1 bn)"
    by (rule content_replace [OF ok ok' i(1)]) (use i in simp_all)
  then have "content ?s' = content s"
    using content_cached [OF ok i(1-3)] by auto
  with r ok' show ?thesis by (intro exI [of _ ?b] exI [of _ ?s']) simp
qed

section \<open>A store of blocks\<close>

text \<open>What the swap code needs of the block layer: storing a block and reading it back,
  with the effect on the logical contents and no other.\<close>

locale block_store =
  fixes put :: "u32 \<Rightarrow> u8 list \<Rightarrow> 's \<Rightarrow> 's res"
    and get :: "u32 \<Rightarrow> 's \<Rightarrow> (u8 list \<times> 's) res"
    and cont :: "'s \<Rightarrow> u32 \<Rightarrow> u8 list"
    and invar :: "'s \<Rightarrow> bool"
    and limit :: u32
  assumes put_ok: "invar s \<Longrightarrow> bn < limit \<Longrightarrow> length d = BSIZE \<Longrightarrow>
      \<exists>s'. put bn d s = Inr s' \<and> invar s' \<and> cont s' = (cont s)(bn := d)"
    and get_ok: "invar s \<Longrightarrow> bn < limit \<Longrightarrow>
      \<exists>s'. get bn s = Inr (cont s bn, s') \<and> invar s' \<and> cont s' = cont s"
    and cont_length: "invar s \<Longrightarrow> length (cont s bn) = BSIZE"
begin

fun puts :: "(u32 \<times> u8 list) list \<Rightarrow> 's \<Rightarrow> 's res" where
  "puts [] s = Inr s"
| "puts ((bn, d) # xs) s = rbind (put bn d s) (puts xs)"

fun gets :: "u32 list \<Rightarrow> 's \<Rightarrow> (u8 list list \<times> 's) res" where
  "gets [] s = Inr ([], s)"
| "gets (bn # bns) s =
     rbind (get bn s) (\<lambda>(d, s). rbind (gets bns s) (\<lambda>(ds, s). Inr (d # ds, s)))"

lemma puts_ok:
  "invar s \<Longrightarrow> \<forall>(bn, d) \<in> set xs. bn < limit \<and> length d = BSIZE \<Longrightarrow> distinct (map fst xs) \<Longrightarrow>
   \<exists>s'. puts xs s = Inr s' \<and> invar s' \<and>
     cont s' = (\<lambda>bn. case map_of xs bn of Some d \<Rightarrow> d | None \<Rightarrow> cont s bn)"
proof (induction xs arbitrary: s)
  case Nil
  then show ?case by simp
next
  case (Cons x xs)
  obtain bn d where x: "x = (bn, d)" by fastforce
  with Cons.prems put_ok [of s bn d] obtain s1 where
    s1: "put bn d s = Inr s1" "invar s1" "cont s1 = (cont s)(bn := d)" by auto
  from Cons.IH [OF s1(2)] Cons.prems obtain s2 where
    s2: "puts xs s1 = Inr s2" "invar s2"
      "cont s2 = (\<lambda>bn. case map_of xs bn of Some d \<Rightarrow> d | None \<Rightarrow> cont s1 bn)" by auto
  have "map_of xs bn = None" using Cons.prems x by (simp add: map_of_eq_None_iff)
  with s1 s2 x show ?case by (auto split: option.splits)
qed

lemma gets_ok:
  "invar s \<Longrightarrow> \<forall>bn \<in> set bns. bn < limit \<Longrightarrow>
   \<exists>s'. gets bns s = Inr (map (cont s) bns, s') \<and> invar s' \<and> cont s' = cont s"
proof (induction bns arbitrary: s)
  case Nil
  then show ?case by simp
next
  case (Cons bn bns)
  with get_ok [of s bn] obtain s1 where
    s1: "get bn s = Inr (cont s bn, s1)" "invar s1" "cont s1 = cont s" by auto
  from Cons.IH [OF s1(2)] Cons.prems s1 show ?case by auto
qed

text \<open>Blocks stored together are read back together.\<close>

lemma gets_puts:
  assumes "invar s" and "\<forall>(bn, d) \<in> set xs. bn < limit \<and> length d = BSIZE" and "distinct (map fst xs)"
  shows "\<exists>s1 s2. puts xs s = Inr s1 \<and> gets (map fst xs) s1 = Inr (map snd xs, s2) \<and>
    invar s2 \<and> cont s2 = cont s1"
proof -
  from puts_ok [OF assms] obtain s1 where s1: "puts xs s = Inr s1" "invar s1"
    "cont s1 = (\<lambda>bn. case map_of xs bn of Some d \<Rightarrow> d | None \<Rightarrow> cont s bn)" by blast
  have "\<forall>bn \<in> set (map fst xs). bn < limit" using assms(2) by auto
  from gets_ok [OF s1(2) this] obtain s2 where
    s2: "gets (map fst xs) s1 = Inr (map (cont s1) (map fst xs), s2)" "invar s2" "cont s2 = cont s1"
    by blast
  have "cont s1 (fst x) = snd x" if "x \<in> set xs" for x
    using that map_of_is_SomeI [OF assms(3), of "fst x" "snd x"] s1(3) by simp
  then have "map (cont s1) (map fst xs) = map snd xs" by simp
  with s1(1) s2 show ?thesis by auto
qed

end

definition put_block :: "u32 \<Rightarrow> u32 \<Rightarrow> u8 list \<Rightarrow> bstate \<Rightarrow> bstate res" where
  "put_block mypid bn d s =
     rbind (bget mypid ROOTDEV bn s) (\<lambda>(b, s).
     rbind (bwrite mypid b (upd_buf b (\<lambda>x. x\<lparr>data := d\<rparr>) s)) (brelse mypid b))"

definition get_block :: "u32 \<Rightarrow> u32 \<Rightarrow> bstate \<Rightarrow> (u8 list \<times> bstate) res" where
  "get_block mypid bn s =
     rbind (bread mypid ROOTDEV bn s) (\<lambda>(b, s).
     rbind (brelse mypid b s) (\<lambda>s'. Inr (data (bufs s b), s')))"

text \<open>Nobody holds a buffer and one is not pinned by the log.\<close>

definition bio_idle :: "bstate \<Rightarrow> bool" where
  "bio_idle s \<longleftrightarrow> bio_ok s \<and> (\<forall>i < NBUF. refcnt (bufs s i) = 0) \<and> bio_avail s"

lemma bio_idleD:
  assumes "bio_idle s"
  shows "bio_ok s" "\<not> held s bn" "bio_avail s" "i < NBUF \<Longrightarrow> refcnt (bufs s i) = 0"
  using assms by (auto simp: bio_idle_def held_def)

lemma put_block_idle:
  assumes idle: "bio_idle s" and lim: "bn < blimit" and len: "length d = BSIZE"
  shows "\<exists>s'. put_block mypid bn d s = Inr s' \<and> bio_idle s' \<and> content s' = (content s)(bn := d)"
proof -
  note D = bio_idleD [OF idle]
  from bget_spec [OF D(1,2) disjI2 [OF D(3)], where mypid = mypid] obtain i b where
    g: "bget mypid 1 bn s = Inr (i, s\<lparr>bufs := (bufs s)(i := b)\<rparr>)" and
    own: "owns mypid i bn (s\<lparr>bufs := (bufs s)(i := b)\<rparr>)" and
    ok1: "bio_ok (s\<lparr>bufs := (bufs s)(i := b)\<rparr>)" and
    c1: "content (s\<lparr>bufs := (bufs s)(i := b)\<rparr>) = content s" by blast
  let ?s1 = "s\<lparr>bufs := (bufs s)(i := b)\<rparr>"
  let ?b2 = "b\<lparr>data := d\<rparr>"
  let ?s2 = "s\<lparr>bufs := (bufs s)(i := ?b2)\<rparr>"
  have i: "i < NBUF" "dev b = 1" "blockno b = bn" "refcnt b = 1" "holdingsleep mypid (block b)"
    using own by (simp_all add: owns_def)
  have dv: "dirty b \<longrightarrow> valid b" using bio_okD(7) [OF ok1 i(1)] by (simp add: buf_ok_def)
  have own2: "owns mypid i bn ?s2" using i by (simp add: owns_def)
  have 2: "bio_ok ?s2" "content ?s2 = (content s)(bn := if valid b then d else disk s 1 bn)"
    using owned_replace [OF ok1 own, of ?b2 "disk s 1 bn" ?s2] i len dv c1 bio_okD(6) [OF D(1)]
    by (simp_all add: holdingsleep_def)
  from bwrite_spec [OF 2(1) own2 lim] obtain b3 s3 where
    w: "bwrite mypid i ?s2 = Inr s3" "bufs s3 = (bufs s)(i := b3)"
      "disk s3 = (disk s)(1 := (disk s 1)(bn := d))" "owns mypid i bn s3" "bio_ok s3"
      "content s3 = (content s)(bn := d)" "valid b3" "\<not> dirty b3" "data b3 = d"
    using 2(2) by auto
  have "data (bufs s3 i) = disk s3 1 bn" using w by simp
  from brelse_spec [OF w(5,4)] this obtain b4 s4 where
    r: "brelse mypid i s3 = Inr s4" "bufs s4 = (bufs s)(i := b4)" "bio_ok s4" "content s4 = content s3"
      "refcnt b4 = 0" "flags b4 = flags b3"
    using w(2) by auto
  have "bio_idle s4"
    unfolding bio_idle_def bio_avail_def using r w(8) D(4) i(1)
    by (auto simp: r(2) intro!: exI [of _ i])
  with g w(1,6) r(1,4) show ?thesis
    by (simp add: put_block_def upd_buf_def)
qed

lemma get_block_idle:
  assumes idle: "bio_idle s" and lim: "bn < blimit"
  shows "\<exists>s'. get_block mypid bn s = Inr (content s bn, s') \<and> bio_idle s' \<and> content s' = content s"
proof -
  note D = bio_idleD [OF idle]
  from bread_spec [OF D(1,2) disjI2 [OF D(3)] lim, where mypid = mypid] obtain i b where
    g: "bread mypid 1 bn s = Inr (i, s\<lparr>bufs := (bufs s)(i := b)\<rparr>)" and
    own: "owns mypid i bn (s\<lparr>bufs := (bufs s)(i := b)\<rparr>)" and
    ok1: "bio_ok (s\<lparr>bufs := (bufs s)(i := b)\<rparr>)" and
    c1: "content (s\<lparr>bufs := (bufs s)(i := b)\<rparr>) = content s" and
    b: "valid b" "data b = content s bn" "dirty b \<longrightarrow> dirty (bufs s i)" "\<not> dirty b \<longrightarrow> data b = disk s 1 bn"
    by blast
  have i: "i < NBUF" using own by (simp add: owns_def)
  from brelse_spec [OF ok1 own] b obtain b4 s4 where
    r: "brelse mypid i (s\<lparr>bufs := (bufs s)(i := b)\<rparr>) = Inr s4" "bufs s4 = (bufs s)(i := b4)" "bio_ok s4"
      "content s4 = content s" "refcnt b4 = 0" "flags b4 = flags b"
    using c1 by auto
  from D(3) obtain k where k: "k < NBUF" "refcnt (bufs s k) = 0" "\<not> dirty (bufs s k)"
    by (auto simp: bio_avail_def)
  have "refcnt (bufs s4 k) = 0 \<and> \<not> dirty (bufs s4 k)"
    using k r b(3) by (cases "k = i") auto
  then have "bio_avail s4" unfolding bio_avail_def using k(1) by blast
  then have "bio_idle s4"
    using r(3,5) D(4) by (simp add: bio_idle_def r(2))
  with g b r show ?thesis by (simp add: get_block_def)
qed

interpretation bio: block_store "put_block mypid" "get_block mypid" content bio_idle blimit
  for mypid
  by unfold_locales (use put_block_idle get_block_idle bio_idleD(1) length_content in blast)+

section \<open>Page transfer\<close>

lemma mwrite_Nil [simp]: "mwrite m a [] = m"
  by (simp add: mwrite_def)

lemma mwrite_append:
  assumes "length (xs @ ys) \<le> 4294967296"
  shows "mwrite (mwrite m a xs) (a + of_nat (length xs)) ys = mwrite m a (xs @ ys)"
proof (cases "ys = []")
  case True
  then show ?thesis by (simp add: mwrite_def)
next
  case False
  then have "length xs < 4294967296" using assms by (cases ys) auto
  then have "unat (of_nat (length xs) :: u32) = length xs" by (simp add: unat_of_nat)
  then show ?thesis
    using assms by (intro ext) (auto simp: mwrite_def nth_append unat_sub_add u32_less)
qed

lemma mread_append: "mread m a (n + k) = mread m a n @ mread m (a + of_nat n) k"
proof (rule nth_equalityI)
  fix i
  assume "i < length (mread m a (n + k))"
  then show "mread m a (n + k) ! i = (mread m a n @ mread m (a + of_nat n) k) ! i"
    by (auto simp: nth_append add.assoc simp flip: of_nat_add)
qed simp

lemma mread_chunks:
  "concat (map (\<lambda>i. mread m (a + of_nat (i * 512)) 512) [0..<n]) = mread m a (n * 512)"
proof (induction n)
  case 0
  then show ?case by (simp add: mread_def)
next
  case (Suc n)
  then show ?case using mread_append [of m a "n * 512" 512] by (simp add: add.commute)
qed

lemma write_pag_to_disk_loop_Cons:
  "write_pag_to_disk_loop mypid m page blk (i # is) s =
     rbind (put_block mypid (blk + of_nat i) (mread m (page + of_nat (i * 512)) 512) s)
       (write_pag_to_disk_loop mypid m page blk is)"
  by (simp add: put_block_def rbind_assoc case_prod_unfold)

lemma write_pag_to_disk_loop_puts:
  "write_pag_to_disk_loop mypid m page blk is s =
     bio.puts mypid (map (\<lambda>i. (blk + of_nat i, mread m (page + of_nat (i * 512)) 512)) is) s"
proof (induction "is" arbitrary: s)
  case (Cons i "is")
  then have "write_pag_to_disk_loop mypid m page blk is = bio.puts mypid
      (map (\<lambda>i. (blk + of_nat i, mread m (page + of_nat (i * 512)) 512)) is)" by blast
  then show ?case unfolding write_pag_to_disk_loop_Cons by simp
qed simp

lemma read_page_from_disk_loop_Cons:
  "read_page_from_disk_loop mypid slot dst (i # is) m s =
     rbind (get_block mypid (slot + of_nat i) s) (\<lambda>(d, s).
     read_page_from_disk_loop mypid slot dst is (mwrite m (dst + of_nat (i * 512)) (take 512 d)) s)"
  by (simp add: get_block_def rbind_assoc case_prod_unfold Let_def)

lemma distinct_block_range:
  assumes "unat blk + 8 \<le> unat blimit"
  shows "distinct (map (\<lambda>i. blk + of_nat i :: u32) [0..<8])"
    and "i < 8 \<Longrightarrow> blk + of_nat i < blimit"
    and "i < 8 \<Longrightarrow> unat (blk + of_nat i) = unat blk + i"
proof -
  have b: "unat blk + 8 < 4294967296" using assms u32_less [of blimit] by linarith
  show u: "unat (blk + of_nat i) = unat blk + i" if "i < 8" for i
    using that b by (simp add: unat_word_ariths unat_of_nat)
  then show "i < 8 \<Longrightarrow> blk + of_nat i < blimit" using assms by (simp add: word_less_nat_alt)
  show "distinct (map (\<lambda>i. blk + of_nat i :: u32) [0..<8])"
    unfolding distinct_map by (auto intro!: inj_onI simp: word_unat_eq_iff u)
qed

lemma write_pag_to_disk_spec:
  assumes "bio_idle s" and lim: "unat blk + 8 \<le> unat blimit"
  shows "\<exists>s'. write_pag_to_disk mypid m page blk s = Inr s' \<and> bio_idle s' \<and>
    (\<forall>i < 8. content s' (blk + of_nat i) = mread m (page + of_nat (i * 512)) 512) \<and>
    (\<forall>bn. unat bn < unat blk \<or> unat blk + 8 \<le> unat bn \<longrightarrow> content s' bn = content s bn)"
proof -
  let ?f = "\<lambda>i. (blk + of_nat i :: u32, mread m (page + of_nat (i * 512)) 512)"
  note R = distinct_block_range [OF lim]
  have "\<forall>(bn, d) \<in> set (map ?f [0..<8]). bn < blimit \<and> length d = BSIZE"
    using R(2) by (auto simp: BSIZE_def)
  moreover have dist: "distinct (map fst (map ?f [0..<8]))"
    using R(1) by (simp add: comp_def)
  ultimately obtain s' where s': "write_pag_to_disk mypid m page blk s = Inr s'" "bio_idle s'"
    "content s' = (\<lambda>bn. case map_of (map ?f [0..<8]) bn of Some d \<Rightarrow> d | None \<Rightarrow> content s bn)"
    using bio.puts_ok [OF assms(1), of "map ?f [0..<8]" mypid]
    unfolding write_pag_to_disk_def write_pag_to_disk_loop_puts by blast
  have "content s' (blk + of_nat i) = mread m (page + of_nat (i * 512)) 512" if "i < 8" for i
  proof -
    have "?f i \<in> set (map ?f [0..<8])" using that by auto
    from map_of_is_SomeI [OF dist this] show ?thesis by (simp add: s'(3))
  qed
  moreover have "content s' bn = content s bn" if "unat bn < unat blk \<or> unat blk + 8 \<le> unat bn" for bn
  proof -
    have "bn \<notin> fst ` set (map ?f [0..<8])" using that R(3) by auto
    then have "map_of (map ?f [0..<8]) bn = None" by (simp only: map_of_eq_None_iff not_False_eq_True)
    then show ?thesis by (simp add: s'(3))
  qed
  ultimately show ?thesis using s'(1,2) by blast
qed

lemma read_page_from_disk_loop_spec:
  "bio_idle s \<Longrightarrow> \<forall>i \<in> set [k..<n]. slot + of_nat i < blimit \<Longrightarrow> k \<le> n \<Longrightarrow> n \<le> 8 \<Longrightarrow>
   \<exists>s'. read_page_from_disk_loop mypid slot dst [k..<n] m s =
     Inr (mwrite m (dst + of_nat (k * 512)) (concat (map (\<lambda>i. content s (slot + of_nat i)) [k..<n])), s') \<and>
     bio_idle s' \<and> content s' = content s"
proof (induction "n - k" arbitrary: k m s)
  case 0
  then show ?case by simp
next
  case (Suc d)
  then have k: "k < n" by simp
  then have up: "[k..<n] = k # [Suc k..<n]" by (simp add: upt_conv_Cons)
  let ?c = "content s (slot + of_nat k)"
  from get_block_idle [OF Suc.prems(1), of "slot + of_nat k" mypid] Suc.prems(2) up obtain s1 where
    g: "get_block mypid (slot + of_nat k) s = Inr (?c, s1)" "bio_idle s1" "content s1 = content s"
    by auto
  have len: "length ?c = 512" using length_content [OF bio_idleD(1) [OF Suc.prems(1)]] by (simp add: BSIZE_def)
  let ?m = "mwrite m (dst + of_nat (k * 512)) ?c"
  have "\<exists>s'. read_page_from_disk_loop mypid slot dst [Suc k..<n] ?m s1 =
      Inr (mwrite ?m (dst + of_nat (Suc k * 512)) (concat (map (\<lambda>i. content s1 (slot + of_nat i)) [Suc k..<n])), s') \<and>
      bio_idle s' \<and> content s' = content s1"
    using Suc.hyps Suc.prems g(2) k up by (intro Suc.hyps(1)) simp_all
  then obtain s2 where
    r: "read_page_from_disk_loop mypid slot dst [Suc k..<n] ?m s1 =
      Inr (mwrite ?m (dst + of_nat (Suc k * 512)) (concat (map (\<lambda>i. content s (slot + of_nat i)) [Suc k..<n])), s2)"
      "bio_idle s2" "content s2 = content s" unfolding g(3) by blast
  have lc: "length (concat (map (\<lambda>i. content s (slot + of_nat i)) xs)) = length xs * 512" for xs
    using length_content [OF bio_idleD(1) [OF Suc.prems(1)]]
    by (induction xs) (simp_all add: BSIZE_def)
  have addr: "dst + of_nat (Suc k * 512) = dst + of_nat (k * 512) + of_nat (length ?c)"
    by (simp add: len)
  have "mwrite ?m (dst + of_nat (Suc k * 512)) (concat (map (\<lambda>i. content s (slot + of_nat i)) [Suc k..<n])) =
      mwrite m (dst + of_nat (k * 512)) (concat (map (\<lambda>i. content s (slot + of_nat i)) [k..<n]))"
    unfolding addr up using mwrite_append [of ?c _ m] lc [of "[Suc k..<n]"] len Suc.prems(4) by simp
  with g r len show ?case unfolding up read_page_from_disk_loop_Cons by simp
qed

text \<open>Writing a page to a slot and reading the slot gives the page back.\<close>

lemma read_page_from_disk_spec:
  assumes "bio_idle s" and lim: "unat slot + 8 \<le> unat blimit"
  shows "\<exists>s'. read_page_from_disk mypid slot dst m s =
     Inr (mwrite m dst (concat (map (\<lambda>i. content s (slot + of_nat i)) [0..<8])), s') \<and>
     bio_idle s' \<and> content s' = content s"
  using read_page_from_disk_loop_spec [of s 0 8 slot mypid dst m] assms(1) distinct_block_range(2) [OF lim]
  by (simp add: read_page_from_disk_def)

section \<open>Properties\<close>

text \<open>C13. Writing a page of memory to eight consecutive blocks and reading these blocks back
  into any page gives the same 4096 bytes; both transfers succeed on an idle cache, and no
  other block changes.\<close>

theorem page_disk_roundtrip:
  assumes "bio_idle s" and "unat slot + 8 \<le> FSSIZE + SWAPBLOCKS"
  shows "\<exists>s1 s2. write_pag_to_disk me m page slot s = Inr s1 \<and>
    read_page_from_disk me slot dst m' s1 = Inr (mwrite m' dst (mread m page 4096), s2) \<and>
    bio_idle s2 \<and> (\<forall>bn. unat bn < unat slot \<or> unat slot + 8 \<le> unat bn \<longrightarrow> content s2 bn = content s bn)"
proof -
  have lim: "unat slot + 8 \<le> unat blimit"
    using assms(2) by (simp add: FSSIZE_def SWAPBLOCKS_def unat_of_nat)
  from write_pag_to_disk_spec [OF assms(1) lim, of me m page] obtain s1 where
    w: "write_pag_to_disk me m page slot s = Inr s1" "bio_idle s1"
    "\<forall>i < 8. content s1 (slot + of_nat i) = mread m (page + of_nat (i * 512)) 512"
    "\<forall>bn. unat bn < unat slot \<or> unat slot + 8 \<le> unat bn \<longrightarrow> content s1 bn = content s bn" by blast
  have "map (\<lambda>i. content s1 (slot + of_nat i)) [0..<8] = map (\<lambda>i. mread m (page + of_nat (i * 512)) 512) [0..<8]"
    using w(3) by simp
  then have "concat (map (\<lambda>i. content s1 (slot + of_nat i)) [0..<8]) = mread m page 4096"
    using mread_chunks [of m page 8] by (simp only:) simp
  with read_page_from_disk_spec [OF w(2) lim, of me dst m'] w(1,4) show ?thesis by auto
qed

definition bio_boot :: bstate where
  "bio_boot = binit \<lparr>bufs = (\<lambda>_. \<lparr>flags = 0, dev = 0, blockno = 0, block = initsleeplock, refcnt = 0,
     data = replicate BSIZE 0\<rparr>), lru = [], idequeue = [], havedisk1 = True, ide_error = False,
     disk = (\<lambda>_ _. replicate BSIZE 0), crashes = {}\<rparr>"

lemma bio_boot_idle: "bio_idle bio_boot"
proof -
  have "bio_ok bio_boot" unfolding bio_ok_def
    by (simp add: bio_boot_def binit_def initsleeplock_def buf_ok_def)
  moreover have "bio_avail bio_boot" unfolding bio_avail_def
    by (intro exI [of _ 0]) (simp add: bio_boot_def binit_def NBUF_def MAXOPBLOCKS_def)
  ultimately show ?thesis by (simp add: bio_idle_def) (simp add: bio_boot_def binit_def)
qed

theorem page_disk_roundtrip_witness:
  "\<exists>s1 s2. write_pag_to_disk 1 ucast 0x80300000 10 bio_boot = Inr s1 \<and>
    read_page_from_disk 1 10 0x80301000 ucast s1 =
      Inr (mwrite ucast 0x80301000 (mread ucast 0x80300000 4096), s2) \<and>
    bio_idle s2 \<and> (\<forall>bn. unat bn < 10 \<or> 18 \<le> unat bn \<longrightarrow> content s2 bn = content bio_boot bn)"
  using page_disk_roundtrip [OF bio_boot_idle, of 10 1 ucast "0x80300000" "0x80301000" ucast]
  by (simp add: FSSIZE_def SWAPBLOCKS_def)

text \<open>A request for a block beyond the file system and the swap area panics when the drive
  is started, so such a block is never read or written.\<close>

lemma idestart_bad_block:
  assumes "FSSIZE + SWAPBLOCKS \<le> unat (blockno (bufs s i))"
  shows "idestart i s = Inl (Panic ''incorrect blockno'')"
proof -
  have "blimit \<le> blockno (bufs s i)"
    using assms by (simp add: word_le_nat_alt FSSIZE_def SWAPBLOCKS_def unat_of_nat)
  then show ?thesis by (simp add: idestart_def Let_def)
qed

end
