(* ===== verification/Xv6_Kstate.thy ===== *)
theory Xv6_Kstate
  imports Xv6_Rmap Xv6_Bio
begin

text \<open>
  The state of the memory subsystem and its bottom layer: the structures of \<open>proc.h\<close>,
  \<open>proc.c\<close> and \<open>kalloc.c\<close>, the page free list with \<open>kfree\<close>, and the address lists of the
  page loops. Physical memory is the byte array \<open>ram\<close>, indexed by kernel virtual address
  (\<open>P2V\<close> of the physical address); page directories, page tables and the free list live in
  it, and pointers to them are 32-bit addresses. A pointer to a process is its index in
  the process table.
\<close>

section \<open>Structures\<close>

datatype procstate = UNUSED | EMBRYO | SLEEPING | RUNNABLE | RUNNING | ZOMBIE

record proc =
  p_sz :: u32
  p_rss :: u32
  p_pgdir :: u32
  p_kstack :: u32
  p_state :: procstate
  p_pid :: u32
  p_parent :: "nat option"
  p_tf :: u32
  p_context :: u32
  p_chan :: "chan option"
  p_killed :: bool
  p_ofile :: "nat option list"
  p_cwd :: "nat option"
  p_name :: string

record swapslot =
  start :: u32
  page_perm :: u32
  is_free :: bool
  sl_pte :: "u32 list"
  sl_proc :: "nat list"
  cnt :: u32

definition NSLOTS :: nat where "NSLOTS = SWAPBLOCKS div 8"

record kstate =
  ram :: memory
  freelist :: u32
  num_free_pages :: u32
  use_lock :: bool
  global_var :: u32
  rmap :: rmap_table
  swaparray :: "nat \<Rightarrow> swapslot"
  proctab :: "nat \<Rightarrow> proc"
  curproc :: "nat option"
  initproc :: "nat option"
  nextpid :: u32
  bcache :: bstate
  cr3 :: u32
  ts_esp0 :: u32

definition upd_proc :: "nat \<Rightarrow> (proc \<Rightarrow> proc) \<Rightarrow> kstate \<Rightarrow> kstate" where
  "upd_proc i f s = s\<lparr>proctab := (proctab s)(i := f (proctab s i))\<rparr>"

definition upd_slot :: "nat \<Rightarrow> (swapslot \<Rightarrow> swapslot) \<Rightarrow> kstate \<Rightarrow> kstate" where
  "upd_slot i f s = s\<lparr>swaparray := (swaparray s)(i := f (swaparray s i))\<rparr>"

text \<open>\<open>myproc()\<close>, where its fields are used.\<close>

definition myproc :: "kstate \<Rightarrow> nat res" where
  "myproc s = (case curproc s of None \<Rightarrow> Inl (Fault ''myproc'') | Some i \<Rightarrow> Inr i)"

text \<open>\<open>*pte\<close> for a pointer that may be null, and \<open>*pte = v\<close>.\<close>

definition deref :: "u32 \<Rightarrow> kstate \<Rightarrow> u32 res" where
  "deref pte s = (if pte = 0 then Inl (Fault ''null pointer'') else Inr (ld32 (ram s) pte))"

definition poke :: "u32 \<Rightarrow> u32 \<Rightarrow> kstate \<Rightarrow> kstate" where
  "poke pte v s = s\<lparr>ram := st32 (ram s) pte v\<rparr>"

section \<open>Page loops\<close>

text \<open>The values of \<open>a\<close> in \<open>for(; a < e; a += PGSIZE)\<close>. All sizes are below \<open>KERNBASE\<close>, so
  the increment does not wrap; the list stops where it would.\<close>

function pg_addrs :: "u32 \<Rightarrow> u32 \<Rightarrow> u32 list" where
  "pg_addrs a e = (if a < e then a # (if a + PGSIZE < a then [] else pg_addrs (a + PGSIZE) e) else [])"
  by pat_completeness auto
termination
proof (relation "measure (\<lambda>(a, e). unat e - unat a)", simp)
  fix a e :: u32
  assume "a < e" and "\<not> a + PGSIZE < a"
  then have "unat a < unat e" "unat (a + 4096) \<ge> unat a" "a + 4096 \<noteq> a"
    by (auto simp: word_less_nat_alt)
  moreover have "unat (a + 4096) \<noteq> unat a" using \<open>a + 4096 \<noteq> a\<close> by (simp add: word_unat_eq_iff)
  ultimately show "((a + PGSIZE, e), a, e) \<in> measure (\<lambda>(a, e). unat e - unat a)" by simp
qed

declare pg_addrs.simps [simp del]

text \<open>The values of \<open>p\<close> in \<open>for(; p + PGSIZE <= e; p += PGSIZE)\<close>.\<close>

function freerange_addrs :: "u32 \<Rightarrow> u32 \<Rightarrow> u32 list" where
  "freerange_addrs p e =
     (if unat p + 4096 \<le> unat e then p # freerange_addrs (p + PGSIZE) e else [])"
  by pat_completeness auto
termination
proof (relation "measure (\<lambda>(p, e). unat e - unat p)", simp)
  fix p e :: u32
  assume "unat p + 4096 \<le> unat e"
  then have "unat (p + 4096) = unat p + 4096" using u32_less [of e] by (simp add: unat_word_ariths)
  with \<open>unat p + 4096 \<le> unat e\<close>
  show "((p + PGSIZE, e), p, e) \<in> measure (\<lambda>(p, e). unat e - unat p)" by simp
qed

declare freerange_addrs.simps [simp del]

section \<open>\<open>kalloc.c\<close>: freeing pages\<close>

text \<open>\<open>kend\<close> is the linker's symbol \<open>end\<close>, the first address after the kernel image.\<close>

definition kfree :: "u32 \<Rightarrow> u32 \<Rightarrow> kstate \<Rightarrow> kstate res" where
  "kfree kend v s =
     (if v mod PGSIZE \<noteq> 0 \<or> v < kend \<or> V2P v \<ge> PHYSTOP then Inl (Panic ''kfree'')
      else
        let s = s\<lparr>ram := memset (ram s) v 1 PGSIZE\<rparr>;
            s = s\<lparr>ram := st32 (ram s) v (freelist s)\<rparr>
        in Inr (s\<lparr>num_free_pages := num_free_pages s + 1, freelist := v\<rparr>))"

fun kfree_list :: "u32 \<Rightarrow> u32 list \<Rightarrow> kstate \<Rightarrow> kstate res" where
  "kfree_list kend [] s = Inr s"
| "kfree_list kend (p # ps) s = rbind (kfree kend p s) (kfree_list kend ps)"

definition freerange :: "u32 \<Rightarrow> u32 \<Rightarrow> u32 \<Rightarrow> kstate \<Rightarrow> kstate res" where
  "freerange kend vstart vend s = kfree_list kend (freerange_addrs (PGROUNDUP vstart) vend) s"

definition kinit1 :: "u32 \<Rightarrow> u32 \<Rightarrow> u32 \<Rightarrow> kstate \<Rightarrow> kstate res" where
  "kinit1 kend vstart vend s = freerange kend vstart vend (s\<lparr>use_lock := False\<rparr>)"

definition kinit2 :: "u32 \<Rightarrow> u32 \<Rightarrow> u32 \<Rightarrow> kstate \<Rightarrow> kstate res" where
  "kinit2 kend vstart vend s =
     rbind (freerange kend vstart vend s) (\<lambda>s. Inr (s\<lparr>use_lock := True\<rparr>))"

text \<open>The first half of \<open>kalloc\<close>: take the head of the free list, if there is one.\<close>

definition take_free :: "kstate \<Rightarrow> u32 \<times> kstate" where
  "take_free s =
     (let r = freelist s;
          s = (if r \<noteq> 0 then s\<lparr>freelist := ld32 (ram s) r, num_free_pages := num_free_pages s - 1\<rparr> else s)
      in (r, s\<lparr>global_var := global_var s + 1\<rparr>))"

definition num_of_FreePages :: "kstate \<Rightarrow> u32" where
  "num_of_FreePages s = num_free_pages s"

section \<open>Words and pages\<close>

text \<open>A page of allocatable memory: what \<open>kfree\<close> accepts.\<close>

definition kpage :: "u32 \<Rightarrow> u32 \<Rightarrow> bool" where
  "kpage kend v \<longleftrightarrow> pg_aligned v \<and> kend \<le> v \<and> V2P v < PHYSTOP"

lemma kpage_nonzero: "kpage kend v \<Longrightarrow> v \<noteq> 0"
  by (auto simp: kpage_def V2P_def)

lemma kpage_aligned [simp]: "kpage kend v \<Longrightarrow> pg_aligned v"
  by (simp add: kpage_def)

lemma pg_aligned_w: "pg_aligned a \<Longrightarrow> w_aligned a"
  by (auto simp: pg_aligned_unat w_aligned_unat)

lemma kpage_w [simp]: "kpage kend v \<Longrightarrow> w_aligned v"
  by (simp add: pg_aligned_w)

text \<open>An address is in page \<open>p\<close> when it rounds down to it.\<close>

lemma in_page_iff:
  assumes "pg_aligned p"
  shows "unat (a - p) < 4096 \<longleftrightarrow> PTE_ADDR a = p"
proof
  assume "unat (a - p) < 4096"
  then have "a - p < PGSIZE" by (simp add: word_less_nat_alt)
  from PTE_ADDR_add [OF assms this] show "PTE_ADDR a = p" by simp
next
  assume p: "PTE_ADDR a = p"
  have "unat p \<le> unat a" "unat a < unat p + 4096"
    using unat_PTE_ADDR [of a] p by auto
  then show "unat (a - p) < 4096" by (auto simp: unat_sub_cases)
qed

lemma PTE_ADDR_word:
  assumes "w_aligned a" and "unat k < 4"
  shows "PTE_ADDR (a + k) = PTE_ADDR a"
proof -
  have u: "unat (a + k) = unat a + unat k" using assms by (rule unat_w_add)
  from assms(1) obtain q where q: "unat a = 4 * q"
    by (auto simp: w_aligned_unat elim!: dvdE simp flip: dvd_eq_mod_eq_0)
  have d: "n div 4096 = n div 4 div 1024" for n :: nat by (simp flip: div_mult2_eq)
  have "(unat a + unat k) div 4 = unat a div 4" using assms(2) by (simp add: q)
  then have "unat (PTE_ADDR (a + k)) = unat (PTE_ADDR a)" unfolding unat_PTE_ADDR u d by simp
  then show ?thesis by (simp add: word_unat_eq_iff)
qed

lemma ld32_cong:
  assumes "w_aligned a" and "\<And>x. PTE_ADDR x = PTE_ADDR a \<Longrightarrow> m' x = m x"
  shows "ld32 m' a = ld32 m a"
  using PTE_ADDR_word [OF assms(1), of 1] PTE_ADDR_word [OF assms(1), of 2]
    PTE_ADDR_word [OF assms(1), of 3]
  by (simp add: ld32_def assms(2))

lemma st32_other_page:
  assumes "w_aligned a" and "PTE_ADDR x \<noteq> PTE_ADDR a"
  shows "st32 m a v x = m x"
  using PTE_ADDR_word [OF assms(1), of 1] PTE_ADDR_word [OF assms(1), of 2]
    PTE_ADDR_word [OF assms(1), of 3] assms(2)
  by (auto simp: st32_def)

lemma memset_page: "pg_aligned p \<Longrightarrow> memset m p c 4096 = (\<lambda>a. if PTE_ADDR a = p then ucast c else m a)"
  by (simp add: memset_eq in_page_iff)

section \<open>The free list\<close>

text \<open>The chain of \<open>next\<close> pointers from \<open>p\<close> runs through the pages \<open>xs\<close>.\<close>

fun flist :: "memory \<Rightarrow> u32 \<Rightarrow> u32 list \<Rightarrow> bool" where
  "flist m p [] \<longleftrightarrow> p = 0"
| "flist m p (x # xs) \<longleftrightarrow> p = x \<and> flist m (ld32 m x) xs"

definition free_ok :: "u32 \<Rightarrow> kstate \<Rightarrow> u32 list \<Rightarrow> bool" where
  "free_ok kend s xs \<longleftrightarrow> flist (ram s) (freelist s) xs \<and> distinct xs \<and>
     (\<forall>x \<in> set xs. kpage kend x) \<and> num_free_pages s = of_nat (length xs)"

lemma flist_cong: "(\<And>x. x \<in> set xs \<Longrightarrow> ld32 m' x = ld32 m x) \<Longrightarrow> flist m' p xs = flist m p xs"
  by (induction xs arbitrary: p) auto

text \<open>Only the pages of the free list itself matter.\<close>

lemma free_ok_frame:
  assumes "free_ok kend s xs" and "freelist s' = freelist s" and "num_free_pages s' = num_free_pages s"
    and "\<And>a. PTE_ADDR a \<in> set xs \<Longrightarrow> ram s' a = ram s a"
  shows "free_ok kend s' xs"
proof -
  have "ld32 (ram s') x = ld32 (ram s) x" if "x \<in> set xs" for x
  proof -
    have "kpage kend x" using assms(1) that by (simp add: free_ok_def)
    then show ?thesis using assms(4) that
      by (intro ld32_cong) (simp_all add: PTE_ADDR_of_aligned)
  qed
  then have "flist (ram s') p xs = flist (ram s) p xs" for p by (rule flist_cong)
  with assms(1-3) show ?thesis by (simp add: free_ok_def)
qed

lemma kfree_ok:
  assumes ok: "free_ok kend s xs" and v: "kpage kend v" "v \<notin> set xs"
  shows "\<exists>s'. kfree kend v s = Inr s' \<and> free_ok kend s' (v # xs) \<and>
    s' = s\<lparr>ram := ram s', freelist := v, num_free_pages := num_free_pages s + 1\<rparr> \<and>
    (\<forall>a. PTE_ADDR a \<noteq> v \<longrightarrow> ram s' a = ram s a)"
proof -
  let ?m = "st32 (memset (ram s) v 1 4096) v (freelist s)"
  let ?s = "s\<lparr>ram := ?m, freelist := v, num_free_pages := num_free_pages s + 1\<rparr>"
  have r: "kfree kend v s = Inr ?s"
    using v(1) by (simp add: kfree_def Let_def kpage_def pg_aligned_mod not_less not_le)
  have frame: "?m a = ram s a" if "PTE_ADDR a \<noteq> v" for a
    using that v(1) st32_other_page [of v a] by (simp add: memset_page PTE_ADDR_of_aligned)
  have "flist ?m (freelist s) xs = flist (ram s) (freelist s) xs"
  proof (rule flist_cong)
    fix x
    assume x: "x \<in> set xs"
    with ok have "kpage kend x" by (simp add: free_ok_def)
    with x v(2) show "ld32 ?m x = ld32 (ram s) x"
      by (intro ld32_cong) (auto simp: PTE_ADDR_of_aligned intro!: frame)
  qed
  then have "free_ok kend ?s (v # xs)" using ok v by (simp add: free_ok_def)
  with r frame show ?thesis by (intro exI [of _ ?s]) simp
qed

lemma kfree_bad: "\<not> kpage kend v \<Longrightarrow> kfree kend v s = Inl (Panic ''kfree'')"
  by (auto simp: kfree_def kpage_def pg_aligned_mod not_less not_le)

lemma kfree_freelist: "kfree kend v s = Inr s' \<Longrightarrow> freelist s' \<noteq> 0"
  by (auto simp: kfree_def Let_def V2P_def split: if_splits)

lemma take_free_ok:
  assumes "free_ok kend s (x # xs)"
  shows "\<exists>s'. take_free s = (x, s') \<and> free_ok kend s' xs \<and>
    s' = s\<lparr>freelist := freelist s', num_free_pages := num_free_pages s - 1, global_var := global_var s + 1\<rparr>"
proof -
  have x: "x = freelist s" "x \<noteq> 0" using assms kpage_nonzero [of kend x] by (auto simp: free_ok_def)
  with assms show ?thesis by (auto simp: take_free_def Let_def free_ok_def)
qed

lemma take_free_empty:
  "free_ok kend s [] \<Longrightarrow> take_free s = (0, s\<lparr>global_var := global_var s + 1\<rparr>)"
  by (simp add: take_free_def free_ok_def)

text \<open>Freeing a list of fresh pages pushes them one by one.\<close>

lemma kfree_list_ok:
  "free_ok kend s xs \<Longrightarrow> distinct ps \<Longrightarrow> \<forall>p \<in> set ps. kpage kend p \<and> p \<notin> set xs \<Longrightarrow>
   \<exists>s'. kfree_list kend ps s = Inr s' \<and> free_ok kend s' (rev ps @ xs)"
proof (induction ps arbitrary: s xs)
  case Nil
  then show ?case by simp
next
  case (Cons p ps)
  then obtain s1 where s1: "kfree kend p s = Inr s1" "free_ok kend s1 (p # xs)"
    using kfree_ok [of kend s xs p] by auto
  from Cons.IH [OF s1(2)] Cons.prems s1(1) show ?case by auto
qed

lemma aligned_cases:
  assumes "pg_aligned p" "pg_aligned x" "unat p \<le> unat x"
  shows "unat x = unat p \<or> unat p + 4096 \<le> unat x"
proof -
  from assms(1,2) obtain q r where "unat p = 4096 * q" "unat x = 4096 * r"
    by (auto simp: pg_aligned_unat elim!: dvdE simp flip: dvd_eq_mod_eq_0)
  with assms(3) show ?thesis by (cases "q = r") simp_all
qed

lemma freerange_addrs_props:
  "pg_aligned p \<Longrightarrow> x \<in> set (freerange_addrs p e) \<longleftrightarrow>
     pg_aligned x \<and> unat p \<le> unat x \<and> unat x + 4096 \<le> unat e"
proof (induction p e rule: freerange_addrs.induct)
  case (1 p e)
  show ?case
  proof (cases "unat p + 4096 \<le> unat e")
    case True
    then have u: "unat (p + 4096) = unat p + 4096" using u32_less [of e] by (simp add: unat_word_ariths)
    then have al: "pg_aligned (p + 4096)" using 1(2) by (simp add: pg_aligned_unat)
    have "unat x = unat p \<or> unat p + 4096 \<le> unat x" if "pg_aligned x" "unat p \<le> unat x"
      using aligned_cases [OF 1(2) that] .
    moreover have "unat x = unat p \<longleftrightarrow> x = p" by (simp add: word_unat_eq_iff)
    ultimately show ?thesis using 1(1) True al u 1(2)
      by (subst freerange_addrs.simps) auto
  next
    case False
    then show ?thesis by (subst freerange_addrs.simps) auto
  qed
qed

lemma freerange_addrs_distinct: "pg_aligned p \<Longrightarrow> distinct (freerange_addrs p e)"
proof (induction p e rule: freerange_addrs.induct)
  case (1 p e)
  show ?case
  proof (cases "unat p + 4096 \<le> unat e")
    case True
    then have u: "unat (p + 4096) = unat p + 4096" using u32_less [of e] by (simp add: unat_word_ariths)
    then have al: "pg_aligned (p + 4096)" using 1(2) by (simp add: pg_aligned_unat)
    then show ?thesis using 1(1) True freerange_addrs_props [OF al, of p e] u
      by (subst freerange_addrs.simps) simp
  qed (subst freerange_addrs.simps, simp)
qed

lemma PGROUNDUP_aligned [simp]: "pg_aligned (PGROUNDUP a)"
  using PTE_ADDR_aligned [of "a + 4096 - 1"] by (simp add: PGROUNDUP_def PTE_ADDR_def)

text \<open>The initial free list holds exactly the whole pages of the range.\<close>

lemma freerange_ok:
  assumes "free_ok kend s xs" and "kend \<le> PGROUNDUP vstart" and "vend \<le> P2V PHYSTOP"
    and "\<And>x. x \<in> set xs \<Longrightarrow> x < PGROUNDUP vstart \<or> vend \<le> x"
    and "KERNBASE \<le> PGROUNDUP vstart"
  shows "\<exists>s' ps. freerange kend vstart vend s = Inr s' \<and> free_ok kend s' (ps @ xs) \<and>
    set ps = {x. pg_aligned x \<and> PGROUNDUP vstart \<le> x \<and> unat x + 4096 \<le> unat vend}"
proof -
  let ?ps = "freerange_addrs (PGROUNDUP vstart) vend"
  have mem: "x \<in> set ?ps \<longleftrightarrow> pg_aligned x \<and> PGROUNDUP vstart \<le> x \<and> unat x + 4096 \<le> unat vend" for x
    by (simp add: freerange_addrs_props word_le_nat_alt)
  have kp: "kpage kend x \<and> x \<notin> set xs" if "x \<in> set ?ps" for x
  proof -
    from that have x: "pg_aligned x" "PGROUNDUP vstart \<le> x" "unat x + 4096 \<le> unat vend" by (simp_all add: mem)
    have "2147483648 \<le> unat x" using assms(5) x(2) by (simp add: word_le_nat_alt)
    moreover have "unat vend \<le> 2151677952" using assms(3) by (simp add: word_le_nat_alt P2V_def)
    ultimately have "V2P x < PHYSTOP" using x(3)
      by (simp add: V2P_def word_less_nat_alt unat_sub_cases)
    moreover have "x \<notin> set xs" using assms(4) x by (force simp: word_less_nat_alt word_le_nat_alt)
    ultimately show ?thesis using x assms(2) by (simp add: kpage_def)
  qed
  then obtain s' where "kfree_list kend ?ps s = Inr s'" "free_ok kend s' (rev ?ps @ xs)"
    using kfree_list_ok [OF assms(1), of ?ps] by (auto simp: freerange_addrs_distinct)
  moreover have "set (rev ?ps) = {x. pg_aligned x \<and> PGROUNDUP vstart \<le> x \<and> unat x + 4096 \<le> unat vend}"
    using mem by auto
  ultimately show ?thesis unfolding freerange_def by blast
qed

section \<open>Properties\<close>

text \<open>C23. \<open>freerange\<close> puts exactly the whole pages of the range on the free list, on top of the
  pages that were free before, and counts them; it does not fail for a range of allocatable
  memory.\<close>

theorem freerange_frees_range:
  assumes "free_ok kend s xs" and "kend \<le> PGROUNDUP vstart" and "KERNBASE \<le> PGROUNDUP vstart"
    and "vend \<le> P2V PHYSTOP" and "\<forall>x \<in> set xs. x < PGROUNDUP vstart \<or> vend \<le> x"
  shows "\<exists>s' ps. freerange kend vstart vend s = Inr s' \<and> free_ok kend s' (ps @ xs) \<and>
    set ps = {x. pg_aligned x \<and> PGROUNDUP vstart \<le> x \<and> unat x + 4096 \<le> unat vend}"
  using freerange_ok [OF assms(1,2,4)] assms(3,5) by blast

text \<open>The state of the kernel's data segment before \<open>main\<close>: all zero.\<close>

definition proc0 :: proc where
  "proc0 = \<lparr>p_sz = 0, p_rss = 0, p_pgdir = 0, p_kstack = 0, p_state = UNUSED, p_pid = 0, p_parent = None,
     p_tf = 0, p_context = 0, p_chan = None, p_killed = False, p_ofile = replicate NOFILE None, p_cwd = None,
     p_name = []\<rparr>"

definition kboot :: kstate where
  "kboot = \<lparr>ram = (\<lambda>_. 0), freelist = 0, num_free_pages = 0, use_lock = False, global_var = 0,
     rmap = rmap_empty, swaparray = (\<lambda>_. \<lparr>start = 0, page_perm = 0, is_free = False,
       sl_pte = replicate NPROC 0, sl_proc = replicate NPROC 0, cnt = 0\<rparr>),
     proctab = (\<lambda>_. proc0), curproc = None, initproc = None, nextpid = 1, bcache = bio_boot,
     cr3 = 0, ts_esp0 = 0\<rparr>"

lemma kboot_free: "free_ok kend kboot []"
  by (simp add: free_ok_def kboot_def)

theorem freerange_frees_range_witness:
  "\<exists>s' ps. freerange 0x80120000 0x80120000 0x80400000 kboot = Inr s' \<and> free_ok 0x80120000 s' (ps @ []) \<and>
    set ps = {x. pg_aligned x \<and> PGROUNDUP 0x80120000 \<le> x \<and> unat x + 4096 \<le> unat (0x80400000 :: u32)}"
  by (rule freerange_frees_range [OF kboot_free]) (simp_all add: PGROUNDUP_def P2V_def)

end
