(* ===== verification/Xv6_Pgdir.thy ===== *)
theory Xv6_Pgdir
  imports Xv6_Kstate
begin

text \<open>
  Two-level page tables in memory. \<open>walkpgdir0\<close> is the walk of \<open>proc.c\<close> and \<open>vm.c\<close>
  without allocation. A page directory \<open>d\<close> in memory \<open>m\<close> stands for the function
  \<open>pteval m d\<close> from virtual addresses to page table entries; a missing page table counts
  as a table of zeros. \<open>pgdir_ok\<close> says that the directory and its tables are distinct pages
  of allocatable memory. The lemmas say how a store to an entry and a write elsewhere
  change the function.
\<close>

section \<open>The walk\<close>

definition walkpgdir0 :: "u32 \<Rightarrow> u32 \<Rightarrow> memory \<Rightarrow> u32" where
  "walkpgdir0 pgdir va m =
     (let pde = ld32 m (pgdir + 4 * PDX va) in
      if pde AND PTE_P \<noteq> 0 then P2V (PTE_ADDR pde) + 4 * PTX va else 0)"

section \<open>Directories and tables\<close>

definition pde_on :: "memory \<Rightarrow> u32 \<Rightarrow> u32 \<Rightarrow> bool" where
  "pde_on m d i \<longleftrightarrow> ld32 m (d + 4 * i) AND PTE_P \<noteq> 0"

definition ptab :: "memory \<Rightarrow> u32 \<Rightarrow> u32 \<Rightarrow> u32" where
  "ptab m d i = P2V (PTE_ADDR (ld32 m (d + 4 * i)))"

definition tpages :: "memory \<Rightarrow> u32 \<Rightarrow> u32 set" where
  "tpages m d = insert d (ptab m d ` {i. i < 1024 \<and> pde_on m d i})"

definition pgdir_ok :: "u32 \<Rightarrow> memory \<Rightarrow> u32 \<Rightarrow> bool" where
  "pgdir_ok kend m d \<longleftrightarrow> kpage kend d \<and>
     (\<forall>i < 1024. pde_on m d i \<longrightarrow> kpage kend (ptab m d i) \<and> ptab m d i \<noteq> d) \<and>
     (\<forall>i < 1024. \<forall>j < 1024. pde_on m d i \<longrightarrow> pde_on m d j \<longrightarrow> ptab m d i = ptab m d j \<longrightarrow> i = j)"

definition pteval :: "memory \<Rightarrow> u32 \<Rightarrow> u32 \<Rightarrow> u32" where
  "pteval m d va = (if pde_on m d (PDX va) then ld32 m (ptab m d (PDX va) + 4 * PTX va) else 0)"

lemma walkpgdir0_eq:
  "walkpgdir0 d va m = (if pde_on m d (PDX va) then ptab m d (PDX va) + 4 * PTX va else 0)"
  by (simp add: walkpgdir0_def pde_on_def ptab_def)

lemma pgdir_okD:
  assumes "pgdir_ok kend m d"
  shows "kpage kend d"
    and "i < 1024 \<Longrightarrow> pde_on m d i \<Longrightarrow> kpage kend (ptab m d i)"
    and "i < 1024 \<Longrightarrow> pde_on m d i \<Longrightarrow> ptab m d i \<noteq> d"
    and "i < 1024 \<Longrightarrow> j < 1024 \<Longrightarrow> pde_on m d i \<Longrightarrow> pde_on m d j \<Longrightarrow> ptab m d i = ptab m d j \<Longrightarrow> i = j"
  using assms by (simp_all add: pgdir_ok_def)

lemma PDX_less [simp]: "PDX va < 1024"
  using u32_less [of va] by (simp add: word_less_nat_alt unat_PDX)

lemma PTX_less [simp]: "PTX va < 1024"
  by (simp add: word_less_nat_alt unat_PTX)

text \<open>Entry \<open>i\<close> of a table is a word of its page, and different entries are different words.\<close>

lemma entry_unat:
  assumes "pg_aligned p" and "i < 1024"
  shows "unat (p + 4 * i) = unat p + 4 * unat i"
proof -
  have i: "unat i < 1024" using assms(2) by (simp add: word_less_nat_alt)
  then have "unat (4 * i) = 4 * unat i" by (simp add: unat_word_ariths)
  then show ?thesis using unat_aligned_add [OF assms(1), of "4 * i"] i
    by (simp add: word_less_nat_alt)
qed

lemma entry_props [simp]:
  assumes "pg_aligned p" and "i < 1024"
  shows "w_aligned (p + 4 * i)" and "PTE_ADDR (p + 4 * i) = p"
proof -
  have i: "unat i < 1024" using assms(2) by (simp add: word_less_nat_alt)
  then have "unat (4 * i) = 4 * unat i" by (simp add: unat_word_ariths)
  then show "PTE_ADDR (p + 4 * i) = p"
    using PTE_ADDR_add [OF assms(1), of "4 * i"] i by (simp add: word_less_nat_alt)
  have "unat p mod 4 = 0" using pg_aligned_w [OF assms(1)] by (simp add: w_aligned_unat)
  then show "w_aligned (p + 4 * i)" by (simp add: w_aligned_unat entry_unat [OF assms] mod_add_eq)
qed

lemma entry_inj:
  assumes "pg_aligned p" "pg_aligned q" "i < 1024" "j < 1024"
  shows "p + 4 * i = q + 4 * j \<longleftrightarrow> p = q \<and> i = j"
proof
  assume e: "p + 4 * i = q + 4 * j"
  then have "p = q" using entry_props(2) [OF assms(1,3)] entry_props(2) [OF assms(2,4)] by simp
  moreover have "unat i = unat j"
    using arg_cong [OF e, of unat] assms \<open>p = q\<close> by (simp add: entry_unat)
  ultimately show "p = q \<and> i = j" by (simp add: word_unat_eq_iff)
qed simp

lemma same_page_iff: "PTE_ADDR x = PTE_ADDR y \<longleftrightarrow> PDX x = PDX y \<and> PTX x = PTX y"
proof -
  have "a div 4096 = b div 4096 \<longleftrightarrow> a div 4194304 = b div 4194304 \<and> a div 4096 mod 1024 = b div 4096 mod 1024"
    for a b :: nat
  proof -
    have "a div 4194304 = a div 4096 div 1024" "b div 4194304 = b div 4096 div 1024"
      by (simp_all flip: div_mult2_eq)
    then show ?thesis by (metis div_mult_mod_eq)
  qed
  then show ?thesis by (simp add: word_unat_eq_iff unat_PTE_ADDR unat_PDX unat_PTX)
qed

lemma PDX_PTE_ADDR [simp]: "PDX (PTE_ADDR x) = PDX x" and PTX_PTE_ADDR [simp]: "PTX (PTE_ADDR x) = PTX x"
  using same_page_iff [of "PTE_ADDR x" x] by simp_all

lemma pteval_page [simp]: "pteval m d (PTE_ADDR va) = pteval m d va"
  by (simp add: pteval_def)

text \<open>The address of the entry for \<open>va\<close>, and its place.\<close>

lemma walk_props:
  assumes "pgdir_ok kend m d" and "pde_on m d (PDX va)"
  shows "walkpgdir0 d va m = ptab m d (PDX va) + 4 * PTX va"
    and "w_aligned (walkpgdir0 d va m)"
    and "PTE_ADDR (walkpgdir0 d va m) = ptab m d (PDX va)"
    and "walkpgdir0 d va m \<noteq> 0"
    and "ld32 m (walkpgdir0 d va m) = pteval m d va"
proof -
  have k: "kpage kend (ptab m d (PDX va))" using pgdir_okD(2) [OF assms(1) _ assms(2)] by simp
  show w: "walkpgdir0 d va m = ptab m d (PDX va) + 4 * PTX va" using assms(2) by (simp add: walkpgdir0_eq)
  show "w_aligned (walkpgdir0 d va m)" unfolding w using k by simp
  show p: "PTE_ADDR (walkpgdir0 d va m) = ptab m d (PDX va)" unfolding w using k by simp
  show "walkpgdir0 d va m \<noteq> 0" using p kpage_nonzero [OF k] by (auto simp: PTE_ADDR_def)
  show "ld32 m (walkpgdir0 d va m) = pteval m d va" unfolding w using assms(2) by (simp add: pteval_def)
qed

lemma walk_0_iff: "pgdir_ok kend m d \<Longrightarrow> walkpgdir0 d va m = 0 \<longleftrightarrow> \<not> pde_on m d (PDX va)"
  using walk_props(4) [of kend m d va] by (auto simp: walkpgdir0_eq)

lemma walk_inj:
  assumes "pgdir_ok kend m d" "pde_on m d (PDX va)" "pde_on m d (PDX vb)"
  shows "walkpgdir0 d va m = walkpgdir0 d vb m \<longleftrightarrow> PTE_ADDR va = PTE_ADDR vb"
proof -
  have k: "kpage kend (ptab m d (PDX va))" "kpage kend (ptab m d (PDX vb))"
    using pgdir_okD(2) [OF assms(1)] assms(2,3) by simp_all
  have "ptab m d (PDX va) = ptab m d (PDX vb) \<longleftrightarrow> PDX va = PDX vb"
    using pgdir_okD(4) [OF assms(1), of "PDX va" "PDX vb"] assms(2,3) by auto
  then show ?thesis
    unfolding walk_props(1) [OF assms(1,2)] walk_props(1) [OF assms(1,3)] same_page_iff
    using entry_inj [of "ptab m d (PDX va)" "ptab m d (PDX vb)" "PTX va" "PTX vb"] k by simp
qed

lemma pg_aligned_V2P [simp]: "pg_aligned (V2P a) = pg_aligned a"
proof -
  have *: "pg_aligned (a - 0x80000000)" if "pg_aligned a" for a
    using that u32_less [of a] by (auto simp: pg_aligned_unat unat_sub_cases)
  have "(4294967296 :: u32) = 0" by (rule word_unat_eq_iff [THEN iffD2]) (simp add: unsigned_of_nat)
  then have "a - 0x80000000 - 0x80000000 = a" by simp
  with * [of "a - 0x80000000"] have "pg_aligned (a - 0x80000000) \<Longrightarrow> pg_aligned a" by simp
  with * [of a] show ?thesis by (auto simp: V2P_def)
qed

section \<open>Frame\<close>

text \<open>A page directory depends only on its own pages.\<close>

lemma pgdir_frame:
  assumes "pgdir_ok kend m d" and eq: "\<And>a. PTE_ADDR a \<in> tpages m d \<Longrightarrow> m' a = m a"
  shows "pgdir_ok kend m' d" and "tpages m' d = tpages m d" and "pteval m' d = pteval m d"
    and "walkpgdir0 d va m' = walkpgdir0 d va m" and "i < 1024 \<Longrightarrow> pde_on m' d i = pde_on m d i"
proof -
  have k: "kpage kend d" by (rule pgdir_okD(1) [OF assms(1)])
  have ld: "ld32 m' (d + 4 * i) = ld32 m (d + 4 * i)" if "i < 1024" for i
    using that k by (intro ld32_cong) (auto simp: tpages_def intro!: eq)
  then have on: "pde_on m' d i = pde_on m d i" and pt: "ptab m' d i = ptab m d i" if "i < 1024" for i
    using that by (simp_all add: pde_on_def ptab_def)
  show "i < 1024 \<Longrightarrow> pde_on m' d i = pde_on m d i" by (rule on)
  show "pgdir_ok kend m' d" using assms(1) on pt by (auto simp: pgdir_ok_def)
  show "tpages m' d = tpages m d" using on pt by (auto simp: tpages_def)
  show "walkpgdir0 d va m' = walkpgdir0 d va m" by (simp add: walkpgdir0_eq on pt)
  have "ld32 m' (ptab m d (PDX va) + 4 * PTX va) = ld32 m (ptab m d (PDX va) + 4 * PTX va)"
    if "pde_on m d (PDX va)" for va
  proof (rule ld32_cong)
    have kt: "kpage kend (ptab m d (PDX va))" using pgdir_okD(2) [OF assms(1) _ that] by simp
    then show "w_aligned (ptab m d (PDX va) + 4 * PTX va)" by simp
    fix x
    assume "PTE_ADDR x = PTE_ADDR (ptab m d (PDX va) + 4 * PTX va)"
    then have "PTE_ADDR x \<in> tpages m d" using kt that by (auto simp: tpages_def)
    then show "m' x = m x" by (rule eq)
  qed
  then show "pteval m' d = pteval m d" by (auto simp: pteval_def on pt)
qed

section \<open>Stores to entries\<close>

text \<open>Storing to the entry of \<open>va\<close> changes the function at the page of \<open>va\<close> only.\<close>

lemma pgdir_store:
  fixes v :: u32
  assumes ok: "pgdir_ok kend m d" and on: "pde_on m d (PDX va)"
  defines "m' \<equiv> st32 m (walkpgdir0 d va m) v"
  shows "pgdir_ok kend m' d" and "tpages m' d = tpages m d"
    and "pteval m' d = (\<lambda>x. if PTE_ADDR x = PTE_ADDR va then v else pteval m d x)"
    and "walkpgdir0 d vb m' = walkpgdir0 d vb m" and "i < 1024 \<Longrightarrow> pde_on m' d i = pde_on m d i"
    and "PTE_ADDR a \<noteq> ptab m d (PDX va) \<Longrightarrow> m' a = m a"
proof -
  note W = walk_props [OF ok on]
  have k: "kpage kend d" "kpage kend (ptab m d (PDX va))" "ptab m d (PDX va) \<noteq> d"
    using pgdir_okD(1-3) [OF ok] on by simp_all
  show other: "m' a = m a" if "PTE_ADDR a \<noteq> ptab m d (PDX va)" for a
    unfolding m'_def using that W(2,3) by (intro st32_other_page) simp_all
  have ld: "ld32 m' (d + 4 * i) = ld32 m (d + 4 * i)" if "i < 1024" for i
    using that k by (intro ld32_cong) (auto intro!: other)
  then have on': "pde_on m' d i = pde_on m d i" and pt: "ptab m' d i = ptab m d i" if "i < 1024" for i
    using that by (simp_all add: pde_on_def ptab_def)
  show "i < 1024 \<Longrightarrow> pde_on m' d i = pde_on m d i" by (rule on')
  show "pgdir_ok kend m' d" using ok on' pt by (auto simp: pgdir_ok_def)
  show "tpages m' d = tpages m d" using on' pt by (auto simp: tpages_def)
  show "walkpgdir0 d vb m' = walkpgdir0 d vb m" for vb by (simp add: walkpgdir0_eq on' pt)
  show "pteval m' d = (\<lambda>x. if PTE_ADDR x = PTE_ADDR va then v else pteval m d x)"
  proof
    fix x
    show "pteval m' d x = (if PTE_ADDR x = PTE_ADDR va then v else pteval m d x)"
    proof (cases "pde_on m d (PDX x)")
      case True
      have "pteval m' d x = ld32 m' (walkpgdir0 d x m)"
        using True by (simp add: pteval_def on' pt walkpgdir0_eq)
      also have "\<dots> = (if walkpgdir0 d va m = walkpgdir0 d x m then v else ld32 m (walkpgdir0 d x m))"
        unfolding m'_def using W(2) walk_props(2) [OF ok True] by (rule ld32_st32)
      finally show ?thesis
        using walk_inj [OF ok on True] walk_props(5) [OF ok True] by (auto simp: eq_commute)
    next
      case False
      then have "PTE_ADDR x \<noteq> PTE_ADDR va" using on by (auto simp: same_page_iff)
      then show ?thesis using False by (simp add: pteval_def on')
    qed
  qed
qed

text \<open>The entry lies in a page of the directory.\<close>

lemma ptab_tpages: "pde_on m d (PDX va) \<Longrightarrow> ptab m d (PDX va) \<in> tpages m d"
  by (simp add: tpages_def)

lemma tpages_kpage: "pgdir_ok kend m d \<Longrightarrow> p \<in> tpages m d \<Longrightarrow> kpage kend p"
  by (auto simp: tpages_def pgdir_okD)

lemma tpages_self [simp]: "d \<in> tpages m d"
  by (simp add: tpages_def)

section \<open>Adding a table\<close>

lemma pgdir_new_table:
  assumes ok: "pgdir_ok kend m d" and off: "\<not> pde_on m d (PDX va)"
    and t: "kpage kend t" "t \<notin> tpages m d"
  defines "m' \<equiv> st32 (memset m t 0 4096) (d + 4 * PDX va) (V2P t OR PTE_P OR PTE_W OR PTE_U)"
  shows "pgdir_ok kend m' d" and "tpages m' d = insert t (tpages m d)"
    and "pteval m' d = pteval m d" and "pde_on m' d (PDX va)"
    and "i < 1024 \<Longrightarrow> i \<noteq> PDX va \<Longrightarrow> pde_on m' d i = pde_on m d i"
    and "walkpgdir0 d va m' = t + 4 * PTX va"
    and "PTE_ADDR a \<noteq> t \<Longrightarrow> PTE_ADDR a \<noteq> d \<Longrightarrow> m' a = m a"
    and "pde_on m d (PDX vb) \<Longrightarrow> walkpgdir0 d vb m' = walkpgdir0 d vb m"
proof -
  let ?v = "V2P t OR PTE_P OR PTE_W OR PTE_U"
  have kd: "kpage kend d" and td: "t \<noteq> d" using pgdir_okD(1) [OF ok] t(2) by auto
  have addr: "P2V (PTE_ADDR ?v) = t"
  proof -
    have "PTE_ADDR (V2P t) = V2P t" using t(1) by (simp add: PTE_ADDR_of_aligned)
    then have "PTE_ADDR ?v = V2P t" by (simp add: PTE_ADDR_or) (simp add: PTE_ADDR_def)
    then show ?thesis by simp
  qed
  have von: "?v AND PTE_P \<noteq> 0"
  proof -
    have "bit ?v 0" by (simp add: bit_simps)
    then show ?thesis using and_exp_eq [of ?v 0] by simp
  qed
  show other: "m' a = m a" if "PTE_ADDR a \<noteq> t" "PTE_ADDR a \<noteq> d" for a
  proof -
    have "m' a = memset m t 0 4096 a"
      unfolding m'_def using that kd by (intro st32_other_page) simp_all
    then show ?thesis using that t(1) by (simp add: memset_page)
  qed
  have ld: "ld32 m' (d + 4 * i) = (if i = PDX va then ?v else ld32 m (d + 4 * i))" if "i < 1024" for i
  proof -
    have "ld32 (memset m t 0 4096) (d + 4 * i) = ld32 m (d + 4 * i)"
      using that kd td t(1) by (intro ld32_cong) (auto simp: memset_page)
    moreover have "d + 4 * PDX va = d + 4 * i \<longleftrightarrow> PDX va = i"
      using entry_inj [of d d "PDX va" i] kd that by simp
    ultimately show ?thesis unfolding m'_def using that kd by (simp add: ld32_st32)
  qed
  then have on: "pde_on m' d i \<longleftrightarrow> i = PDX va \<or> pde_on m d i"
    and pt: "ptab m' d i = (if i = PDX va then t else ptab m d i)" if "i < 1024" for i
    using that von addr by (auto simp: pde_on_def ptab_def)
  show "pde_on m' d (PDX va)" by (simp add: on)
  show "pde_on m' d i = pde_on m d i" if "i < 1024" "i \<noteq> PDX va" using that by (simp add: on)
  show "walkpgdir0 d va m' = t + 4 * PTX va" by (simp add: walkpgdir0_eq on pt)
  show "walkpgdir0 d vb m' = walkpgdir0 d vb m" if "pde_on m d (PDX vb)"
  proof -
    have "PDX vb \<noteq> PDX va" using that off by metis
    then show ?thesis using that by (simp add: walkpgdir0_eq on pt)
  qed
  show "tpages m' d = insert t (tpages m d)" using off on pt by (auto simp: tpages_def)
  have tn: "ptab m d i \<noteq> t" if "i < 1024" "pde_on m d i" for i using t(2) that by (auto simp: tpages_def)
  then show "pgdir_ok kend m' d"
    using ok t(1) td on pt off unfolding pgdir_ok_def by (auto split: if_splits)
  show "pteval m' d = pteval m d"
  proof
    fix x
    show "pteval m' d x = pteval m d x"
    proof (cases "PDX x = PDX va")
      case True
      then have "pteval m' d x = ld32 m' (t + 4 * PTX x)" by (simp add: pteval_def on pt)
      also have "\<dots> = ld32 (memset m t 0 4096) (t + 4 * PTX x)"
        unfolding m'_def using kd t(1) td by (intro ld32_cong st32_other_page) auto
      also have "\<dots> = ld32 (\<lambda>_. 0) (t + 4 * PTX x)"
        using t(1) by (intro ld32_cong) (auto simp: memset_page)
      also have "\<dots> = 0" by (simp add: ld32_def)
      finally show ?thesis using True off by (simp add: pteval_def)
    next
      case False
      show ?thesis
      proof (cases "pde_on m d (PDX x)")
        case True
        have k: "kpage kend (ptab m d (PDX x))" "ptab m d (PDX x) \<noteq> d"
          using pgdir_okD(2,3) [OF ok _ True] by simp_all
        have "ld32 m' (ptab m d (PDX x) + 4 * PTX x) = ld32 m (ptab m d (PDX x) + 4 * PTX x)"
          using k tn [OF _ True] by (intro ld32_cong other) auto
        then show ?thesis using True False by (simp add: pteval_def on pt)
      qed (simp add: pteval_def on False)
    qed
  qed
qed

text \<open>A zeroed page is an empty directory.\<close>

lemma pgdir_empty:
  fixes m :: memory
  assumes "kpage kend d"
  defines "m' \<equiv> memset m d 0 4096"
  shows "pgdir_ok kend m' d" and "tpages m' d = {d}" and "pteval m' d = (\<lambda>_. 0)"
proof -
  have "ld32 m' (d + 4 * i) = 0" if "i < 1024" for i
  proof -
    have "ld32 m' (d + 4 * i) = ld32 (\<lambda>_. 0) (d + 4 * i)"
      unfolding m'_def using that assms(1) by (intro ld32_cong) (auto simp: memset_page)
    then show ?thesis by (simp add: ld32_def)
  qed
  then have "\<not> pde_on m' d i" if "i < 1024" for i using that by (simp add: pde_on_def)
  then show "pgdir_ok kend m' d" "tpages m' d = {d}" "pteval m' d = (\<lambda>_. 0)"
    using assms(1) by (auto simp: pgdir_ok_def tpages_def pteval_def)
qed

end
