(* ===== verification/Xv6_Swap.thy ===== *)
theory Xv6_Swap
  imports Xv6_Pgdir
begin

text \<open>
  Page replacement (\<open>proc.c\<close>) and the page allocator on top of it (\<open>kalloc.c\<close>): choosing
  the victim process and the victim page, writing it to a swap slot, and \<open>kalloc\<close>, which
  swaps a page out when the free list is empty. Reading a page table walks the memory
  image; each loop over a process's pages is a recursion over \<open>pg_addrs 0 sz\<close>.
\<close>

section \<open>The reverse map of the kernel state\<close>

definition k_inc_sharing :: "u32 \<Rightarrow> u32 \<Rightarrow> kstate \<Rightarrow> kstate res" where
  "k_inc_sharing pte pgnum s = rbind (inc_sharing pte pgnum (rmap s)) (\<lambda>r. Inr (s\<lparr>rmap := r\<rparr>))"

definition k_dec_sharing :: "u32 \<Rightarrow> u32 \<Rightarrow> kstate \<Rightarrow> (bool \<times> kstate) res" where
  "k_dec_sharing pte pgnum s =
     rbind (dec_sharing pte pgnum (rmap s)) (\<lambda>(do_free, r). Inr (do_free, s\<lparr>rmap := r\<rparr>))"

section \<open>Choosing the victim\<close>

definition victim_step :: "kstate \<Rightarrow> nat \<Rightarrow> u32 \<times> nat \<times> u32 \<Rightarrow> u32 \<times> nat \<times> u32" where
  "victim_step s i = (\<lambda>(maximum, victim, id).
     let p = proctab s i in
     if maximum < p_rss p then (p_rss p, i, p_pid p)
     else if maximum = p_rss p then
       if sint (p_pid p) < sint id then (maximum, i, p_pid p) else (maximum, victim, id)
     else (maximum, victim, id))"

definition select_victim_process :: "kstate \<Rightarrow> nat res" where
  "select_victim_process s =
     rbind (myproc s) (\<lambda>i0.
     let p0 = proctab s i0 in
     Inr (fst (snd (fold (victim_step s) [0..<NPROC] (p_rss p0, i0, p_pid p0)))))"

text \<open>One process of \<open>make_acces_bit_0\<close>, then all of them.\<close>

fun clear_acces_loop :: "u32 \<Rightarrow> u32 \<Rightarrow> u32 list \<Rightarrow> kstate \<Rightarrow> kstate res" where
  "clear_acces_loop pte_orig pgdir [] s = Inr s"
| "clear_acces_loop pte_orig pgdir (i # is) s =
     (let pte = walkpgdir0 pgdir i (ram s) in
      if pte = 0 then Inl (Panic ''find_pte_swap_in: pte should exist'')
      else if ld32 (ram s) pte = ld32 (ram s) pte_orig
      then clear_acces_loop pte_orig pgdir is (poke pte (ld32 (ram s) pte AND NOT PTE_A) s)
      else clear_acces_loop pte_orig pgdir is s)"

fun make_acces_bit_0_loop :: "u32 \<Rightarrow> nat list \<Rightarrow> kstate \<Rightarrow> kstate res" where
  "make_acces_bit_0_loop pte_orig [] s = Inr s"
| "make_acces_bit_0_loop pte_orig (p # ps) s =
     rbind (clear_acces_loop pte_orig (p_pgdir (proctab s p)) (pg_addrs 0 (p_sz (proctab s p))) s)
       (make_acces_bit_0_loop pte_orig ps)"

definition make_acces_bit_0 :: "u32 \<Rightarrow> kstate \<Rightarrow> kstate res" where
  "make_acces_bit_0 pte_orig s = make_acces_bit_0_loop pte_orig [0..<NPROC] s"

text \<open>The first and third loop of \<open>select_a_victim\<close>: the first present page that was not
  accessed, or 0, with the count of the accessed ones met before.\<close>

fun scan_unaccessed :: "nat \<Rightarrow> u32 list \<Rightarrow> nat \<Rightarrow> kstate \<Rightarrow> (u32 \<times> nat) res" where
  "scan_unaccessed p [] tot s = Inr (0, tot)"
| "scan_unaccessed p (i # is) tot s =
     (let pte = walkpgdir0 (p_pgdir (proctab s p)) i (ram s) in
      rbind (deref pte s) (\<lambda>v.
      if v AND PTE_P \<noteq> 0 then
        if v AND PTE_A = 0 then
          if p_rss (proctab s p) < PGSIZE then scan_unaccessed p is tot s
          else Inr (pte, tot)
        else scan_unaccessed p is (tot + 1) s
      else scan_unaccessed p is tot s))"

text \<open>The second loop: clear the accessed bit of \<open>total\<close> pages.\<close>

fun clear_accessed :: "nat \<Rightarrow> nat \<Rightarrow> u32 list \<Rightarrow> nat \<Rightarrow> kstate \<Rightarrow> kstate res" where
  "clear_accessed p tot [] k s = Inr s"
| "clear_accessed p tot (i # is) k s =
     (let pte = walkpgdir0 (p_pgdir (proctab s p)) i (ram s) in
      rbind (deref pte s) (\<lambda>v.
      rbind (if v AND PTE_P \<noteq> 0 \<and> v AND PTE_A \<noteq> 0
             then rbind (make_acces_bit_0 pte s) (\<lambda>s. Inr (k + 1, s))
             else Inr (k, s)) (\<lambda>(k, s).
      if k \<ge> tot then Inr s else clear_accessed p tot is k s)))"

definition select_a_victim :: "kstate \<Rightarrow> (u32 \<times> kstate) res" where
  "select_a_victim s =
     rbind (select_victim_process s) (\<lambda>p.
     let is = pg_addrs 0 (p_sz (proctab s p)) in
     rbind (scan_unaccessed p is 0 s) (\<lambda>(pte, tot).
     if pte \<noteq> 0 then Inr (pte, s)
     else
       rbind (clear_accessed p ((tot + 9) div 10) is 0 s) (\<lambda>s.
       rbind (scan_unaccessed p is 0 s) (\<lambda>(pte, _).
       Inr (pte, s)))))"

section \<open>Swap slots\<close>

definition xint :: "u32 \<Rightarrow> u32" where
  "xint x = ld32 ((\<lambda>_. 0)(0 := ucast x, 1 := ucast (drop_bit 8 x),
     2 := ucast (drop_bit 16 x), 3 := ucast (drop_bit 24 x))) 0"

definition initswap :: "kstate \<Rightarrow> kstate" where
  "initswap s = s\<lparr>swaparray := (\<lambda>j. if j < NSLOTS
     then (swaparray s j)\<lparr>is_free := True, start := xint 2 + of_nat (8 * j), cnt := 0\<rparr>
     else swaparray s j)\<rparr>"

text \<open>Recording that process \<open>p\<close> maps the page of slot \<open>idx\<close> through \<open>pte\<close>.\<close>

definition slot_record :: "nat \<Rightarrow> nat \<Rightarrow> u32 \<Rightarrow> kstate \<Rightarrow> kstate res" where
  "slot_record idx p pte s =
     (let sl = swaparray s idx; c = unat (cnt sl) in
      if idx < NSLOTS \<and> c < NPROC then
        Inr (upd_slot idx (\<lambda>sl. sl\<lparr>sl_proc := (sl_proc sl)[c := p],
          sl_pte := (sl_pte sl)[c := pte], cnt := cnt sl + 1\<rparr>) s)
      else Inl (Fault ''swaparray index''))"

fun find_pte_swap_out_loop :: "nat \<Rightarrow> u32 \<Rightarrow> nat \<Rightarrow> u32 list \<Rightarrow> kstate \<Rightarrow> kstate res" where
  "find_pte_swap_out_loop p pte_orig idx [] s = Inr s"
| "find_pte_swap_out_loop p pte_orig idx (i # is) s =
     (let pte = walkpgdir0 (p_pgdir (proctab s p)) i (ram s) in
      if pte = 0 then Inl (Panic ''find_pte_swap_out: pte should exist'')
      else if ld32 (ram s) pte = ld32 (ram s) pte_orig then
        rbind (slot_record idx p pte s) (\<lambda>s.
        let s = upd_proc p (\<lambda>p. p\<lparr>p_rss := p_rss p - PGSIZE\<rparr>) s in
        rbind (k_dec_sharing pte (PTE_ADDR (ld32 (ram s) pte) div PGSIZE) s) (\<lambda>(_, s).
        Inr s))
      else find_pte_swap_out_loop p pte_orig idx is s)"

definition find_pte_swap_out :: "nat \<Rightarrow> u32 \<Rightarrow> nat \<Rightarrow> kstate \<Rightarrow> kstate res" where
  "find_pte_swap_out p pte_orig idx s =
     find_pte_swap_out_loop p pte_orig idx (pg_addrs 0 (p_sz (proctab s p))) s"

fun find_pte_swap_in_loop :: "nat \<Rightarrow> u32 \<Rightarrow> u32 \<Rightarrow> u32 list \<Rightarrow> kstate \<Rightarrow> kstate res" where
  "find_pte_swap_in_loop p pte_orig pg [] s = Inr s"
| "find_pte_swap_in_loop p pte_orig pg (i # is) s =
     (let pte = walkpgdir0 (p_pgdir (proctab s p)) i (ram s) in
      if pte = 0 then Inl (Panic ''find_pte_swap_in: pte should exist'')
      else if ld32 (ram s) pte = ld32 (ram s) pte_orig then
        k_inc_sharing pte (V2P pg div PGSIZE) (upd_proc p (\<lambda>p. p\<lparr>p_rss := p_rss p + PGSIZE\<rparr>) s)
      else find_pte_swap_in_loop p pte_orig pg is s)"

definition find_pte_swap_in :: "nat \<Rightarrow> u32 \<Rightarrow> u32 \<Rightarrow> kstate \<Rightarrow> kstate res" where
  "find_pte_swap_in p pte_orig pg s =
     find_pte_swap_in_loop p pte_orig pg (pg_addrs 0 (p_sz (proctab s p))) s"

fun make_other_pte_swapped_out_loop :: "u32 \<Rightarrow> nat \<Rightarrow> nat list \<Rightarrow> kstate \<Rightarrow> kstate res" where
  "make_other_pte_swapped_out_loop pte idx [] s = Inr s"
| "make_other_pte_swapped_out_loop pte idx (p # ps) s =
     rbind (if p_state (proctab s p) = UNUSED then Inr s else find_pte_swap_out p pte idx s)
       (make_other_pte_swapped_out_loop pte idx ps)"

definition make_other_pte_swapped_out :: "u32 \<Rightarrow> nat \<Rightarrow> kstate \<Rightarrow> kstate res" where
  "make_other_pte_swapped_out pte idx s = make_other_pte_swapped_out_loop pte idx [0..<NPROC] s"

fun make_other_pte_swapped_in_loop :: "u32 \<Rightarrow> u32 \<Rightarrow> nat list \<Rightarrow> kstate \<Rightarrow> kstate res" where
  "make_other_pte_swapped_in_loop pte pg [] s = Inr s"
| "make_other_pte_swapped_in_loop pte pg (p # ps) s =
     rbind (find_pte_swap_in p pte pg s) (make_other_pte_swapped_in_loop pte pg ps)"

definition make_other_pte_swapped_in :: "u32 \<Rightarrow> u32 \<Rightarrow> kstate \<Rightarrow> kstate res" where
  "make_other_pte_swapped_in pte pg s = make_other_pte_swapped_in_loop pte pg [0..<NPROC] s"

definition mypid :: "kstate \<Rightarrow> u32 res" where
  "mypid s = rbind (myproc s) (\<lambda>i. Inr (p_pid (proctab s i)))"

definition find_new_page_after_swapping :: "u32 \<Rightarrow> kstate \<Rightarrow> kstate res" where
  "find_new_page_after_swapping kend s =
     rbind (select_a_victim s) (\<lambda>(pte, s).
     case first_index (\<lambda>i. is_free (swaparray s i)) [0..<NSLOTS] of
       None \<Rightarrow> Inl (Panic ''No available slot'')
     | Some idx \<Rightarrow>
        if pte = 0 then Inl (Panic ''Pte is 0'')
        else
          let block_no = 2 + 8 * of_nat idx in
          rbind (mypid s) (\<lambda>me.
          rbind (write_pag_to_disk me (ram s) (P2V (PTE_ADDR (ld32 (ram s) pte))) block_no (bcache s)) (\<lambda>b.
          rbind (make_other_pte_swapped_out pte idx (s\<lparr>bcache := b\<rparr>)) (\<lambda>s.
          let s = upd_slot idx (\<lambda>sl. sl\<lparr>page_perm := PTE_FLAGS (ld32 (ram s) pte), is_free := False\<rparr>) s in
          rbind (kfree kend (P2V (PTE_ADDR (ld32 (ram s) pte))) s) (\<lambda>s.
          let s = poke pte (push_bit 12 (of_nat idx) OR PTE_S) s;
              s = poke pte (ld32 (ram s) pte AND NOT PTE_A) s
          in Inr (upd_slot idx (\<lambda>sl. sl\<lparr>sl_pte :=
               fold (\<lambda>i l. l[i := pte]) [0..<unat (cnt sl)] (sl_pte sl)\<rparr>) s))))))"

section \<open>\<open>kalloc\<close>\<close>

lemma poke_simps [simp]:
  "use_lock (poke a v s) = use_lock s" "global_var (poke a v s) = global_var s" "initproc (poke a v s) = initproc s"
  "nextpid (poke a v s) = nextpid s" "cr3 (poke a v s) = cr3 s" "ts_esp0 (poke a v s) = ts_esp0 s"
  "freelist (poke a v s) = freelist s" "num_free_pages (poke a v s) = num_free_pages s"
  "rmap (poke a v s) = rmap s" "swaparray (poke a v s) = swaparray s"
  "proctab (poke a v s) = proctab s" "curproc (poke a v s) = curproc s"
  "bcache (poke a v s) = bcache s" "ram (poke a v s) = st32 (ram s) a v"
  by (simp_all add: poke_def)

lemma upd_slot_simps [simp]:
  "use_lock (upd_slot i f s) = use_lock s" "global_var (upd_slot i f s) = global_var s" "initproc (upd_slot i f s) = initproc s"
  "nextpid (upd_slot i f s) = nextpid s" "cr3 (upd_slot i f s) = cr3 s" "ts_esp0 (upd_slot i f s) = ts_esp0 s"
  "freelist (upd_slot i f s) = freelist s" "num_free_pages (upd_slot i f s) = num_free_pages s"
  "rmap (upd_slot i f s) = rmap s" "proctab (upd_slot i f s) = proctab s"
  "curproc (upd_slot i f s) = curproc s" "bcache (upd_slot i f s) = bcache s"
  "ram (upd_slot i f s) = ram s"
  "swaparray (upd_slot i f s) = (swaparray s)(i := f (swaparray s i))"
  by (simp_all add: upd_slot_def)

lemma upd_proc_simps [simp]:
  "use_lock (upd_proc i f s) = use_lock s" "global_var (upd_proc i f s) = global_var s" "initproc (upd_proc i f s) = initproc s"
  "nextpid (upd_proc i f s) = nextpid s" "cr3 (upd_proc i f s) = cr3 s" "ts_esp0 (upd_proc i f s) = ts_esp0 s"
  "freelist (upd_proc i f s) = freelist s" "num_free_pages (upd_proc i f s) = num_free_pages s"
  "rmap (upd_proc i f s) = rmap s" "swaparray (upd_proc i f s) = swaparray s"
  "curproc (upd_proc i f s) = curproc s" "bcache (upd_proc i f s) = bcache s"
  "ram (upd_proc i f s) = ram s"
  "proctab (upd_proc i f s) = (proctab s)(i := f (proctab s i))"
  by (simp_all add: upd_proc_def)

text \<open>Whatever it swapped out, the page is on the free list afterwards: the recursion of
  \<open>kalloc\<close> ends.\<close>

lemma find_new_page_freelist: "find_new_page_after_swapping kend s = Inr s' \<Longrightarrow> freelist s' \<noteq> 0"
  by (auto simp: find_new_page_after_swapping_def Let_def split: option.splits if_splits
      dest!: kfree_freelist)

function kalloc :: "u32 \<Rightarrow> kstate \<Rightarrow> (u32 \<times> kstate) res" where
  "kalloc kend s =
     (case take_free s of (r, s) \<Rightarrow>
        if r \<noteq> 0 then Inr (r, s)
        else rbind (find_new_page_after_swapping kend s) (\<lambda>s. kalloc kend s))"
  by pat_completeness auto
termination
  by (relation "measure (\<lambda>(kend, s). if freelist s = 0 then 1 else 0)")
    (auto simp: take_free_def Let_def dest: find_new_page_freelist split: if_splits)

declare kalloc.simps [simp del]

section \<open>The victim process\<close>

definition victim_ok :: "kstate \<Rightarrow> nat set \<Rightarrow> u32 \<times> nat \<times> u32 \<Rightarrow> bool" where
  "victim_ok s I = (\<lambda>(maximum, v, id). v \<in> I \<and> p_rss (proctab s v) = maximum \<and> p_pid (proctab s v) = id \<and>
     (\<forall>i \<in> I. p_rss (proctab s i) \<le> maximum \<and>
        (p_rss (proctab s i) = maximum \<longrightarrow> sint id \<le> sint (p_pid (proctab s i)))))"

lemma victim_step_ok: "victim_ok s I t \<Longrightarrow> victim_ok s (insert i I) (victim_step s i t)"
  by (auto simp: victim_ok_def victim_step_def Let_def split: prod.splits if_splits; force)

lemma victim_fold_ok: "victim_ok s I t \<Longrightarrow> victim_ok s (set is \<union> I) (fold (victim_step s) is t)"
proof (induction "is" arbitrary: I t)
  case (Cons i "is")
  from Cons.IH [OF victim_step_ok [OF Cons.prems, of i]] show ?case by simp
qed simp

lemma select_victim_process_max:
  assumes "curproc s = Some me"
  shows "\<exists>v. select_victim_process s = Inr v \<and> v \<in> insert me {0..<NPROC} \<and>
    (\<forall>i \<in> insert me {0..<NPROC}. p_rss (proctab s i) \<le> p_rss (proctab s v) \<and>
       (p_rss (proctab s i) = p_rss (proctab s v) \<longrightarrow> sint (p_pid (proctab s v)) \<le> sint (p_pid (proctab s i))))"
proof -
  let ?p = "proctab s me"
  let ?r = "fold (victim_step s) [0..<NPROC] (p_rss ?p, me, p_pid ?p)"
  have "victim_ok s {me} (p_rss ?p, me, p_pid ?p)" by (simp add: victim_ok_def)
  from victim_fold_ok [OF this, of "[0..<NPROC]"]
  have "victim_ok s (insert me {0..<NPROC}) ?r" by simp
  moreover have "select_victim_process s = Inr (fst (snd ?r))"
    using assms by (simp add: select_victim_process_def myproc_def Let_def)
  ultimately show ?thesis by (cases ?r) (auto simp: victim_ok_def)
qed

section \<open>\<open>kalloc\<close> with free pages\<close>

lemma kalloc_ok:
  assumes "free_ok kend s (x # xs)"
  shows "\<exists>s'. kalloc kend s = Inr (x, s') \<and> free_ok kend s' xs \<and>
    s' = s\<lparr>freelist := freelist s', num_free_pages := num_free_pages s - 1, global_var := global_var s + 1\<rparr>"
proof -
  have "x \<noteq> 0" using assms kpage_nonzero [of kend x] by (auto simp: free_ok_def)
  moreover obtain s' where "take_free s = (x, s')" "free_ok kend s' xs"
    "s' = s\<lparr>freelist := freelist s', num_free_pages := num_free_pages s - 1, global_var := global_var s + 1\<rparr>"
    using take_free_ok [OF assms] by blast
  ultimately show ?thesis by (subst kalloc.simps) auto
qed

text \<open>\<open>kalloc\<close> never returns a null pointer: its callers' checks for 0 are dead code.\<close>

lemma kalloc_nonzero: "kalloc kend s = Inr (r, s') \<Longrightarrow> r \<noteq> 0"
proof (induction kend s rule: kalloc.induct)
  case (1 kend s)
  obtain r0 s0 where t: "take_free s = (r0, s0)" by (cases "take_free s")
  show ?case
  proof (cases "r0 = 0")
    case True
    with 1(2) t obtain s1 where "find_new_page_after_swapping kend s0 = Inr s1" "kalloc kend s1 = Inr (r, s')"
      by (subst (asm) kalloc.simps) auto
    with 1(1) t True show ?thesis by auto
  next
    case False
    with 1(2) t show ?thesis by (subst (asm) kalloc.simps) auto
  qed
qed

lemma kalloc_empty:
  assumes "freelist s = 0"
  shows "kalloc kend s = rbind (find_new_page_after_swapping kend (s\<lparr>global_var := global_var s + 1\<rparr>)) (\<lambda>s1.
    Inr (take_free s1))"
proof (cases "find_new_page_after_swapping kend (s\<lparr>global_var := global_var s + 1\<rparr>)")
  case (Inr s1)
  then have "freelist s1 \<noteq> 0" by (rule find_new_page_freelist)
  then have "kalloc kend s1 = Inr (take_free s1)"
    by (subst kalloc.simps) (simp add: take_free_def Let_def)
  with Inr assms show ?thesis by (subst kalloc.simps) (simp add: take_free_def)
qed (use assms in \<open>subst kalloc.simps, simp add: take_free_def\<close>)

section \<open>Properties\<close>

text \<open>C24. The victim process has the largest resident size of all processes, and among those
  with that size the smallest process id.\<close>

theorem victim_has_largest_rss:
  assumes "curproc s = Some me" and "me < NPROC"
  shows "\<exists>v < NPROC. select_victim_process s = Inr v \<and>
    (\<forall>i < NPROC. p_rss (proctab s i) \<le> p_rss (proctab s v) \<and>
       (p_rss (proctab s i) = p_rss (proctab s v) \<longrightarrow> sint (p_pid (proctab s v)) \<le> sint (p_pid (proctab s i))))"
proof -
  from select_victim_process_max [OF assms(1)] obtain v where
    v: "select_victim_process s = Inr v" "v \<in> insert me {0..<NPROC}"
    "\<forall>i \<in> insert me {0..<NPROC}. p_rss (proctab s i) \<le> p_rss (proctab s v) \<and>
       (p_rss (proctab s i) = p_rss (proctab s v) \<longrightarrow> sint (p_pid (proctab s v)) \<le> sint (p_pid (proctab s i)))"
    by blast
  with assms(2) show ?thesis by (intro exI [of _ v]) auto
qed

theorem victim_has_largest_rss_witness:
  "\<exists>v < NPROC. select_victim_process (kboot\<lparr>curproc := Some 3\<rparr>) = Inr v \<and>
    (\<forall>i < NPROC. p_rss (proctab kboot i) \<le> p_rss (proctab kboot v) \<and>
       (p_rss (proctab kboot i) = p_rss (proctab kboot v) \<longrightarrow>
          sint (p_pid (proctab kboot v)) \<le> sint (p_pid (proctab kboot i))))"
  using victim_has_largest_rss [of "kboot\<lparr>curproc := Some 3\<rparr>" 3] by (simp add: NPROC_def)

text \<open>C25. The allocator is a stack: after a page is freed, the next \<open>kalloc\<close> returns that page
  and leaves the free pages as they were before.\<close>

theorem kalloc_after_kfree:
  assumes "free_ok kend s xs" and "kpage kend v" and "v \<notin> set xs"
  shows "\<exists>s1 s2. kfree kend v s = Inr s1 \<and> kalloc kend s1 = Inr (v, s2) \<and> free_ok kend s2 xs \<and>
    num_of_FreePages s2 = num_of_FreePages s"
proof -
  from kfree_ok [OF assms] obtain s1 where s1: "kfree kend v s = Inr s1" "free_ok kend s1 (v # xs)" by blast
  from kalloc_ok [OF s1(2)] obtain s2 where "kalloc kend s1 = Inr (v, s2)" "free_ok kend s2 xs" by blast
  with s1 assms(1) show ?thesis by (simp add: num_of_FreePages_def free_ok_def)
qed

theorem kalloc_after_kfree_witness:
  "\<exists>s1 s2. kfree 0x80120000 0x80200000 kboot = Inr s1 \<and> kalloc 0x80120000 s1 = Inr (0x80200000, s2) \<and>
    free_ok 0x80120000 s2 [] \<and> num_of_FreePages s2 = num_of_FreePages kboot"
  by (rule kalloc_after_kfree [OF kboot_free]) (simp_all add: kpage_def pg_aligned_def V2P_def)

end
