(* ===== verification/Xv6_Vm.thy ===== *)
theory Xv6_Vm
  imports Xv6_Swap
begin

text \<open>
  Virtual memory (\<open>vm.c\<close>): the allocating walk, mapping, the kernel part of a page table,
  growing and shrinking a user address space, copy-on-write duplication and copying to
  user addresses. \<open>kend\<close> and \<open>kdata\<close> are the linker's symbols \<open>end\<close> and \<open>data\<close>. A C return
  value of \<open>-1\<close> is the integer \<open>-1\<close>; a null pointer is 0. The lemmas describe page tables
  by the functions \<open>pteval\<close> of \<open>Xv6_Pgdir\<close>.
\<close>

section \<open>Mapping\<close>

definition walkpgdir :: "u32 \<Rightarrow> u32 \<Rightarrow> u32 \<Rightarrow> bool \<Rightarrow> kstate \<Rightarrow> (u32 \<times> kstate) res" where
  "walkpgdir kend pgdir va alloc s =
     (let pde = pgdir + 4 * PDX va; v = ld32 (ram s) pde in
      if v AND PTE_P \<noteq> 0 then Inr (P2V (PTE_ADDR v) + 4 * PTX va, s)
      else if \<not> alloc then Inr (0, s)
      else
        rbind (kalloc kend s) (\<lambda>(pgtab, s).
        if pgtab = 0 then Inr (0, s)
        else
          let s = s\<lparr>ram := memset (ram s) pgtab 0 PGSIZE\<rparr>;
              s = poke pde (V2P pgtab OR PTE_P OR PTE_W OR PTE_U) s
          in Inr (pgtab + 4 * PTX va, s)))"

text \<open>The loop of \<open>mappages\<close>, with \<open>n\<close> the number of pages between \<open>a\<close> and \<open>last\<close>: both are
  page-aligned, so \<open>a == last\<close> exactly when it is 0.\<close>

fun mappages_loop :: "u32 \<Rightarrow> u32 \<Rightarrow> u32 \<Rightarrow> nat \<Rightarrow> u32 \<Rightarrow> u32 \<Rightarrow> kstate \<Rightarrow> (int \<times> kstate) res" where
  "mappages_loop kend pgdir perm n a pa s =
     rbind (walkpgdir kend pgdir a True s) (\<lambda>(pte, s).
     if pte = 0 then Inr (-1, s)
     else if ld32 (ram s) pte AND PTE_P \<noteq> 0 then Inl (Panic ''remap'')
     else
       let s = poke pte (pa OR perm OR PTE_P) s in
       case n of 0 \<Rightarrow> Inr (0, s)
       | Suc n \<Rightarrow> mappages_loop kend pgdir perm n (a + PGSIZE) (pa + PGSIZE) s)"

declare mappages_loop.simps [simp del]

definition mappages :: "u32 \<Rightarrow> u32 \<Rightarrow> u32 \<Rightarrow> u32 \<Rightarrow> u32 \<Rightarrow> u32 \<Rightarrow> kstate \<Rightarrow> (int \<times> kstate) res" where
  "mappages kend pgdir va sz pa perm s =
     (let a = PGROUNDDOWN va; last = PGROUNDDOWN (va + sz - 1) in
      mappages_loop kend pgdir perm (unat ((last - a) div PGSIZE)) a pa s)"

section \<open>Shrinking\<close>

text \<open>One pass of the loop of \<open>deallocuvm\<close> and \<open>deallocuvm2\<close>, which differ in the process
  whose resident size they adjust; it gives the value of \<open>a\<close> at the end of the body.\<close>

definition dealloc_page :: "u32 \<Rightarrow> u32 \<Rightarrow> (kstate \<Rightarrow> nat res) \<Rightarrow> u32 \<Rightarrow> kstate \<Rightarrow> (u32 \<times> kstate) res" where
  "dealloc_page kend pgdir who a s =
     (let pte = walkpgdir0 pgdir a (ram s) in
      if pte = 0 then Inr (PGADDR (PDX a + 1) 0 0 - PGSIZE, s)
      else if ld32 (ram s) pte AND PTE_P \<noteq> 0 then
        let pa = PTE_ADDR (ld32 (ram s) pte) in
        if pa = 0 then Inl (Panic ''kfree'')
        else
          rbind (k_dec_sharing pte (pa div PGSIZE) s) (\<lambda>(do_free, s).
          rbind (if do_free then kfree kend (P2V pa) s else Inr s) (\<lambda>s.
          rbind (who s) (\<lambda>i.
          let s = (if p_rss (proctab s i) > 0 then upd_proc i (\<lambda>p. p\<lparr>p_rss := p_rss p - PGSIZE\<rparr>) s else s) in
          Inr (a, poke pte 0 s))))
      else Inr (a, s))"

text \<open>The loop; user sizes are at most \<open>KERNBASE\<close>, where the next address is above \<open>a\<close>.\<close>

function dealloc_loop :: "u32 \<Rightarrow> u32 \<Rightarrow> (kstate \<Rightarrow> nat res) \<Rightarrow> u32 \<Rightarrow> u32 \<Rightarrow> kstate \<Rightarrow> kstate res" where
  "dealloc_loop kend pgdir who a oldsz s =
     (if a < oldsz then
        rbind (dealloc_page kend pgdir who a s) (\<lambda>(a', s).
        if a' + PGSIZE \<le> a then Inl (Fault ''address wraps'')
        else dealloc_loop kend pgdir who (a' + PGSIZE) oldsz s)
      else Inr s)"
  by pat_completeness auto
termination
  by (relation "measure (\<lambda>(_, _, _, a, oldsz, _). unat oldsz - unat a)")
    (auto simp: word_less_nat_alt word_le_nat_alt)

declare dealloc_loop.simps [simp del]

definition deallocuvm :: "u32 \<Rightarrow> u32 \<Rightarrow> u32 \<Rightarrow> u32 \<Rightarrow> kstate \<Rightarrow> (u32 \<times> kstate) res" where
  "deallocuvm kend pgdir oldsz newsz s =
     (if newsz \<ge> oldsz then Inr (oldsz, s)
      else rbind (dealloc_loop kend pgdir myproc (PGROUNDUP newsz) oldsz s) (\<lambda>s. Inr (newsz, s)))"

definition deallocuvm2 :: "u32 \<Rightarrow> u32 \<Rightarrow> u32 \<Rightarrow> u32 \<Rightarrow> nat \<Rightarrow> kstate \<Rightarrow> (u32 \<times> kstate) res" where
  "deallocuvm2 kend pgdir oldsz newsz p s =
     (if newsz \<ge> oldsz then Inr (oldsz, s)
      else rbind (dealloc_loop kend pgdir (\<lambda>_. Inr p) (PGROUNDUP newsz) oldsz s) (\<lambda>s. Inr (newsz, s)))"

fun free_tables :: "u32 \<Rightarrow> u32 \<Rightarrow> nat list \<Rightarrow> kstate \<Rightarrow> kstate res" where
  "free_tables kend pgdir [] s = Inr s"
| "free_tables kend pgdir (i # is) s =
     (let v = ld32 (ram s) (pgdir + 4 * of_nat i) in
      rbind (if v AND PTE_P \<noteq> 0 then kfree kend (P2V (PTE_ADDR v)) s else Inr s)
        (free_tables kend pgdir is))"

definition freevm :: "u32 \<Rightarrow> u32 \<Rightarrow> kstate \<Rightarrow> kstate res" where
  "freevm kend pgdir s =
     (if pgdir = 0 then Inl (Panic ''freevm: no pgdir'')
      else
        rbind (deallocuvm kend pgdir KERNBASE 0 s) (\<lambda>(_, s).
        rbind (free_tables kend pgdir [0..<NPDENTRIES] s) (\<lambda>s.
        kfree kend pgdir s)))"

definition freevm2 :: "u32 \<Rightarrow> u32 \<Rightarrow> nat \<Rightarrow> kstate \<Rightarrow> kstate res" where
  "freevm2 kend pgdir p s =
     (if pgdir = 0 then Inl (Panic ''freevm2: no pgdir'')
      else
        rbind (deallocuvm2 kend pgdir KERNBASE 0 p s) (\<lambda>(_, s).
        rbind (free_tables kend pgdir [0..<NPDENTRIES] s) (\<lambda>s.
        kfree kend pgdir s)))"

section \<open>The kernel part of a page table\<close>

record kmap_entry =
  virt :: u32
  phys_start :: u32
  phys_end :: u32
  kperm :: u32

definition kmap :: "u32 \<Rightarrow> kmap_entry list" where
  "kmap kdata =
    [\<lparr>virt = KERNBASE, phys_start = 0, phys_end = EXTMEM, kperm = PTE_W\<rparr>,
     \<lparr>virt = KERNLINK, phys_start = V2P KERNLINK, phys_end = V2P kdata, kperm = 0\<rparr>,
     \<lparr>virt = kdata, phys_start = V2P kdata, phys_end = PHYSTOP, kperm = PTE_W\<rparr>,
     \<lparr>virt = DEVSPACE, phys_start = DEVSPACE, phys_end = 0, kperm = PTE_W\<rparr>]"

fun setupkvm_loop :: "u32 \<Rightarrow> u32 \<Rightarrow> kmap_entry list \<Rightarrow> kstate \<Rightarrow> (u32 \<times> kstate) res" where
  "setupkvm_loop kend pgdir [] s = Inr (pgdir, s)"
| "setupkvm_loop kend pgdir (k # ks) s =
     rbind (mappages kend pgdir (virt k) (phys_end k - phys_start k) (phys_start k) (kperm k) s) (\<lambda>(r, s).
     if r < 0 then rbind (freevm kend pgdir s) (\<lambda>s. Inr (0, s))
     else setupkvm_loop kend pgdir ks s)"

definition setupkvm :: "u32 \<Rightarrow> u32 \<Rightarrow> kstate \<Rightarrow> (u32 \<times> kstate) res" where
  "setupkvm kend kdata s =
     rbind (kalloc kend s) (\<lambda>(pgdir, s).
     if pgdir = 0 then Inr (0, s)
     else
       let s = s\<lparr>ram := memset (ram s) pgdir 0 PGSIZE\<rparr> in
       if P2V PHYSTOP > DEVSPACE then Inl (Panic ''PHYSTOP too high'')
       else setupkvm_loop kend pgdir (kmap kdata) s)"

definition switchuvm :: "nat option \<Rightarrow> kstate \<Rightarrow> kstate res" where
  "switchuvm op s =
     (case op of None \<Rightarrow> Inl (Panic ''switchuvm: no process'')
      | Some i \<Rightarrow>
          let p = proctab s i in
          if p_kstack p = 0 then Inl (Panic ''switchuvm: no kstack'')
          else if p_pgdir p = 0 then Inl (Panic ''switchuvm: no pgdir'')
          else Inr (s\<lparr>ts_esp0 := p_kstack p + KSTACKSIZE, cr3 := V2P (p_pgdir p)\<rparr>))"

section \<open>Growing\<close>

text \<open>\<open>init\<close> is the kernel address of the initial program, \<open>sz\<close> its size.\<close>

definition inituvm :: "u32 \<Rightarrow> u32 \<Rightarrow> u32 \<Rightarrow> u32 \<Rightarrow> kstate \<Rightarrow> kstate res" where
  "inituvm kend pgdir init sz s =
     (if sz \<ge> PGSIZE then Inl (Panic ''inituvm: more than a page'')
      else
        rbind (kalloc kend s) (\<lambda>(pg, s).
        let s = s\<lparr>ram := memset (ram s) pg 0 PGSIZE\<rparr> in
        rbind (mappages kend pgdir 0 PGSIZE (V2P pg) (PTE_W OR PTE_U) s) (\<lambda>(_, s).
        let s = s\<lparr>ram := memmove (ram s) pg init sz\<rparr>;
            pte = walkpgdir0 pgdir 0 (ram s)
        in k_inc_sharing pte (V2P pg div PGSIZE) s)))"

fun allocuvm_loop :: "u32 \<Rightarrow> u32 \<Rightarrow> u32 \<Rightarrow> u32 \<Rightarrow> u32 list \<Rightarrow> kstate \<Rightarrow> (u32 \<times> kstate) res" where
  "allocuvm_loop kend pgdir oldsz newsz [] s = Inr (newsz, s)"
| "allocuvm_loop kend pgdir oldsz newsz (a # as) s =
     rbind (kalloc kend s) (\<lambda>(pg, s).
     if pg = 0 then rbind (deallocuvm kend pgdir newsz oldsz s) (\<lambda>(_, s). Inr (0, s))
     else
       let s = s\<lparr>ram := memset (ram s) pg 0 PGSIZE\<rparr> in
       rbind (mappages kend pgdir a PGSIZE (V2P pg) (PTE_W OR PTE_U) s) (\<lambda>(r, s).
       if r < 0 then
         rbind (deallocuvm kend pgdir newsz oldsz s) (\<lambda>(_, s).
         rbind (kfree kend pg s) (\<lambda>s. Inr (0, s)))
       else
         rbind (k_inc_sharing (walkpgdir0 pgdir a (ram s)) (V2P pg div PGSIZE) s) (\<lambda>s.
         rbind (myproc s) (\<lambda>i.
         allocuvm_loop kend pgdir oldsz newsz as
           (upd_proc i (\<lambda>p. p\<lparr>p_rss := p_rss p + PGSIZE\<rparr>) s)))))"

definition allocuvm :: "u32 \<Rightarrow> u32 \<Rightarrow> u32 \<Rightarrow> u32 \<Rightarrow> kstate \<Rightarrow> (u32 \<times> kstate) res" where
  "allocuvm kend pgdir oldsz newsz s =
     (if newsz \<ge> KERNBASE then Inr (0, s)
      else if newsz < oldsz then Inr (oldsz, s)
      else allocuvm_loop kend pgdir oldsz newsz (pg_addrs (PGROUNDUP oldsz) newsz) s)"

definition clearpteu :: "u32 \<Rightarrow> u32 \<Rightarrow> kstate \<Rightarrow> kstate res" where
  "clearpteu pgdir uva s =
     (let pte = walkpgdir0 pgdir uva (ram s) in
      if pte = 0 then Inl (Panic ''clearpteu'')
      else Inr (poke pte (ld32 (ram s) pte AND NOT PTE_U) s))"

section \<open>Copy on write\<close>

fun copyuvm_loop :: "u32 \<Rightarrow> u32 \<Rightarrow> u32 \<Rightarrow> nat \<Rightarrow> u32 list \<Rightarrow> kstate \<Rightarrow> (bool \<times> kstate) res" where
  "copyuvm_loop kend pgdir d child [] s = Inr (True, s)"
| "copyuvm_loop kend pgdir d child (i # is) s =
     (let pte = walkpgdir0 pgdir i (ram s) in
      if pte = 0 then Inl (Panic ''copyuvm: pte should exist'')
      else if ld32 (ram s) pte AND PTE_P = 0 then Inl (Panic ''copyuvm: page not present'')
      else
        let pa = PTE_ADDR (ld32 (ram s) pte); fl = PTE_FLAGS (ld32 (ram s) pte) in
        rbind (mappages kend d i PGSIZE pa fl s) (\<lambda>(r, s).
        if r \<noteq> 0 then Inr (False, s)
        else
          let new_pte = walkpgdir0 d i (ram s) in
          if new_pte = 0 then Inr (False, s)
          else
            let s = poke pte (ld32 (ram s) pte AND NOT PTE_W) s;
                s = poke new_pte (ld32 (ram s) pte) s
            in rbind (k_inc_sharing new_pte (pa div PGSIZE) s) (\<lambda>s.
               copyuvm_loop kend pgdir d child is
                 (upd_proc child (\<lambda>p. p\<lparr>p_rss := p_rss p + PGSIZE\<rparr>) s))))"

definition copyuvm :: "u32 \<Rightarrow> u32 \<Rightarrow> u32 \<Rightarrow> u32 \<Rightarrow> nat \<Rightarrow> kstate \<Rightarrow> (u32 \<times> kstate) res" where
  "copyuvm kend kdata pgdir sz child s =
     rbind (setupkvm kend kdata s) (\<lambda>(d, s).
     if d = 0 then Inr (0, s)
     else
       rbind (copyuvm_loop kend pgdir d child (pg_addrs 0 sz) s) (\<lambda>(done, s).
       if done then Inr (d, s\<lparr>cr3 := V2P pgdir\<rparr>)
       else rbind (freevm kend d s) (\<lambda>s. Inr (0, s))))"

section \<open>Access to user memory\<close>

definition uva2ka :: "u32 \<Rightarrow> u32 \<Rightarrow> kstate \<Rightarrow> u32 res" where
  "uva2ka pgdir uva s =
     rbind (deref (walkpgdir0 pgdir uva (ram s)) s) (\<lambda>v.
     if v AND PTE_P = 0 then Inr 0
     else if v AND PTE_U = 0 then Inr 0
     else Inr (P2V (PTE_ADDR v)))"

text \<open>The loop of \<open>copyout\<close>, with the bytes at \<open>buf\<close> still to copy; each pass copies at least
  one.\<close>

function copyout :: "u32 \<Rightarrow> u32 \<Rightarrow> u8 list \<Rightarrow> kstate \<Rightarrow> (bool \<times> kstate) res" where
  "copyout pgdir va buf s =
     (if buf \<noteq> [] then
        let va0 = PGROUNDDOWN va in
        rbind (uva2ka pgdir va0 s) (\<lambda>pa0.
        if pa0 = 0 then Inr (False, s)
        else
          let n = min (unat (PGSIZE - (va - va0))) (length buf)
          in copyout pgdir (va0 + PGSIZE) (drop n buf)
               (s\<lparr>ram := mwrite (ram s) (pa0 + (va - va0)) (take n buf)\<rparr>))
      else Inr (True, s))"
  by pat_completeness auto
termination
proof (relation "measure (\<lambda>(_, _, buf, _). length buf)", simp)
  fix pgdir va :: u32 and buf :: "u8 list" and s s' :: kstate and va0 pa0 :: u32 and n :: nat
  assume a: "buf \<noteq> []" "va0 = PGROUNDDOWN va" "n = min (unat (PGSIZE - (va - va0))) (length buf)"
  have "unat (va - va0) < 4096"
    using in_page_iff [of va0 va] a(2) by (simp add: PGROUNDDOWN_eq_PTE_ADDR)
  then have "0 < unat (PGSIZE - (va - va0))" by (simp add: unat_sub_cases)
  with a have "0 < n" by simp
  then show "((pgdir, va0 + PGSIZE, drop n buf, s\<lparr>ram := mwrite (ram s) (pa0 + (va - va0)) (take n buf)\<rparr>),
      pgdir, va, buf, s) \<in> measure (\<lambda>(_, _, buf, _). length buf)" using a(1) by simp
qed

declare copyout.simps [simp del]

end
