(* ===== verification/Xv6_VmMap.thy ===== *)
theory Xv6_VmMap
  imports Xv6_Vm
begin

text \<open>
  Page tables under \<open>walkpgdir\<close>, \<open>mappages\<close> and \<open>setupkvm\<close>. The invariant \<open>vm_ok\<close> is about
  a set of page directories and the free list: all of their pages are different pages of
  allocatable memory. Mapping a range updates one directory's function on the range, takes
  the page tables it needs from the free list, and changes nothing else.
\<close>

section \<open>The invariant\<close>

definition vm_ok :: "u32 \<Rightarrow> kstate \<Rightarrow> u32 set \<Rightarrow> u32 list \<Rightarrow> bool" where
  "vm_ok kend s D xs \<longleftrightarrow> free_ok kend s xs \<and>
     (\<forall>d \<in> D. pgdir_ok kend (ram s) d \<and> tpages (ram s) d \<inter> set xs = {}) \<and>
     (\<forall>d \<in> D. \<forall>e \<in> D. d \<noteq> e \<longrightarrow> tpages (ram s) d \<inter> tpages (ram s) e = {})"

lemma vm_okD:
  assumes "vm_ok kend s D xs"
  shows "free_ok kend s xs" and "d \<in> D \<Longrightarrow> pgdir_ok kend (ram s) d"
    and "d \<in> D \<Longrightarrow> tpages (ram s) d \<inter> set xs = {}"
    and "d \<in> D \<Longrightarrow> e \<in> D \<Longrightarrow> d \<noteq> e \<Longrightarrow> tpages (ram s) d \<inter> tpages (ram s) e = {}"
  using assms by (simp_all add: vm_ok_def)

text \<open>What allocation and page table stores may change of the state.\<close>

definition alloc_only :: "kstate \<Rightarrow> kstate \<Rightarrow> bool" where
  "alloc_only s s' \<longleftrightarrow> s' = s\<lparr>ram := ram s', freelist := freelist s',
     num_free_pages := num_free_pages s', global_var := global_var s'\<rparr>"

lemma alloc_only_refl [simp]: "alloc_only s s"
  by (simp add: alloc_only_def)

lemma alloc_only_iff:
  "alloc_only s s' \<longleftrightarrow> use_lock s' = use_lock s \<and> rmap s' = rmap s \<and> swaparray s' = swaparray s \<and>
     proctab s' = proctab s \<and> curproc s' = curproc s \<and> initproc s' = initproc s \<and>
     nextpid s' = nextpid s \<and> bcache s' = bcache s \<and> cr3 s' = cr3 s \<and> ts_esp0 s' = ts_esp0 s"
  by (cases s; cases s') (auto simp: alloc_only_def)

lemma alloc_only_trans: "alloc_only s t \<Longrightarrow> alloc_only t u \<Longrightarrow> alloc_only s u"
  by (simp add: alloc_only_iff)

lemma alloc_onlyD:
  assumes "alloc_only s s'"
  shows "rmap s' = rmap s" "proctab s' = proctab s" "curproc s' = curproc s"
    "swaparray s' = swaparray s" "bcache s' = bcache s"
  using assms by (simp_all add: alloc_only_iff)

lemma alloc_only_poke [simp]: "alloc_only s (poke a v s)"
  by (simp add: alloc_only_def poke_def)

section \<open>Stores to entries of one directory\<close>

lemma vm_ok_poke:
  fixes v :: u32
  assumes ok: "vm_ok kend s D xs" and d: "d \<in> D" and on: "pde_on (ram s) d (PDX va)"
  defines "s' \<equiv> poke (walkpgdir0 d va (ram s)) v s"
  shows "vm_ok kend s' D xs"
    and "pteval (ram s') d = (\<lambda>x. if PTE_ADDR x = PTE_ADDR va then v else pteval (ram s) d x)"
    and "e \<in> D \<Longrightarrow> e \<noteq> d \<Longrightarrow> pteval (ram s') e = pteval (ram s) e"
    and "e \<in> D \<Longrightarrow> tpages (ram s') e = tpages (ram s) e"
    and "e \<in> D \<Longrightarrow> i < 1024 \<Longrightarrow> pde_on (ram s') e i = pde_on (ram s) e i"
    and "e \<in> D \<Longrightarrow> walkpgdir0 e x (ram s') = walkpgdir0 e x (ram s)"
    and "PTE_ADDR a \<notin> tpages (ram s) d \<Longrightarrow> ram s' a = ram s a"
proof -
  have ram: "ram s' = st32 (ram s) (walkpgdir0 d va (ram s)) v" by (simp add: s'_def)
  note okd = vm_okD(2) [OF ok d]
  note S = pgdir_store [OF okd on, where v = v, folded ram]
  have in_d: "ptab (ram s) d (PDX va) \<in> tpages (ram s) d" using on by (rule ptab_tpages)
  then show out: "PTE_ADDR a \<notin> tpages (ram s) d \<Longrightarrow> ram s' a = ram s a" for a using S(6) by metis
  have fr: "ram s' a = ram s a" if "e \<in> D" "e \<noteq> d" "PTE_ADDR a \<in> tpages (ram s) e" for e a
    using that vm_okD(4) [OF ok d that(1)] by (intro out) auto
  have F: "pgdir_ok kend (ram s') e" "tpages (ram s') e = tpages (ram s) e" "pteval (ram s') e = pteval (ram s) e"
    "walkpgdir0 e x (ram s') = walkpgdir0 e x (ram s)" "i < 1024 \<Longrightarrow> pde_on (ram s') e i = pde_on (ram s) e i"
    if e: "e \<in> D" "e \<noteq> d" for e x i
    using pgdir_frame [OF vm_okD(2) [OF ok e(1)] fr [OF e]] by blast+
  show "pteval (ram s') d = (\<lambda>x. if PTE_ADDR x = PTE_ADDR va then v else pteval (ram s) d x)" by (rule S(3))
  show "e \<in> D \<Longrightarrow> e \<noteq> d \<Longrightarrow> pteval (ram s') e = pteval (ram s) e" using F(3) by blast
  show tp: "e \<in> D \<Longrightarrow> tpages (ram s') e = tpages (ram s) e" for e using F(2) S(2) by metis
  show "e \<in> D \<Longrightarrow> i < 1024 \<Longrightarrow> pde_on (ram s') e i = pde_on (ram s) e i" using F(5) S(5) by metis
  show "e \<in> D \<Longrightarrow> walkpgdir0 e x (ram s') = walkpgdir0 e x (ram s)" using F(4) S(4) by metis
  have "pgdir_ok kend (ram s') e" if "e \<in> D" for e using that F(1) S(1) by metis
  moreover have "free_ok kend s' xs"
  proof (rule free_ok_frame [OF vm_okD(1) [OF ok]])
    show "ram s' a = ram s a" if "PTE_ADDR a \<in> set xs" for a
      using that vm_okD(3) [OF ok d] by (intro out) auto
  qed (simp_all add: s'_def)
  ultimately show "vm_ok kend s' D xs" using ok tp unfolding vm_ok_def by auto
qed

section \<open>The allocating walk\<close>

text \<open>How one directory \<open>d\<close> may grow: it takes the pages \<open>us\<close> from the free list; only its
  own pages are written.\<close>

definition grows :: "u32 \<Rightarrow> u32 set \<Rightarrow> u32 \<Rightarrow> u32 list \<Rightarrow> kstate \<Rightarrow> u32 list \<Rightarrow> kstate \<Rightarrow> u32 list \<Rightarrow> bool" where
  "grows kend D d us s xs s' xs' \<longleftrightarrow> vm_ok kend s' D xs' \<and> xs = us @ xs' \<and> alloc_only s s' \<and>
     tpages (ram s') d = tpages (ram s) d \<union> set us \<and>
     (\<forall>a. PTE_ADDR a \<notin> tpages (ram s') d \<longrightarrow> ram s' a = ram s a) \<and>
     (\<forall>i < 1024. pde_on (ram s) d i \<longrightarrow> pde_on (ram s') d i) \<and>
     (\<forall>va. pde_on (ram s) d (PDX va) \<longrightarrow> walkpgdir0 d va (ram s') = walkpgdir0 d va (ram s))"

lemma growsD:
  assumes "grows kend D d us s xs s' xs'"
  shows "vm_ok kend s' D xs'" "xs = us @ xs'" "alloc_only s s'"
    "tpages (ram s') d = tpages (ram s) d \<union> set us"
    "PTE_ADDR a \<notin> tpages (ram s') d \<Longrightarrow> ram s' a = ram s a"
    "i < 1024 \<Longrightarrow> pde_on (ram s) d i \<Longrightarrow> pde_on (ram s') d i"
    "pde_on (ram s) d (PDX va) \<Longrightarrow> walkpgdir0 d va (ram s') = walkpgdir0 d va (ram s)"
  using assms by (auto simp: grows_def)

lemma grows_trans:
  assumes "grows kend D d us s xs t ys" "grows kend D d vs t ys u zs"
  shows "grows kend D d (us @ vs) s xs u zs"
  using assms unfolding grows_def by (auto intro: alloc_only_trans)

lemma grows_refl: "vm_ok kend s D xs \<Longrightarrow> grows kend D d [] s xs s xs"
  by (simp add: grows_def)

text \<open>The other directories and every page outside are untouched.\<close>

lemma grows_other:
  assumes ok: "vm_ok kend s D xs" and g: "grows kend D d us s xs s' xs'" and d: "d \<in> D" and e: "e \<in> D" "e \<noteq> d"
  shows "pteval (ram s') e = pteval (ram s) e" and "tpages (ram s') e = tpages (ram s) e"
    and "walkpgdir0 e x (ram s') = walkpgdir0 e x (ram s)" and "i < 1024 \<Longrightarrow> pde_on (ram s') e i = pde_on (ram s) e i"
proof -
  have fr: "ram s' a = ram s a" if "PTE_ADDR a \<in> tpages (ram s) e" for a
  proof (rule growsD(5) [OF g])
    have "PTE_ADDR a \<notin> set us" using vm_okD(3) [OF ok e(1)] that growsD(2) [OF g] by auto
    moreover have "PTE_ADDR a \<notin> tpages (ram s) d" using vm_okD(4) [OF ok e(1) d e(2)] that by blast
    ultimately show "PTE_ADDR a \<notin> tpages (ram s') d" by (simp add: growsD(4) [OF g])
  qed
  note F = pgdir_frame [OF vm_okD(2) [OF ok e(1)] fr]
  show "pteval (ram s') e = pteval (ram s) e" "tpages (ram s') e = tpages (ram s) e"
    "walkpgdir0 e x (ram s') = walkpgdir0 e x (ram s)" "i < 1024 \<Longrightarrow> pde_on (ram s') e i = pde_on (ram s) e i"
    using F(2-5) by blast+
qed

lemma grows_poke:
  assumes "vm_ok kend s D xs" and "d \<in> D" and "pde_on (ram s) d (PDX va)"
  shows "grows kend D d [] s xs (poke (walkpgdir0 d va (ram s)) v s) xs"
  using vm_ok_poke [OF assms, where v = v] assms by (auto simp: grows_def)

lemma walkpgdir_present:
  "pde_on (ram s) d (PDX va) \<Longrightarrow> walkpgdir kend d va alloc s = Inr (walkpgdir0 d va (ram s), s)"
  by (simp add: walkpgdir_def walkpgdir0_def pde_on_def Let_def)

lemma walkpgdir_absent:
  "\<not> pde_on (ram s) d (PDX va) \<Longrightarrow> walkpgdir kend d va False s = Inr (0, s)"
  by (simp add: walkpgdir_def pde_on_def Let_def)

lemma walkpgdir_new:
  assumes ok: "vm_ok kend s D (x # xs)" and d: "d \<in> D" and off: "\<not> pde_on (ram s) d (PDX va)"
  shows "\<exists>s'. walkpgdir kend d va True s = Inr (walkpgdir0 d va (ram s'), s') \<and>
    grows kend D d [x] s (x # xs) s' xs \<and> pde_on (ram s') d (PDX va) \<and> pteval (ram s') d = pteval (ram s) d \<and>
    (\<forall>i < 1024. i \<noteq> PDX va \<longrightarrow> pde_on (ram s') d i = pde_on (ram s) d i)"
proof -
  from kalloc_ok [OF vm_okD(1) [OF ok]] obtain s1 where
    k: "kalloc kend s = Inr (x, s1)" and f1: "free_ok kend s1 xs" and
    s1: "s1 = s\<lparr>freelist := freelist s1, num_free_pages := num_free_pages s - 1, global_var := global_var s + 1\<rparr>"
    by blast
  have ram1: "ram s1 = ram s" by (subst s1) simp
  have x: "kpage kend x" "x \<notin> tpages (ram s) d" "x \<notin> set xs"
    using vm_okD(1) [OF ok] vm_okD(3) [OF ok d] by (auto simp: free_ok_def)
  let ?v = "V2P x OR PTE_P OR PTE_W OR PTE_U"
  let ?s = "poke (d + 4 * PDX va) ?v (s1\<lparr>ram := memset (ram s) x 0 PGSIZE\<rparr>)"
  note okd = vm_okD(2) [OF ok d]
  have ram: "ram ?s = st32 (memset (ram s) x 0 4096) (d + 4 * PDX va) ?v" by simp
  note N = pgdir_new_table [OF okd off x(1,2), folded ram]
  have w: "walkpgdir kend d va True s = Inr (walkpgdir0 d va (ram ?s), ?s)"
    using off k kpage_nonzero [OF x(1)] N(6)
    by (simp add: walkpgdir_def pde_on_def Let_def ram1)
  have out: "ram ?s a = ram s a" if "PTE_ADDR a \<noteq> x" "PTE_ADDR a \<notin> tpages (ram s) d" for a
    using that by (intro N(7)) auto
  have fr: "ram ?s a = ram s a" if "e \<in> D" "e \<noteq> d" "PTE_ADDR a \<in> tpages (ram s) e" for e a
    using that vm_okD(3) [OF ok that(1)] vm_okD(4) [OF ok that(1) d that(2)] by (intro out) auto
  have F: "pgdir_ok kend (ram ?s) e" "tpages (ram ?s) e = tpages (ram s) e" if e: "e \<in> D" "e \<noteq> d" for e
    using pgdir_frame [OF vm_okD(2) [OF ok e(1)] fr [OF e]] by blast+
  have "free_ok kend ?s xs"
  proof (rule free_ok_frame [OF f1])
    show "ram ?s a = ram s1 a" if "PTE_ADDR a \<in> set xs" for a
      unfolding ram1 using that vm_okD(3) [OF ok d] x(3) by (intro out) auto
  qed simp_all
  moreover have "pgdir_ok kend (ram ?s) e" if "e \<in> D" for e using that F(1) N(1) by metis
  moreover have tp: "tpages (ram ?s) e = (if e = d then insert x (tpages (ram s) d) else tpages (ram s) e)"
    if "e \<in> D" for e using that F(2) N(2) by metis
  ultimately have "vm_ok kend ?s D xs"
    using ok x(3) d unfolding vm_ok_def by (auto simp del: poke_simps split: if_splits)
  moreover have "alloc_only s ?s"
    by (rule alloc_only_trans [of _ s1]) (subst s1, simp add: alloc_only_iff, simp add: alloc_only_iff)
  moreover have "\<forall>i < 1024. pde_on (ram s) d i \<longrightarrow> pde_on (ram ?s) d i" using N(4,5) by metis
  ultimately have "grows kend D d [x] s (x # xs) ?s xs"
    unfolding grows_def using N(2,8) out by (auto simp del: poke_simps)
  with w N(3-5) show ?thesis by blast
qed

text \<open>The page table indices among \<open>S\<close> that still need a table.\<close>

definition missing :: "memory \<Rightarrow> u32 \<Rightarrow> u32 set \<Rightarrow> u32 set" where
  "missing m d S = {i \<in> S. \<not> pde_on m d i}"

lemma walkpgdir_alloc:
  assumes ok: "vm_ok kend s D xs" and d: "d \<in> D" and room: "card (missing (ram s) d {PDX va}) \<le> length xs"
  shows "\<exists>s' us xs'. walkpgdir kend d va True s = Inr (walkpgdir0 d va (ram s'), s') \<and>
    grows kend D d us s xs s' xs' \<and> length us = card (missing (ram s) d {PDX va}) \<and>
    pteval (ram s') d = pteval (ram s) d \<and>
    (\<forall>i < 1024. pde_on (ram s') d i \<longleftrightarrow> i = PDX va \<or> pde_on (ram s) d i)"
proof (cases "pde_on (ram s) d (PDX va)")
  case True
  then have "missing (ram s) d {PDX va} = {}" by (auto simp: missing_def)
  then show ?thesis
    using True walkpgdir_present [OF True, of kend True] grows_refl [OF ok, of d] by fastforce
next
  case False
  then have "missing (ram s) d {PDX va} = {PDX va}" by (auto simp: missing_def)
  with room obtain x ys where xs: "xs = x # ys" "card (missing (ram s) d {PDX va}) = 1" by (cases xs) auto
  from walkpgdir_new [OF ok [unfolded xs(1)] d False] obtain s' where
    "walkpgdir kend d va True s = Inr (walkpgdir0 d va (ram s'), s')" "grows kend D d [x] s (x # ys) s' ys"
    "pde_on (ram s') d (PDX va)" "pteval (ram s') d = pteval (ram s) d"
    "\<forall>i < 1024. i \<noteq> PDX va \<longrightarrow> pde_on (ram s') d i = pde_on (ram s) d i" by blast
  then show ?thesis unfolding xs by (intro exI [of _ s'] exI [of _ "[x]"] exI [of _ ys]) auto
qed

section \<open>Mapping a range\<close>

text \<open>The number of the page of \<open>va\<close>, counted (modulo the size of the address space) from
  the page \<open>a\<close>.\<close>

definition pgidx :: "u32 \<Rightarrow> u32 \<Rightarrow> nat" where
  "pgidx a va = unat (PTE_ADDR va - a) div 4096"

definition mapped :: "(u32 \<Rightarrow> u32) \<Rightarrow> u32 \<Rightarrow> nat \<Rightarrow> u32 \<Rightarrow> u32 \<Rightarrow> u32 \<Rightarrow> u32" where
  "mapped f a n pa perm = (\<lambda>va. if pgidx a va \<le> n
     then (pa + of_nat (pgidx a va) * 4096) OR perm OR PTE_P else f va)"

definition pdxs :: "u32 \<Rightarrow> nat \<Rightarrow> u32 set" where
  "pdxs a n = PDX ` {va. pgidx a va \<le> n}"

lemma aligned_diff: "pg_aligned a \<Longrightarrow> pg_aligned b \<Longrightarrow> pg_aligned (a - b)"
proof -
  assume "pg_aligned a" "pg_aligned b"
  then obtain q r where "unat a = 4096 * q" "unat b = 4096 * r"
    by (auto simp: pg_aligned_unat elim!: dvdE simp flip: dvd_eq_mod_eq_0)
  moreover from this have "4294967296 + 4096 * q - 4096 * r = 4096 * (1048576 + q - r)" by (simp add: algebra_simps)
  ultimately show ?thesis by (auto simp: pg_aligned_unat unat_sub_cases simp flip: diff_mult_distrib2)
qed

lemma pgidx_0: "pg_aligned a \<Longrightarrow> pgidx a va = 0 \<longleftrightarrow> PTE_ADDR va = a"
  using aligned_diff [OF PTE_ADDR_aligned, of a va] in_page_iff [of a "PTE_ADDR va"]
  by (auto simp: pgidx_def div_eq_0_iff)

lemma pgidx_step:
  assumes "pg_aligned a"
  shows "pgidx (a + 4096) va = (if PTE_ADDR va = a then 1048575 else pgidx a va - 1)"
proof (cases "PTE_ADDR va = a")
  case True
  then show ?thesis by (simp add: pgidx_def)
next
  case False
  then have "4096 \<le> unat (PTE_ADDR va - a)" using in_page_iff [OF assms, of "PTE_ADDR va"] by simp
  moreover from this have "unat (PTE_ADDR va - (a + 4096)) = unat (PTE_ADDR va - a) - 4096"
    by (simp add: unat_sub_add)
  ultimately show ?thesis using False le_div_geq [of 4096 "unat (PTE_ADDR va - a)"] by (simp add: pgidx_def)
qed

lemma pgidx_self [simp]: "pgidx (PTE_ADDR x) x = 0"
  by (simp add: pgidx_0)

lemma mapped_0:
  "pg_aligned a \<Longrightarrow> mapped f a 0 pa perm = (\<lambda>x. if PTE_ADDR x = a then pa OR perm OR PTE_P else f x)"
  using pgidx_0 [of a] by (intro ext) (auto simp: mapped_def pgidx_0)

lemma mapped_Suc:
  assumes "pg_aligned a" and "Suc n < 1048576"
  shows "mapped (mapped f a 0 pa perm) (a + 4096) n (pa + 4096) perm = mapped f a (Suc n) pa perm"
proof
  fix va
  show "mapped (mapped f a 0 pa perm) (a + 4096) n (pa + 4096) perm va = mapped f a (Suc n) pa perm va"
  proof (cases "PTE_ADDR va = a")
    case True
    then have "pgidx a va = 0" "pgidx (a + 4096) va = 1048575" using assms by (simp_all add: pgidx_0 pgidx_step)
    then show ?thesis using assms(2) by (simp add: mapped_def)
  next
    case False
    then obtain k where "pgidx a va = Suc k" using pgidx_0 [OF assms(1)] by (cases "pgidx a va") auto
    moreover from this have "pgidx (a + 4096) va = k" using assms False by (simp add: pgidx_step)
    ultimately show ?thesis by (simp add: mapped_def algebra_simps)
  qed
qed

lemma PDX_page_image: "pg_aligned a \<Longrightarrow> PDX ` {va. PTE_ADDR va = a} = {PDX a}"
proof -
  assume "pg_aligned a"
  then have "PTE_ADDR a = a" by (rule PTE_ADDR_of_aligned)
  then have "a \<in> {va. PTE_ADDR va = a}" by simp
  moreover have "PDX va = PDX a" if "PTE_ADDR va = a" for va using PDX_PTE_ADDR [of va] that by simp
  ultimately show ?thesis by blast
qed

lemma pdxs_Suc:
  assumes "pg_aligned a" and "Suc n < 1048576"
  shows "pdxs a (Suc n) = insert (PDX a) (pdxs (a + 4096) n)"
proof -
  have "pgidx a va \<le> Suc n \<longleftrightarrow> PTE_ADDR va = a \<or> pgidx (a + 4096) va \<le> n" for va
    using assms pgidx_0 [OF assms(1), of va] pgidx_step [OF assms(1), of va] by auto
  then have "{va. pgidx a va \<le> Suc n} = {va. PTE_ADDR va = a} \<union> {va. pgidx (a + 4096) va \<le> n}" by auto
  then show ?thesis by (simp add: pdxs_def image_Un PDX_page_image [OF assms(1)])
qed

lemma pdxs_0: "pg_aligned a \<Longrightarrow> pdxs a 0 = {PDX a}"
  using PDX_page_image [of a] by (simp add: pdxs_def pgidx_0)

lemma pdxs_less: "i \<in> pdxs a n \<Longrightarrow> i < 1024"
  by (auto simp: pdxs_def)

lemma aligned_next [simp]: "pg_aligned a \<Longrightarrow> pg_aligned (a + 4096)"
  using aligned_diff [of a "- 4096"] by (simp add: pg_aligned_def)

text \<open>One page: walk, check, store.\<close>

lemma map_one:
  assumes ok: "vm_ok kend s D xs" and d: "d \<in> D" and a: "pg_aligned a"
    and room: "card (missing (ram s) d {PDX a}) \<le> length xs" and free: "pteval (ram s) d a AND 1 = 0"
  shows "\<exists>s' us xs'. (\<forall>n. mappages_loop kend d perm n a pa s =
      (case n of 0 \<Rightarrow> Inr (0, s') | Suc n \<Rightarrow> mappages_loop kend d perm n (a + PGSIZE) (pa + PGSIZE) s')) \<and>
    grows kend D d us s xs s' xs' \<and> length us = card (missing (ram s) d {PDX a}) \<and>
    pteval (ram s') d = mapped (pteval (ram s) d) a 0 pa perm \<and>
    (\<forall>i < 1024. pde_on (ram s') d i \<longleftrightarrow> i = PDX a \<or> pde_on (ram s) d i)"
proof -
  from walkpgdir_alloc [OF ok d room] obtain s1 us xs' where
    w: "walkpgdir kend d a True s = Inr (walkpgdir0 d a (ram s1), s1)" and
    g: "grows kend D d us s xs s1 xs'" and len: "length us = card (missing (ram s) d {PDX a})" and
    pv: "pteval (ram s1) d = pteval (ram s) d" and
    on: "\<forall>i < 1024. pde_on (ram s1) d i \<longleftrightarrow> i = PDX a \<or> pde_on (ram s) d i" by blast
  note ok1 = growsD(1) [OF g]
  have on1: "pde_on (ram s1) d (PDX a)" using on by simp
  note W = walk_props [OF vm_okD(2) [OF ok1 d] on1]
  let ?s = "poke (walkpgdir0 d a (ram s1)) (pa OR perm OR PTE_P) s1"
  note P = vm_ok_poke [OF ok1 d on1, where v = "pa OR perm OR PTE_P"]
  have al: "PTE_ADDR a = a" using a by (rule PTE_ADDR_of_aligned)
  have "mappages_loop kend d perm n a pa s =
      (case n of 0 \<Rightarrow> Inr (0, ?s) | Suc n \<Rightarrow> mappages_loop kend d perm n (a + PGSIZE) (pa + PGSIZE) ?s)" for n
    using W(4,5) free by (subst mappages_loop.simps) (simp add: w pv Let_def del: mappages_loop.simps split: nat.split)
  moreover have "grows kend D d us s xs ?s xs'"
    using grows_trans [OF g grows_poke [OF ok1 d on1]] by simp
  moreover have "pteval (ram ?s) d = mapped (pteval (ram s) d) a 0 pa perm"
    unfolding P(2) pv mapped_0 [OF a] al ..
  moreover have "\<forall>i < 1024. pde_on (ram ?s) d i \<longleftrightarrow> i = PDX a \<or> pde_on (ram s) d i"
    using P(5) [OF d] on by simp
  ultimately show ?thesis using len by blast
qed

text \<open>A range of pages that are not mapped yet.\<close>

lemma mappages_loop_ok:
  assumes "vm_ok kend s D xs" and "d \<in> D" and "pg_aligned a" and "n < 1048576"
    and "\<And>va. pgidx a va \<le> n \<Longrightarrow> pteval (ram s) d va AND 1 = 0"
    and "card (missing (ram s) d (pdxs a n)) \<le> length xs"
  shows "\<exists>s' us xs'. mappages_loop kend d perm n a pa s = Inr (0, s') \<and> grows kend D d us s xs s' xs' \<and>
    length us = card (missing (ram s) d (pdxs a n)) \<and>
    pteval (ram s') d = mapped (pteval (ram s) d) a n pa perm \<and>
    (\<forall>i < 1024. pde_on (ram s') d i \<longleftrightarrow> i \<in> pdxs a n \<or> pde_on (ram s) d i)"
  using assms
proof (induction n arbitrary: a pa s xs)
  case 0
  have "pteval (ram s) d a AND 1 = 0"
    using 0(5) [of a] pgidx_self [of a] PTE_ADDR_of_aligned [OF 0(3)] by simp
  from map_one [OF 0(1-3) _ this, of perm pa] 0(3,6) show ?case
    by (simp add: pdxs_0 del: mappages_loop.simps) fastforce
next
  case (Suc n)
  let ?M = "missing (ram s) d (pdxs a (Suc n))"
  have fin: "finite ?M" by simp
  have pd: "pdxs a (Suc n) = insert (PDX a) (pdxs (a + 4096) n)" using Suc.prems(3,4) by (rule pdxs_Suc)
  have f0: "pteval (ram s) d a AND 1 = 0"
    using Suc.prems(5) [of a] pgidx_self [of a] PTE_ADDR_of_aligned [OF Suc.prems(3)] by simp
  have "missing (ram s) d {PDX a} \<subseteq> ?M" by (auto simp: missing_def pd)
  from card_mono [OF fin this] have "card (missing (ram s) d {PDX a}) \<le> length xs"
    using Suc.prems(6) by linarith
  from map_one [OF Suc.prems(1-3) this f0, of perm pa] obtain s1 us ys where
    step: "mappages_loop kend d perm (Suc n) a pa s = mappages_loop kend d perm n (a + PGSIZE) (pa + PGSIZE) s1" and
    g: "grows kend D d us s xs s1 ys" and len: "length us = card (missing (ram s) d {PDX a})" and
    pv: "pteval (ram s1) d = mapped (pteval (ram s) d) a 0 pa perm" and
    on: "\<forall>i < 1024. pde_on (ram s1) d i \<longleftrightarrow> i = PDX a \<or> pde_on (ram s) d i" by (metis nat.simps(5))
  have split: "?M = missing (ram s) d {PDX a} \<union> missing (ram s1) d (pdxs (a + 4096) n)"
    "missing (ram s) d {PDX a} \<inter> missing (ram s1) d (pdxs (a + 4096) n) = {}"
    using on by (auto simp: missing_def pd dest: pdxs_less)
  then have card: "card ?M = length us + card (missing (ram s1) d (pdxs (a + 4096) n))"
    using len by (simp add: card_Un_disjoint)
  have free: "pteval (ram s1) d va AND 1 = 0" if "pgidx (a + 4096) va \<le> n" for va
  proof -
    have "PTE_ADDR va \<noteq> a" "pgidx a va \<le> Suc n"
      using that Suc.prems(3,4) by (auto simp: pgidx_step split: if_splits)
    then show ?thesis using Suc.prems(5) by (simp add: pv mapped_0 [OF Suc.prems(3)])
  qed
  have ys: "card (missing (ram s1) d (pdxs (a + 4096) n)) \<le> length ys"
    using Suc.prems(6) card growsD(2) [OF g] by simp
  have "n < 1048576" using Suc.prems(4) by simp
  from Suc.IH [OF growsD(1) [OF g] Suc.prems(2) aligned_next [OF Suc.prems(3)] this free ys, of "pa + 4096"]
  obtain s' vs zs where IH: "mappages_loop kend d perm n (a + 4096) (pa + 4096) s1 = Inr (0, s')"
    "grows kend D d vs s1 ys s' zs" "length vs = card (missing (ram s1) d (pdxs (a + 4096) n))"
    "pteval (ram s') d = mapped (pteval (ram s1) d) (a + 4096) n (pa + 4096) perm"
    "\<forall>i < 1024. pde_on (ram s') d i \<longleftrightarrow> i \<in> pdxs (a + 4096) n \<or> pde_on (ram s1) d i" by blast
  have "mappages_loop kend d perm (Suc n) a pa s = Inr (0, s')" using IH(1) by (simp only: step PGSIZE_def)
  moreover have "grows kend D d (us @ vs) s xs s' zs" using g IH(2) by (rule grows_trans)
  moreover have "length (us @ vs) = card ?M" using card IH(3) by simp
  moreover have "pteval (ram s') d = mapped (pteval (ram s) d) a (Suc n) pa perm"
    unfolding IH(4) pv using Suc.prems(3,4) by (rule mapped_Suc)
  moreover have "\<forall>i < 1024. pde_on (ram s') d i \<longleftrightarrow> i \<in> pdxs a (Suc n) \<or> pde_on (ram s) d i"
    using IH(5) on pd by auto
  ultimately show ?case by blast
qed

end
