(* ===== verification/Xv6_VmKern.thy ===== *)
theory Xv6_VmKern
  imports Xv6_VmMap
begin

text \<open>
  \<open>mappages\<close> on address ranges, and the kernel part of a page table that \<open>setupkvm\<close>
  installs.
\<close>

section \<open>Ranges\<close>

definition rng :: "u32 \<Rightarrow> u32 \<Rightarrow> u32 \<Rightarrow> bool" where
  "rng va len x \<longleftrightarrow> unat va \<le> unat x \<and> unat x < unat va + unat len"

lemma PTE_ADDR_le: "unat (PTE_ADDR x) \<le> unat x" "unat x < unat (PTE_ADDR x) + 4096"
  using unat_PTE_ADDR [of x] by simp_all

lemma rng_div:
  assumes "unat va = p * 4096" and "unat len = q * 4096"
  shows "rng va len x \<longleftrightarrow> p \<le> unat x div 4096 \<and> unat x div 4096 < p + q"
proof -
  have "unat va + unat len = (p + q) * 4096" using assms by (simp add: algebra_simps)
  then show ?thesis unfolding rng_def
    by (simp only: assms(1) less_eq_div_iff_mult_less_eq div_less_iff_less_mult zero_less_numeral)
qed

lemma aligned_mult: "pg_aligned a \<Longrightarrow> \<exists>p. unat a = p * 4096"
  by (auto simp: pg_aligned_unat elim!: dvdE simp flip: dvd_eq_mod_eq_0)

lemma rng_page:
  assumes "pg_aligned va" and "pg_aligned len"
  shows "rng va len (PTE_ADDR x) = rng va len x"
proof -
  from assms obtain p q where "unat va = p * 4096" "unat len = q * 4096" using aligned_mult by blast
  from rng_div [OF this] show ?thesis by (simp add: unat_PTE_ADDR)
qed

lemma pgidx_rng:
  assumes "pg_aligned va" and "pg_aligned len" and "0 < len" and "unat va + unat len \<le> 4294967296"
  shows "pgidx va x \<le> unat len div 4096 - 1 \<longleftrightarrow> rng va len x"
proof -
  from assms(1,2) obtain p q where p: "unat va = 4096 * p" and q: "unat len = 4096 * q"
    by (auto simp: pg_aligned_unat elim!: dvdE simp flip: dvd_eq_mod_eq_0)
  obtain r where r: "unat (PTE_ADDR x) = 4096 * r" using unat_PTE_ADDR [of x] by (metis mult.commute)
  have "0 < q" using assms(3) q by (cases q) (simp_all add: word_less_nat_alt)
  have i: "pgidx va x = (if p \<le> r then r - p else 1048576 + r - p)"
  proof -
    have "4294967296 + 4096 * r - 4096 * p = 4096 * (1048576 + r - p)" by (simp add: algebra_simps)
    then show ?thesis unfolding pgidx_def unat_sub_cases r p
      by (auto simp flip: diff_mult_distrib2)
  qed
  have rl: "r < 1048576" using u32_less [of "PTE_ADDR x"] r by simp
  have "rng va len x \<longleftrightarrow> p \<le> r \<and> r < p + q"
    unfolding rng_page [OF assms(1,2), of x, symmetric] using rng_div [of va p len q "PTE_ADDR x"] p q r by simp
  then show ?thesis using i \<open>0 < q\<close> q p assms(4) rl by auto
qed

lemma mapped_rng:
  assumes "pg_aligned va" and "pg_aligned len" and "0 < len" and "unat va + unat len \<le> 4294967296"
  shows "mapped f va (unat len div 4096 - 1) pa perm =
    (\<lambda>x. if rng va len x then (pa + (PTE_ADDR x - va)) OR perm OR PTE_P else f x)"
proof
  fix x
  have "of_nat (pgidx va x) * 4096 = PTE_ADDR x - va"
  proof -
    have "pg_aligned (PTE_ADDR x - va)" using assms(1) by (simp add: aligned_diff)
    then have "pgidx va x * 4096 = unat (PTE_ADDR x - va)"
      by (auto simp: pgidx_def pg_aligned_unat)
    then have "of_nat (pgidx va x * 4096) = PTE_ADDR x - va" by (simp only:) simp
    then show ?thesis by simp
  qed
  then show "mapped f va (unat len div 4096 - 1) pa perm x =
    (if rng va len x then (pa + (PTE_ADDR x - va)) OR perm OR PTE_P else f x)"
    by (simp only: mapped_def pgidx_rng [OF assms])
qed

lemma mappages_count:
  assumes "pg_aligned va" and "pg_aligned len" and "0 < len" and "unat va + unat len \<le> 4294967296"
  shows "unat ((PGROUNDDOWN (va + len - 1) - PGROUNDDOWN va) div PGSIZE) = unat len div 4096 - 1"
proof -
  from assms(1,2) obtain p q where p: "unat va = 4096 * p" and q: "unat len = 4096 * q"
    by (auto simp: pg_aligned_unat elim!: dvdE simp flip: dvd_eq_mod_eq_0)
  have "0 < q" using assms(3) q by (cases q) (simp_all add: word_less_nat_alt)
  have l1: "unat (len - 1) = 4096 * q - 1" using q \<open>0 < q\<close> by (simp add: unat_sub_cases)
  have "unat (va + (len - 1)) = 4096 * p + (4096 * q - 1)"
    using assms(4) p q \<open>0 < q\<close> l1 by (simp add: unat_word_ariths)
  then have u: "unat (va + len - 1) = 4096 * (p + q - 1) + 4095"
    using \<open>0 < q\<close> by (simp add: algebra_simps)
  have "unat (PTE_ADDR (va + len - 1)) = 4096 * (p + q - 1)" unfolding unat_PTE_ADDR u by simp
  moreover have "PTE_ADDR va = va" using assms(1) by (rule PTE_ADDR_of_aligned)
  moreover have "4096 * (p + q - 1) - 4096 * p = 4096 * (q - 1)" using \<open>0 < q\<close> by (simp add: algebra_simps)
  ultimately have "unat (PTE_ADDR (va + len - 1) - PTE_ADDR va) = 4096 * (q - 1)"
    using p \<open>0 < q\<close> by (simp add: unat_sub_cases)
  then show ?thesis by (simp add: PGROUNDDOWN_eq_PTE_ADDR unat_div_distrib q)
qed

text \<open>Mapping a page-aligned range that is not mapped yet. The tables it needs are among \<open>S\<close>.\<close>

lemma mappages_rng:
  assumes ok: "vm_ok kend s D xs" and d: "d \<in> D"
    and al: "pg_aligned va" "pg_aligned len" "0 < len" "unat va + unat len \<le> 4294967296"
    and free: "\<And>x. rng va len x \<Longrightarrow> pteval (ram s) d x AND 1 = 0"
    and S: "\<And>x. rng va len x \<Longrightarrow> PDX x \<in> S" and room: "card (missing (ram s) d S) \<le> length xs"
  shows "\<exists>s' us xs'. mappages kend d va len pa perm s = Inr (0, s') \<and> grows kend D d us s xs s' xs' \<and>
    length us \<le> card (missing (ram s) d S) \<and>
    pteval (ram s') d = (\<lambda>x. if rng va len x then (pa + (PTE_ADDR x - va)) OR perm OR PTE_P else pteval (ram s) d x) \<and>
    (\<forall>i < 1024. pde_on (ram s') d i \<longleftrightarrow> pde_on (ram s) d i \<or> (\<exists>x. rng va len x \<and> i = PDX x))"
proof -
  let ?n = "unat len div 4096 - 1"
  have pd: "pdxs va ?n = PDX ` {x. rng va len x}" by (simp only: pdxs_def pgidx_rng [OF al])
  then have "missing (ram s) d (pdxs va ?n) \<subseteq> missing (ram s) d S" using S by (auto simp: missing_def)
  then have le: "card (missing (ram s) d (pdxs va ?n)) \<le> card (missing (ram s) d S)" by (simp add: card_mono)
  have n: "?n < 1048576" using u32_less [of len] by simp
  have a: "PGROUNDDOWN va = va" using al(1) by (simp add: PGROUNDDOWN_eq_PTE_ADDR PTE_ADDR_of_aligned)
  have m: "mappages kend d va len pa perm s = mappages_loop kend d perm ?n va pa s"
    using mappages_count [OF al] unfolding mappages_def Let_def a by (simp only:)
  have room': "card (missing (ram s) d (pdxs va ?n)) \<le> length xs" using le room by (rule le_trans)
  have "\<And>x. pgidx va x \<le> ?n \<Longrightarrow> pteval (ram s) d x AND 1 = 0" using free by (simp only: pgidx_rng [OF al])
  from mappages_loop_ok [OF ok d al(1) n this room', of perm pa] obtain s' us xs' where
    r: "mappages_loop kend d perm ?n va pa s = Inr (0, s')" "grows kend D d us s xs s' xs'"
    "length us = card (missing (ram s) d (pdxs va ?n))"
    "pteval (ram s') d = mapped (pteval (ram s) d) va ?n pa perm"
    "\<forall>i < 1024. pde_on (ram s') d i \<longleftrightarrow> i \<in> pdxs va ?n \<or> pde_on (ram s) d i" by blast
  have "length us \<le> card (missing (ram s) d S)" using r(3) le by (simp only:)
  moreover have "\<forall>i < 1024. pde_on (ram s') d i \<longleftrightarrow> pde_on (ram s) d i \<or> (\<exists>x. rng va len x \<and> i = PDX x)"
    using r(5) unfolding pd by blast
  ultimately show ?thesis using r(1,2) r(4) [unfolded mapped_rng [OF al]] unfolding m by blast
qed

text \<open>A single page.\<close>

lemma rng_one: "pg_aligned va \<Longrightarrow> rng va 4096 x \<longleftrightarrow> PTE_ADDR x = va"
  using in_page_iff [of va x] PTE_ADDR_le [of x] by (auto simp: rng_def unat_sub_cases)

lemma mappages_page:
  assumes ok: "vm_ok kend s D xs" and d: "d \<in> D" and va: "pg_aligned va"
    and free: "pteval (ram s) d va AND 1 = 0"
    and room: "pde_on (ram s) d (PDX va) \<or> xs \<noteq> []"
  shows "\<exists>s' us xs'. mappages kend d va 4096 pa perm s = Inr (0, s') \<and> grows kend D d us s xs s' xs' \<and>
    length us = (if pde_on (ram s) d (PDX va) then 0 else 1) \<and>
    pteval (ram s') d = (\<lambda>x. if PTE_ADDR x = va then pa OR perm OR PTE_P else pteval (ram s) d x) \<and>
    pde_on (ram s') d (PDX va)"
proof -
  have a: "PGROUNDDOWN va = va" using va by (simp add: PGROUNDDOWN_eq_PTE_ADDR PTE_ADDR_of_aligned)
  have "PTE_ADDR (va + 4095) = va" using PTE_ADDR_add [OF va, of 4095] by simp
  then have l: "PGROUNDDOWN (va + 4096 - 1) = va" by (simp add: PGROUNDDOWN_eq_PTE_ADDR add.commute)
  have m: "mappages kend d va 4096 pa perm s = mappages_loop kend d perm 0 va pa s"
    unfolding mappages_def Let_def a l by simp
  have c: "card (missing (ram s) d {PDX va}) = (if pde_on (ram s) d (PDX va) then 0 else 1)"
    by (cases "pde_on (ram s) d (PDX va)") (auto simp: missing_def Collect_conv_if)
  from room c have "card (missing (ram s) d {PDX va}) \<le> length xs" by (cases xs) auto
  from map_one [OF ok d va this free, of perm pa] obtain s' us xs' where
    "mappages_loop kend d perm 0 va pa s = Inr (0, s')" "grows kend D d us s xs s' xs'"
    "length us = card (missing (ram s) d {PDX va})" "pteval (ram s') d = mapped (pteval (ram s) d) va 0 pa perm"
    "\<forall>i < 1024. pde_on (ram s') d i \<longleftrightarrow> i = PDX va \<or> pde_on (ram s) d i" by (metis nat.simps(4))
  then show ?thesis unfolding m c mapped_0 [OF va]
    by (intro exI [of _ s'] exI [of _ us] exI [of _ xs']) auto
qed

text \<open>A page that is mapped already is never mapped over.\<close>

lemma mappages_remap:
  assumes ok: "pgdir_ok kend (ram s) d" and va: "pg_aligned va" and on: "pde_on (ram s) d (PDX va)"
    and p: "pteval (ram s) d va AND 1 \<noteq> 0"
  shows "mappages kend d va len pa perm s = Inl (Panic ''remap'')"
proof -
  have a: "PGROUNDDOWN va = va" using va by (simp add: PGROUNDDOWN_eq_PTE_ADDR PTE_ADDR_of_aligned)
  show ?thesis using walkpgdir_present [OF on, of kend True] walk_props(4,5) [OF ok on] p
    unfolding mappages_def Let_def a by (subst mappages_loop.simps) simp
qed

section \<open>Fresh pages\<close>

text \<open>Taking a page from the free list and writing to it leaves every directory as it was.\<close>

lemma alloc_write:
  assumes ok: "vm_ok kend s D (x # xs)" and out: "\<And>a. PTE_ADDR a \<noteq> x \<Longrightarrow> m a = ram s a"
  shows "\<exists>s1. kalloc kend s = Inr (x, s1) \<and> vm_ok kend (s1\<lparr>ram := m\<rparr>) D xs \<and>
    alloc_only s (s1\<lparr>ram := m\<rparr>) \<and> ram s1 = ram s \<and> kpage kend x \<and> x \<notin> set xs \<and>
    (\<forall>e \<in> D. x \<notin> tpages (ram s) e \<and> tpages m e = tpages (ram s) e \<and> pteval m e = pteval (ram s) e \<and>
       (\<forall>va. walkpgdir0 e va m = walkpgdir0 e va (ram s)) \<and> (\<forall>i < 1024. pde_on m e i = pde_on (ram s) e i))"
proof -
  from kalloc_ok [OF vm_okD(1) [OF ok]] obtain s1 where
    k: "kalloc kend s = Inr (x, s1)" and f1: "free_ok kend s1 xs" and
    s1: "s1 = s\<lparr>freelist := freelist s1, num_free_pages := num_free_pages s - 1, global_var := global_var s + 1\<rparr>"
    by blast
  have ram1: "ram s1 = ram s" by (subst s1) simp
  have x: "kpage kend x" "x \<notin> set xs" using vm_okD(1) [OF ok] by (auto simp: free_ok_def)
  have xe: "x \<notin> tpages (ram s) e" if "e \<in> D" for e using vm_okD(3) [OF ok that] by auto
  have fr: "m a = ram s a" if "e \<in> D" "PTE_ADDR a \<in> tpages (ram s) e" for e a
    using that xe [OF that(1)] by (intro out) auto
  have F: "pgdir_ok kend m e" "tpages m e = tpages (ram s) e" "pteval m e = pteval (ram s) e"
    "walkpgdir0 e va m = walkpgdir0 e va (ram s)" "i < 1024 \<Longrightarrow> pde_on m e i = pde_on (ram s) e i"
    if "e \<in> D" for e va i
    using pgdir_frame [OF vm_okD(2) [OF ok that] fr [OF that]] by blast+
  let ?s = "s1\<lparr>ram := m\<rparr>"
  have "free_ok kend ?s xs"
    by (rule free_ok_frame [OF f1]) (use x(2) ram1 in \<open>auto intro!: out\<close>)
  then have "vm_ok kend ?s D xs" using ok F(1,2) unfolding vm_ok_def by auto
  moreover have "alloc_only s ?s" by (subst s1) (simp add: alloc_only_iff)
  ultimately show ?thesis using k x xe F(2-5) ram1 by (intro exI [of _ s1]) simp
qed

lemma alloc_fill:
  assumes ok: "vm_ok kend s D (x # xs)"
  shows "\<exists>s1. kalloc kend s = Inr (x, s1) \<and> vm_ok kend (s1\<lparr>ram := memset (ram s1) x c 4096\<rparr>) D xs \<and>
    alloc_only s (s1\<lparr>ram := memset (ram s1) x c 4096\<rparr>) \<and> ram s1 = ram s \<and> kpage kend x \<and> x \<notin> set xs \<and>
    (\<forall>e \<in> D. x \<notin> tpages (ram s) e \<and> tpages (memset (ram s) x c 4096) e = tpages (ram s) e \<and>
       pteval (memset (ram s) x c 4096) e = pteval (ram s) e \<and>
       (\<forall>va. walkpgdir0 e va (memset (ram s) x c 4096) = walkpgdir0 e va (ram s)) \<and>
       (\<forall>i < 1024. pde_on (memset (ram s) x c 4096) e i = pde_on (ram s) e i))"
proof -
  have "kpage kend x" using vm_okD(1) [OF ok] by (simp add: free_ok_def)
  then have "\<And>a. PTE_ADDR a \<noteq> x \<Longrightarrow> memset (ram s) x c 4096 a = ram s a" by (simp add: memset_page)
  from alloc_write [OF ok this] show ?thesis by metis
qed

text \<open>A zeroed fresh page is a new, empty directory.\<close>

lemma vm_ok_new_dir:
  assumes ok: "vm_ok kend s D xs" and x: "kpage kend d" "d \<notin> set xs" "\<And>e. e \<in> D \<Longrightarrow> d \<notin> tpages (ram s) e"
    and e: "pgdir_ok kend (ram s) d" "tpages (ram s) d = {d}"
  shows "vm_ok kend s (insert d D) xs"
  using assms unfolding vm_ok_def by auto

section \<open>\<open>setupkvm\<close>\<close>

text \<open>The kernel's mappings: device memory and free memory writable, kernel text read-only.\<close>

definition kern_pte :: "u32 \<Rightarrow> u32 \<Rightarrow> u32" where
  "kern_pte kdata x =
     (if x < KERNBASE then 0
      else if x < KERNLINK then V2P (PTE_ADDR x) OR PTE_W OR PTE_P
      else if x < kdata then V2P (PTE_ADDR x) OR PTE_P
      else if x < P2V PHYSTOP then V2P (PTE_ADDR x) OR PTE_W OR PTE_P
      else if x < DEVSPACE then 0
      else PTE_ADDR x OR PTE_W OR PTE_P)"

lemma PDX_kern: "2147483648 \<le> unat x \<Longrightarrow> unat x < 2151677952 \<Longrightarrow> PDX x = 512"
  by (simp add: word_unat_eq_iff unat_PDX)

definition dev_pdxs :: "u32 set" where
  "dev_pdxs = of_nat ` {1016..<1024}"

lemma PDX_dev: "4261412864 \<le> unat x \<Longrightarrow> PDX x \<in> dev_pdxs"
proof -
  assume "4261412864 \<le> unat x"
  then have "unat (PDX x) \<in> {1016..<1024}" using u32_less [of x]
    by (simp add: unat_PDX less_eq_div_iff_mult_less_eq div_less_iff_less_mult)
  moreover have "PDX x = of_nat (unat (PDX x))" by simp
  ultimately show ?thesis unfolding dev_pdxs_def by (rule rev_image_eqI)
qed

lemma card_dev_pdxs: "card dev_pdxs \<le> 8"
  unfolding dev_pdxs_def using card_image_le [of "{1016..<1024}" "of_nat :: nat \<Rightarrow> u32"] by simp

lemma card_missing: "card (missing m d S) \<le> card S"
  by (rule card_mono) (auto simp: missing_def)

text \<open>The ranges of the four entries of \<open>kmap\<close>, and the tables they need.\<close>

lemma kmap_rngs:
  assumes "KERNLINK < kdata" and "kdata < P2V PHYSTOP"
  shows "rng 0x80000000 0x100000 x \<longleftrightarrow> KERNBASE \<le> x \<and> x < KERNLINK"
    and "rng 0x80100000 (V2P kdata - 0x100000) x \<longleftrightarrow> KERNLINK \<le> x \<and> x < kdata"
    and "rng kdata (0x400000 - V2P kdata) x \<longleftrightarrow> kdata \<le> x \<and> x < P2V PHYSTOP"
    and "rng 0xFE000000 0x2000000 x \<longleftrightarrow> DEVSPACE \<le> x"
    and "unat kdata < 2151677952" "2148532224 < unat kdata"
    and "unat (V2P kdata - 0x100000) = unat kdata - 2148532224"
    and "unat (0x400000 - V2P kdata) = 2151677952 - unat kdata"
proof -
  show k: "unat kdata < 2151677952" "2148532224 < unat kdata"
    using assms by (simp_all add: word_less_nat_alt P2V_def)
  show u: "unat (V2P kdata - 0x100000) = unat kdata - 2148532224"
    "unat (0x400000 - V2P kdata) = 2151677952 - unat kdata"
    using k by (simp_all add: V2P_def unat_sub_cases)
  show "rng 0x80000000 0x100000 x \<longleftrightarrow> KERNBASE \<le> x \<and> x < KERNLINK"
    by (simp add: rng_def word_le_nat_alt word_less_nat_alt)
  show "rng 0x80100000 (V2P kdata - 0x100000) x \<longleftrightarrow> KERNLINK \<le> x \<and> x < kdata"
    using k by (simp add: rng_def word_le_nat_alt word_less_nat_alt u)
  show "rng kdata (0x400000 - V2P kdata) x \<longleftrightarrow> kdata \<le> x \<and> x < P2V PHYSTOP"
    using k by (simp add: rng_def word_le_nat_alt word_less_nat_alt u P2V_def)
  show "rng 0xFE000000 0x2000000 x \<longleftrightarrow> DEVSPACE \<le> x"
    using u32_less [of x] by (simp add: rng_def word_le_nat_alt)
qed

lemma kern_entry:
  assumes ok: "vm_ok kend s D xs" and d: "d \<in> D" and on: "pde_on (ram s) d 512"
    and al: "pg_aligned va" "pg_aligned len" "0 < len" "unat va + unat len \<le> 2151677952" "2147483648 \<le> unat va"
    and free: "\<And>x. rng va len x \<Longrightarrow> pteval (ram s) d x AND 1 = 0"
  shows "\<exists>s'. mappages kend d va len pa perm s = Inr (0, s') \<and> grows kend D d [] s xs s' xs \<and>
    pteval (ram s') d = (\<lambda>x. if rng va len x then (pa + (PTE_ADDR x - va)) OR perm OR PTE_P else pteval (ram s) d x) \<and>
    pde_on (ram s') d 512"
proof -
  have "\<And>x. rng va len x \<Longrightarrow> PDX x \<in> {512}" using al(4,5) by (auto simp: rng_def intro!: PDX_kern)
  moreover have miss: "missing (ram s) d {512} = {}" using on by (auto simp: missing_def)
  moreover have "unat va + unat len \<le> 4294967296" using al(4) by simp
  ultimately obtain s' us xs' where "mappages kend d va len pa perm s = Inr (0, s')"
    "grows kend D d us s xs s' xs'" "length us \<le> card (missing (ram s) d {512})"
    "pteval (ram s') d = (\<lambda>x. if rng va len x then (pa + (PTE_ADDR x - va)) OR perm OR PTE_P else pteval (ram s) d x)"
    using mappages_rng [OF ok d al(1-3) _ free, of "{512}" pa perm] by auto
  then show ?thesis using miss growsD(2,6) [of kend D d us s xs s' xs'] on by auto
qed

lemma setupkvm_ok:
  assumes ok: "vm_ok kend s D xs" and len: "10 \<le> length xs"
    and kd: "pg_aligned kdata" "KERNLINK < kdata" "kdata < P2V PHYSTOP"
  shows "\<exists>d s' us xs'. setupkvm kend kdata s = Inr (d, s') \<and> d \<noteq> 0 \<and> d \<notin> D \<and>
    vm_ok kend s' (insert d D) xs' \<and> xs = us @ xs' \<and> length us \<le> 10 \<and> alloc_only s s' \<and>
    tpages (ram s') d = set us \<and> pteval (ram s') d = kern_pte kdata \<and>
    (\<forall>a. PTE_ADDR a \<notin> set us \<longrightarrow> ram s' a = ram s a)"
proof -
  note K = kmap_rngs [OF kd(2,3)]
  from len obtain d ys where xs: "xs = d # ys" "9 \<le> length ys" by (cases xs) auto
  from alloc_fill [OF ok [unfolded xs(1)], of 0] obtain s1 where
    k: "kalloc kend s = Inr (d, s1)" and ok1: "vm_ok kend (s1\<lparr>ram := memset (ram s1) d 0 4096\<rparr>) D ys" and
    ao: "alloc_only s (s1\<lparr>ram := memset (ram s1) d 0 4096\<rparr>)" and ram1: "ram s1 = ram s" and
    d: "kpage kend d" "d \<notin> set ys" and
    oth: "\<forall>e \<in> D. d \<notin> tpages (ram s) e \<and> tpages (memset (ram s) d 0 4096) e = tpages (ram s) e" by blast
  let ?s0 = "s1\<lparr>ram := memset (ram s1) d 0 4096\<rparr>"
  let ?D = "insert d D"
  note E = pgdir_empty [OF d(1), of "ram s"]
  have dD: "d \<notin> D" using oth tpages_self by blast
  have ok0: "vm_ok kend ?s0 ?D ys"
    by (rule vm_ok_new_dir [OF ok1 d]) (use oth E ram1 in auto)
  have pv0: "pteval (ram ?s0) d = (\<lambda>_. 0)" and tp0: "tpages (ram ?s0) d = {d}" using E ram1 by simp_all
  have "card (missing (ram ?s0) d {512}) \<le> length ys" using card_missing [of "ram ?s0" d "{512}"] xs(2) by simp
  moreover have "\<And>x. rng 0x80000000 0x100000 x \<Longrightarrow> PDX x \<in> {512}" by (auto simp: rng_def intro!: PDX_kern)
  ultimately obtain t1 us1 ys1 where
    m1: "mappages kend d 0x80000000 0x100000 0 PTE_W ?s0 = Inr (0, t1)" and g1: "grows kend ?D d us1 ?s0 ys t1 ys1" and
    l1: "length us1 \<le> card (missing (ram ?s0) d {512})" and
    p1: "pteval (ram t1) d = (\<lambda>x. if rng 0x80000000 0x100000 x then (0 + (PTE_ADDR x - 0x80000000)) OR PTE_W OR PTE_P
       else pteval (ram ?s0) d x)" and
    o1: "\<forall>i < 1024. pde_on (ram t1) d i \<longleftrightarrow> pde_on (ram ?s0) d i \<or> (\<exists>x. rng 0x80000000 0x100000 x \<and> i = PDX x)"
    using mappages_rng [OF ok0, of d "0x80000000" "0x100000" "{512}" 0 PTE_W] pv0
    by (auto simp: pg_aligned_def)
  have on1: "pde_on (ram t1) d 512"
    using o1 by (auto simp: rng_def PDX_kern intro!: exI [of _ "0x80000000"])
  have "length us1 \<le> 1" using l1 card_missing [of "ram ?s0" d "{512}"] by simp
  then have ly1: "8 \<le> length ys1" using growsD(2) [OF g1] xs(2) by simp
  have al2: "pg_aligned (V2P kdata - 0x100000)" "pg_aligned (0x400000 - V2P kdata)"
    using kd(1) by (auto intro!: aligned_diff simp: pg_aligned_def [of 1048576] pg_aligned_def [of 4194304])
  have pos: "0 < V2P kdata - 0x100000" "0 < 0x400000 - V2P kdata"
    using K(5-8) by (simp_all add: word_less_nat_alt)
  obtain t2 where
    m2: "mappages kend d 0x80100000 (V2P kdata - 0x100000) 0x100000 0 t1 = Inr (0, t2)" and
    g2: "grows kend ?D d [] t1 ys1 t2 ys1" and
    p2: "pteval (ram t2) d = (\<lambda>x. if rng 0x80100000 (V2P kdata - 0x100000) x
       then (0x100000 + (PTE_ADDR x - 0x80100000)) OR 0 OR PTE_P else pteval (ram t1) d x)" and
    on2: "pde_on (ram t2) d 512"
    using kern_entry [OF growsD(1) [OF g1] _ on1 _ al2(1) pos(1), of "0x80100000" "0x100000" 0] K(5-8) pv0
    by (auto simp: p1 K(1,2) pg_aligned_def word_le_nat_alt word_less_nat_alt)
  obtain t3 where
    m3: "mappages kend d kdata (0x400000 - V2P kdata) (V2P kdata) PTE_W t2 = Inr (0, t3)" and
    g3: "grows kend ?D d [] t2 ys1 t3 ys1" and
    p3: "pteval (ram t3) d = (\<lambda>x. if rng kdata (0x400000 - V2P kdata) x
       then (V2P kdata + (PTE_ADDR x - kdata)) OR PTE_W OR PTE_P else pteval (ram t2) d x)"
    using kern_entry [OF growsD(1) [OF g2] _ on2 kd(1) al2(2) pos(2), of "V2P kdata" PTE_W] K(5-8) pv0
    by (auto simp: p1 p2 K(1-3) word_le_nat_alt word_less_nat_alt)
  have "card (missing (ram t3) d dev_pdxs) \<le> length ys1"
    using card_missing [of "ram t3" d dev_pdxs] card_dev_pdxs ly1 by linarith
  moreover have "\<And>x. rng 0xFE000000 0x2000000 x \<Longrightarrow> PDX x \<in> dev_pdxs" by (auto simp: rng_def intro!: PDX_dev)
  ultimately obtain t4 us4 ys4 where
    m4: "mappages kend d 0xFE000000 0x2000000 0xFE000000 PTE_W t3 = Inr (0, t4)" and
    g4: "grows kend ?D d us4 t3 ys1 t4 ys4" and l4: "length us4 \<le> card (missing (ram t3) d dev_pdxs)" and
    p4: "pteval (ram t4) d = (\<lambda>x. if rng 0xFE000000 0x2000000 x
       then (0xFE000000 + (PTE_ADDR x - 0xFE000000)) OR PTE_W OR PTE_P else pteval (ram t3) d x)"
    using mappages_rng [OF growsD(1) [OF g3], of d "0xFE000000" "0x2000000" dev_pdxs "0xFE000000" PTE_W] K(5,6) pv0
    by (auto simp: p1 p2 p3 K(1-4) pg_aligned_def word_le_nat_alt word_less_nat_alt P2V_def)
  have "(4294967296 :: u32) = 0" by (rule word_unat_eq_iff [THEN iffD2]) (simp add: unsigned_of_nat)
  then have neg: "- 0xFE000000 = (0x2000000 :: u32)" by (simp add: neg_eq_iff_add_eq_0)
  have run: "setupkvm kend kdata s = Inr (d, t4)"
    using k kpage_nonzero [OF d(1)] m1 m2 m3 m4
    by (simp add: setupkvm_def kmap_def V2P_def P2V_def neg)
  have g: "grows kend ?D d (us1 @ us4) ?s0 ys t4 ys4"
    using grows_trans [OF g1 grows_trans [OF g2 grows_trans [OF g3 g4]]] by simp
  have "length us4 \<le> 8" using l4 card_missing [of "ram t3" d dev_pdxs] card_dev_pdxs by linarith
  then have l: "length (d # us1 @ us4) \<le> 10" using \<open>length us1 \<le> 1\<close> by simp
  have tp: "tpages (ram t4) d = set (d # us1 @ us4)" using growsD(4) [OF g] tp0 by auto
  have fr: "ram t4 a = ram s a" if "PTE_ADDR a \<notin> set (d # us1 @ us4)" for a
    using growsD(5) [OF g, of a] that d(1) tp by (simp add: ram1 memset_page)
  have "pteval (ram t4) d = kern_pte kdata"
  proof
    fix x
    show "pteval (ram t4) d x = kern_pte kdata x"
      unfolding p4 p3 p2 p1 pv0 K(1-4) kern_pte_def using K(5,6)
      by (auto simp: V2P_def P2V_def word_le_nat_alt word_less_nat_alt)
  qed
  then show ?thesis
    using run kpage_nonzero [OF d(1)] dD growsD(1,2) [OF g] l tp fr alloc_only_trans [OF ao growsD(3) [OF g]] xs(1)
    by (intro exI [of _ d] exI [of _ t4] exI [of _ "d # us1 @ us4"] exI [of _ ys4]) auto
qed

end
