(* ===== verification/Xv6_Fault.thy ===== *)
theory Xv6_Fault
  imports Xv6_VmKern
begin

text \<open>
  The page fault handler (\<open>proc.c\<close>): breaking a copy-on-write sharing, and bringing a page
  back from its swap slot; and the release of swap slots when a process is reaped. \<open>cr2\<close> is
  the faulting address that the processor reports.
\<close>

section \<open>The fault handler\<close>

text \<open>A write to a shared page.\<close>

definition cow_fault :: "u32 \<Rightarrow> u32 \<Rightarrow> kstate \<Rightarrow> kstate res" where
  "cow_fault kend pte s =
     (let pa = PTE_ADDR (ld32 (ram s) pte); pgnum = pa div PGSIZE in
      rbind (check_rmap (rmap s) pgnum) (\<lambda>sole.
      if sole then Inr (poke pte (ld32 (ram s) pte OR PTE_W) s)
      else
        rbind (kalloc kend s) (\<lambda>(pg, s).
        let s = s\<lparr>ram := memmove (ram s) pg (P2V pa) PGSIZE\<rparr>;
            s = poke pte (V2P pg OR PTE_FLAGS (ld32 (ram s) pte) OR PTE_W) s
        in rbind (k_dec_sharing pte pgnum s) (\<lambda>(_, s).
           k_inc_sharing pte (V2P pg div PGSIZE) s))))"

text \<open>The loop over the processes recorded in a slot, for the indices still to do.\<close>

fun swap_in_sharers :: "nat \<Rightarrow> u32 \<Rightarrow> u32 \<Rightarrow> nat list \<Rightarrow> kstate \<Rightarrow> kstate res" where
  "swap_in_sharers slot pte pg [] s = Inr s"
| "swap_in_sharers slot pte pg (i # is) s =
     (let sl = swaparray s slot in
      if i < length (sl_proc sl) \<and> i < length (sl_pte sl) then
        if p_state (proctab s (sl_proc sl ! i)) = UNUSED then swap_in_sharers slot pte pg is s
        else
          rbind (k_inc_sharing (sl_pte sl ! i) (V2P pg div PGSIZE) s) (\<lambda>s.
          let s = upd_proc (sl_proc sl ! i) (\<lambda>p. p\<lparr>p_rss := p_rss p + PGSIZE\<rparr>) s in
          swap_in_sharers slot pte pg is (poke (sl_pte sl ! i) (ld32 (ram s) pte) s))
      else Inl (Fault ''swaparray index''))"

definition swap_in :: "u32 \<Rightarrow> u32 \<Rightarrow> kstate \<Rightarrow> kstate res" where
  "swap_in kend pte s =
     (let block_no = drop_bit 12 (ld32 (ram s) pte); slot = unat block_no in
      rbind (kalloc kend s) (\<lambda>(pg, s).
      rbind (mypid s) (\<lambda>me.
      rbind (read_page_from_disk me (8 * block_no + 2) pg (ram s) (bcache s)) (\<lambda>(m, b).
      let s = s\<lparr>ram := m, bcache := b\<rparr> in
      if slot < NSLOTS then
        let permissions = page_perm (swaparray s slot);
            s = upd_slot slot (\<lambda>sl. sl\<lparr>is_free := True\<rparr>) s;
            s = poke pte (PTE_ADDR (V2P pg) OR PTE_FLAGS permissions) s;
            s = poke pte (ld32 (ram s) pte OR PTE_A) s;
            s = poke pte (ld32 (ram s) pte AND NOT PTE_W) s;
            s = poke pte (ld32 (ram s) pte AND NOT PTE_S) s
        in rbind (swap_in_sharers slot pte pg [0..<unat (cnt (swaparray s slot))] s) (\<lambda>s.
           Inr (upd_slot slot (\<lambda>sl. sl\<lparr>cnt := 0\<rparr>) s))
      else Inl (Fault ''swaparray index'')))))"

definition handle_fage_fault :: "u32 \<Rightarrow> u32 \<Rightarrow> kstate \<Rightarrow> kstate res" where
  "handle_fage_fault kend cr2 s =
     rbind (myproc s) (\<lambda>p.
     let va = PGROUNDDOWN cr2;
         pg_dir = p_pgdir (proctab s p);
         pte = walkpgdir0 pg_dir va (ram s)
     in rbind (deref pte s) (\<lambda>v.
        rbind (if v AND PTE_P \<noteq> 0 then cow_fault kend pte s else swap_in kend pte s) (\<lambda>s.
        Inr (s\<lparr>cr3 := V2P pg_dir\<rparr>))))"

section \<open>Releasing swap slots\<close>

definition drop_slot :: "nat \<Rightarrow> kstate \<Rightarrow> kstate res" where
  "drop_slot slot s =
     (if slot < NSLOTS then
        Inr (upd_slot slot (\<lambda>sl. if cnt sl = 1 then sl\<lparr>is_free := True, cnt := 0\<rparr>
          else sl\<lparr>cnt := cnt sl - 1\<rparr>) s)
      else Inl (Fault ''swaparray index''))"

fun clean_table :: "u32 \<Rightarrow> nat list \<Rightarrow> kstate \<Rightarrow> kstate res" where
  "clean_table pgtab [] s = Inr s"
| "clean_table pgtab (j # js) s =
     (let v = ld32 (ram s) (pgtab + 4 * of_nat j) in
      rbind (if v AND PTE_S \<noteq> 0 then drop_slot (unat (drop_bit 12 (PTE_ADDR v))) s else Inr s)
        (clean_table pgtab js))"

fun clean_tables :: "u32 \<Rightarrow> nat list \<Rightarrow> kstate \<Rightarrow> kstate res" where
  "clean_tables pgdir [] s = Inr s"
| "clean_tables pgdir (i # is) s =
     (let v = ld32 (ram s) (pgdir + 4 * of_nat i) in
      rbind (if v AND PTE_P \<noteq> 0 then clean_table (P2V (PTE_ADDR v)) [0..<NPTENTRIES] s else Inr s)
        (clean_tables pgdir is))"

definition clean_proc_data :: "u32 \<Rightarrow> kstate \<Rightarrow> kstate res" where
  "clean_proc_data pgdir s = clean_tables pgdir [0..<NPDENTRIES] s"

text \<open>The source shifts the entry left, so the slot number is wrong; nothing calls it.\<close>

definition clear_swapped_page :: "u32 \<Rightarrow> kstate \<Rightarrow> kstate res" where
  "clear_swapped_page pte s =
     rbind (deref pte s) (\<lambda>v. drop_slot (unat (push_bit 12 v)) s)"

definition illop :: "u32 \<Rightarrow> kstate \<Rightarrow> kstate res" where
  "illop cr2 s =
     rbind (myproc s) (\<lambda>p.
     rbind (deref (walkpgdir0 (p_pgdir (proctab s p)) (PGROUNDDOWN cr2) (ram s)) s) (\<lambda>_.
     Inr s))"

end
