(* ===== verification/Xv6_Cow.thy ===== *)
theory Xv6_Cow
  imports Xv6_Fault
begin

text \<open>
  Copy-on-write sharing. A user page of a directory is a data page; \<open>mappers\<close> are the page
  table entries that map it. The invariant \<open>cow_inv\<close> says that data pages, page tables and
  free pages are different pages, that the reverse map records exactly the mappers of every
  page, and that a page mapped writable has one mapper only. What a process sees at an
  address is \<open>uview\<close>, and \<open>user_write\<close> is a store by the process as the paging hardware
  performs it.
\<close>

section \<open>Flags of an entry\<close>

lemma pbit: "(v :: u32) AND 1 \<noteq> 0 \<longleftrightarrow> bit v 0"
  using and_exp_eq [of v 0] by simp

lemma pbit0: "(v :: u32) AND 1 = 0 \<longleftrightarrow> \<not> bit v 0"
  using pbit [of v] by blast

lemma bit_lits [simp]:
  "\<not> bit (2 :: u32) 0" "bit (2 :: u32) (Suc 0)" "bit (1 :: u32) 0" "\<not> bit (1 :: u32) (Suc 0)"
  by (simp_all add: bit_simps)

lemma PTE_FLAGS_bits: "bit (PTE_FLAGS v) n \<longleftrightarrow> bit v n \<and> n < 12"
  unfolding PTE_FLAGS_def mask12 by (auto simp: bit_simps)

lemma PTE_ADDR_bits: "bit (PTE_ADDR v) n \<longleftrightarrow> bit v n \<and> 12 \<le> n"
proof (cases "n < 32")
  case True
  then show ?thesis unfolding PTE_ADDR_def mask12 by (auto simp: bit_simps)
next
  case False
  then show ?thesis using bit_imp_le_length [of "PTE_ADDR v" n] bit_imp_le_length [of v n] by auto
qed

lemma clear_W:
  "PTE_ADDR (v AND NOT PTE_W) = PTE_ADDR v" "bit (v AND NOT PTE_W) 0 = bit v 0" "\<not> bit (v AND NOT PTE_W) 1"
proof -
  show "PTE_ADDR (v AND NOT PTE_W) = PTE_ADDR v" by (rule PTE_ADDR_and_not) (simp add: PTE_ADDR_def)
qed (simp_all add: bit_and_iff bit_not_iff)

lemma set_W:
  "PTE_ADDR (v OR PTE_W) = PTE_ADDR v" "bit (v OR PTE_W) 0 = bit v 0" "bit (v OR PTE_W) 1"
proof -
  show "PTE_ADDR (v OR PTE_W) = PTE_ADDR v" unfolding PTE_ADDR_or by (simp add: PTE_ADDR_def)
qed (simp_all add: bit_or_iff)

lemma PTE_ADDR_FLAGS [simp]: "PTE_ADDR (PTE_FLAGS v) = 0"
  by (rule bit_word_eqI) (simp add: PTE_ADDR_bits PTE_FLAGS_bits)

lemma fresh_pte:
  assumes "pg_aligned x"
  shows "PTE_ADDR (V2P x OR PTE_FLAGS v OR PTE_W) = V2P x" "bit (V2P x OR PTE_FLAGS v OR PTE_W) 0 = bit v 0"
    "bit (V2P x OR PTE_FLAGS v OR PTE_W) 1"
proof -
  have a: "PTE_ADDR (V2P x) = V2P x" using assms by (simp add: PTE_ADDR_of_aligned)
  then show "PTE_ADDR (V2P x OR PTE_FLAGS v OR PTE_W) = V2P x"
    unfolding PTE_ADDR_or by simp (simp add: PTE_ADDR_def)
  have "\<not> bit (V2P x) 0" using a PTE_ADDR_bits [of "V2P x" 0] by simp
  then show "bit (V2P x OR PTE_FLAGS v OR PTE_W) 0 = bit v 0" by (simp add: bit_or_iff PTE_FLAGS_bits)
qed (simp add: bit_or_iff)

section \<open>User mappings\<close>

definition umap :: "memory \<Rightarrow> u32 \<Rightarrow> u32 \<Rightarrow> bool" where
  "umap m d va \<longleftrightarrow> va < KERNBASE \<and> pteval m d va AND PTE_P \<noteq> 0"

definition upage :: "memory \<Rightarrow> u32 \<Rightarrow> u32 \<Rightarrow> u32" where
  "upage m d va = P2V (PTE_ADDR (pteval m d va))"

definition mappers :: "memory \<Rightarrow> u32 set \<Rightarrow> u32 \<Rightarrow> u32 set" where
  "mappers m D p = {w. \<exists>d va. d \<in> D \<and> umap m d va \<and> upage m d va = p \<and> w = walkpgdir0 d va m}"

definition uview :: "memory \<Rightarrow> u32 \<Rightarrow> u32 \<Rightarrow> u8 option" where
  "uview m d va = (if umap m d va then Some (m (upage m d va + PTE_FLAGS va)) else None)"

definition user_write :: "u32 \<Rightarrow> u32 \<Rightarrow> u8 \<Rightarrow> memory \<Rightarrow> memory option" where
  "user_write d va b m =
     (let v = pteval m d va in
      if umap m d va \<and> v AND PTE_U \<noteq> 0 \<and> v AND PTE_W \<noteq> 0
      then Some (m(upage m d va + PTE_FLAGS va := b)) else None)"

definition pgno :: "u32 \<Rightarrow> u32" where
  "pgno p = V2P p div PGSIZE"

lemma umap_on: "umap m d va \<Longrightarrow> pde_on m d (PDX va)"
  by (auto simp: umap_def pteval_def split: if_splits)

lemma umap_page: "umap m d va \<Longrightarrow> umap m d (PTE_ADDR va)"
proof -
  assume u: "umap m d va"
  have "unat (PTE_ADDR va) \<le> unat va" by (rule PTE_ADDR_le(1))
  with u show ?thesis by (auto simp: umap_def word_less_nat_alt)
qed

lemma walk_page [simp]: "walkpgdir0 d (PTE_ADDR va) m = walkpgdir0 d va m"
  by (simp add: walkpgdir0_eq)

lemma upage_page [simp]: "upage m d (PTE_ADDR va) = upage m d va"
  by (simp add: upage_def)

lemma pgno_less: "kpage kend p \<Longrightarrow> pgno p < NPAGES"
  by (auto simp: pgno_def kpage_def word_less_nat_alt unat_div_distrib div_less_iff_less_mult)

lemma pgno_inj:
  assumes "kpage kend p" "kpage kend q" "pgno p = pgno q"
  shows "p = q"
proof -
  have "pg_aligned (V2P p)" "pg_aligned (V2P q)" using assms(1,2) by simp_all
  then obtain i j where "unat (V2P p) = i * 4096" "unat (V2P q) = j * 4096" using aligned_mult by blast
  moreover have "unat (V2P p div 4096) = unat (V2P q div 4096)" using assms(3) by (simp add: pgno_def)
  ultimately have "V2P p = V2P q" by (simp add: unat_div_distrib word_unat_eq_iff)
  then show ?thesis by (simp add: V2P_def)
qed

text \<open>Different mappings have different entries.\<close>

lemma walk_inj2:
  assumes ok: "vm_ok kend s D xs" and d: "d \<in> D" "e \<in> D"
    and on: "pde_on (ram s) d (PDX va)" "pde_on (ram s) e (PDX vb)"
    and eq: "walkpgdir0 d va (ram s) = walkpgdir0 e vb (ram s)"
  shows "d = e" and "PTE_ADDR va = PTE_ADDR vb"
proof -
  have "ptab (ram s) d (PDX va) = ptab (ram s) e (PDX vb)"
    using walk_props(3) [OF vm_okD(2) [OF ok d(1)] on(1)] walk_props(3) [OF vm_okD(2) [OF ok d(2)] on(2)] eq by simp
  then show "d = e"
    using vm_okD(4) [OF ok d] ptab_tpages [OF on(1)] ptab_tpages [OF on(2)] by auto
  then show "PTE_ADDR va = PTE_ADDR vb" using walk_inj [OF vm_okD(2) [OF ok d(1)] on(1), of vb] on(2) eq by simp
qed

lemma page_of_user: "pg_aligned i \<Longrightarrow> i < KERNBASE \<Longrightarrow> PTE_ADDR x = i \<Longrightarrow> x < KERNBASE"
proof -
  assume "pg_aligned i" "i < KERNBASE" "PTE_ADDR x = i"
  then have "unat i + 4096 \<le> 2147483648"
    using aligned_cases [of i "0x80000000"] by (auto simp: word_less_nat_alt pg_aligned_def)
  then show ?thesis using PTE_ADDR_le [of x] \<open>PTE_ADDR x = i\<close> by (simp add: word_less_nat_alt)
qed

lemma mapperI: "d \<in> D \<Longrightarrow> umap m d va \<Longrightarrow> upage m d va = p \<Longrightarrow> walkpgdir0 d va m \<in> mappers m D p"
  by (auto simp: mappers_def)

lemma mapper_unique:
  assumes ok: "vm_ok kend s D xs" and d: "d \<in> D" and on: "pde_on (ram s) d (PDX i)"
    and w: "walkpgdir0 d i (ram s) \<in> mappers (ram s) D p"
  shows "p = upage (ram s) d i" and "umap (ram s) d (PTE_ADDR i)"
proof -
  from w obtain e x where e: "e \<in> D" "umap (ram s) e x" "upage (ram s) e x = p"
    "walkpgdir0 d i (ram s) = walkpgdir0 e x (ram s)" unfolding mappers_def by blast
  note I = walk_inj2 [OF ok d e(1) on umap_on [OF e(2)] e(4)]
  show "p = upage (ram s) d i" using e(3) I upage_page [of "ram s" d x] upage_page [of "ram s" d i] by simp
  show "umap (ram s) d (PTE_ADDR i)" using umap_page [OF e(2)] I by simp
qed

lemma umap_same_page:
  "PTE_ADDR x = i \<Longrightarrow> i < KERNBASE \<Longrightarrow> umap m d x = umap m d i"
  using page_of_user [of i x] PTE_ADDR_aligned [of x] pteval_page [of m d x] by (auto simp: umap_def)

section \<open>The invariant\<close>

definition cow_inv :: "u32 \<Rightarrow> kstate \<Rightarrow> u32 set \<Rightarrow> u32 list \<Rightarrow> bool" where
  "cow_inv kend s D xs \<longleftrightarrow> vm_ok kend s D xs \<and>
     (\<forall>d \<in> D. \<forall>va. umap (ram s) d va \<longrightarrow> kpage kend (upage (ram s) d va) \<and> upage (ram s) d va \<notin> set xs \<and>
        (\<forall>e \<in> D. upage (ram s) d va \<notin> tpages (ram s) e)) \<and>
     (\<forall>p. kpage kend p \<longrightarrow> rmap_ok (rmap s (pgno p)) \<and> rmap_refs (rmap s (pgno p)) = mset_set (mappers (ram s) D p)) \<and>
     (\<forall>d \<in> D. \<forall>va. umap (ram s) d va \<longrightarrow> bit (pteval (ram s) d va) 1 \<longrightarrow>
        mappers (ram s) D (upage (ram s) d va) = {walkpgdir0 d va (ram s)})"

lemma cow_invD:
  assumes "cow_inv kend s D xs"
  shows "vm_ok kend s D xs"
    and "d \<in> D \<Longrightarrow> umap (ram s) d va \<Longrightarrow> kpage kend (upage (ram s) d va)"
    and "d \<in> D \<Longrightarrow> umap (ram s) d va \<Longrightarrow> upage (ram s) d va \<notin> set xs"
    and "d \<in> D \<Longrightarrow> umap (ram s) d va \<Longrightarrow> e \<in> D \<Longrightarrow> upage (ram s) d va \<notin> tpages (ram s) e"
    and "kpage kend p \<Longrightarrow> rmap_ok (rmap s (pgno p))"
    and "kpage kend p \<Longrightarrow> rmap_refs (rmap s (pgno p)) = mset_set (mappers (ram s) D p)"
    and "d \<in> D \<Longrightarrow> umap (ram s) d va \<Longrightarrow> bit (pteval (ram s) d va) 1 \<Longrightarrow>
      mappers (ram s) D (upage (ram s) d va) = {walkpgdir0 d va (ram s)}"
  using assms by (simp_all add: cow_inv_def)

text \<open>A write through a writable mapping is seen at that address of that process only.\<close>

lemma page_offset:
  "pg_aligned p \<Longrightarrow> PTE_ADDR (p + PTE_FLAGS va) = p"
  by (rule PTE_ADDR_add) (simp_all add: word_less_nat_alt unat_PTE_FLAGS)

lemma page_offset_inj:
  assumes "pg_aligned p" "pg_aligned q"
  shows "p + PTE_FLAGS x = q + PTE_FLAGS y \<longleftrightarrow> p = q \<and> PTE_FLAGS x = PTE_FLAGS y"
  using page_offset [OF assms(1), of x] page_offset [OF assms(2), of y] by auto

lemma addr_split: "x = y \<longleftrightarrow> PTE_ADDR x = PTE_ADDR y \<and> PTE_FLAGS x = PTE_FLAGS y"
proof -
  have "x = PTE_ADDR x OR PTE_FLAGS x" for x
    unfolding PTE_ADDR_def PTE_FLAGS_def by (simp flip: bit.conj_disj_distrib)
  then show ?thesis by metis
qed

lemma data_write_frame:
  assumes inv: "cow_inv kend s D xs" and p: "d \<in> D" "umap (ram s) d va"
    and m': "m' = (ram s)(upage (ram s) d va + PTE_FLAGS va := b)" and e: "e \<in> D"
  shows "pteval m' e = pteval (ram s) e" "tpages m' e = tpages (ram s) e"
    "walkpgdir0 e x m' = walkpgdir0 e x (ram s)" "pgdir_ok kend m' e"
proof -
  have k: "pg_aligned (upage (ram s) d va)" using cow_invD(2) [OF inv p] by simp
  have "m' a = ram s a" if "PTE_ADDR a \<in> tpages (ram s) e" for a
    using that cow_invD(4) [OF inv p e] page_offset [OF k, of va] by (auto simp: m')
  from pgdir_frame [OF vm_okD(2) [OF cow_invD(1) [OF inv] e] this]
  show "pteval m' e = pteval (ram s) e" "tpages m' e = tpages (ram s) e"
    "walkpgdir0 e x m' = walkpgdir0 e x (ram s)" "pgdir_ok kend m' e" by blast+
qed

lemma user_write_isolated:
  assumes inv: "cow_inv kend s D xs" and d: "d \<in> D" and w: "user_write d va b (ram s) = Some m'"
  shows "cow_inv kend (s\<lparr>ram := m'\<rparr>) D xs"
    and "e \<in> D \<Longrightarrow> uview m' e x = (if e = d \<and> x = va then Some b else uview (ram s) e x)"
proof -
  have u: "umap (ram s) d va" and W: "bit (pteval (ram s) d va) 1"
    and m': "m' = (ram s)(upage (ram s) d va + PTE_FLAGS va := b)"
    using w by (auto simp: user_write_def Let_def split: if_splits)
  note F = data_write_frame [OF inv d u m']
  have k: "pg_aligned (upage (ram s) d va)" using cow_invD(2) [OF inv d u] by simp
  have um: "umap m' e x = umap (ram s) e x" "upage m' e x = upage (ram s) e x" if "e \<in> D" for e x
    using F(1) [OF that] by (simp_all add: umap_def upage_def)
  have mp: "mappers m' D p = mappers (ram s) D p" for p
    unfolding mappers_def using um F(3) by (intro Collect_cong ex_cong1) auto
  have "free_ok kend (s\<lparr>ram := m'\<rparr>) xs"
    by (rule free_ok_frame [OF vm_okD(1) [OF cow_invD(1) [OF inv]]])
      (use cow_invD(3) [OF inv d u] page_offset [OF k, of va] in \<open>auto simp: m'\<close>)
  then have "vm_ok kend (s\<lparr>ram := m'\<rparr>) D xs"
    using cow_invD(1) [OF inv] F(2,4) by (simp add: vm_ok_def)
  then show "cow_inv kend (s\<lparr>ram := m'\<rparr>) D xs"
    using inv um mp F(1-3) by (simp add: cow_inv_def)
  show "uview m' e x = (if e = d \<and> x = va then Some b else uview (ram s) e x)" if e: "e \<in> D"
  proof (cases "umap (ram s) e x")
    case False
    then show ?thesis using u um [OF e] by (auto simp: uview_def)
  next
    case True
    have ke: "pg_aligned (upage (ram s) e x)" using cow_invD(2) [OF inv e True] by simp
    have "upage (ram s) e x + PTE_FLAGS x = upage (ram s) d va + PTE_FLAGS va \<longleftrightarrow> e = d \<and> x = va"
    proof
      assume "upage (ram s) e x + PTE_FLAGS x = upage (ram s) d va + PTE_FLAGS va"
      then have *: "upage (ram s) e x = upage (ram s) d va" "PTE_FLAGS x = PTE_FLAGS va"
        using page_offset_inj [OF ke k] by simp_all
      have "walkpgdir0 e x (ram s) \<in> mappers (ram s) D (upage (ram s) d va)"
        using e True * by (auto simp: mappers_def)
      then have "walkpgdir0 e x (ram s) = walkpgdir0 d va (ram s)" using cow_invD(7) [OF inv d u W] by simp
      from walk_inj2 [OF cow_invD(1) [OF inv] e d umap_on [OF True] umap_on [OF u] this] *(2)
      show "e = d \<and> x = va" using addr_split [of x va] by simp
    qed auto
    then show ?thesis using True um [OF e] by (auto simp: uview_def m')
  qed
qed

section \<open>Changing one entry\<close>

text \<open>The state \<open>t\<close> differs from \<open>s\<close>, as far as user mappings go, in the entry of one page
  only, which becomes \<open>v\<close>; \<open>w\<close> is the address of that entry.\<close>

definition entry_change :: "kstate \<Rightarrow> kstate \<Rightarrow> u32 set \<Rightarrow> u32 \<Rightarrow> u32 \<Rightarrow> u32 \<Rightarrow> bool" where
  "entry_change s t D d i v \<longleftrightarrow> d \<in> D \<and> pg_aligned i \<and> i < KERNBASE \<and> pde_on (ram t) d (PDX i) \<and>
     (\<forall>e \<in> D. \<forall>x. x < KERNBASE \<longrightarrow> pteval (ram t) e x = (if e = d \<and> PTE_ADDR x = i then v else pteval (ram s) e x)) \<and>
     (\<forall>e \<in> D. \<forall>x. umap (ram s) e x \<longrightarrow> walkpgdir0 e x (ram t) = walkpgdir0 e x (ram s) \<and> pde_on (ram t) e (PDX x))"

lemma entry_changeD:
  assumes "entry_change s t D d i v"
  shows "d \<in> D" "pg_aligned i" "i < KERNBASE" "pde_on (ram t) d (PDX i)"
    "e \<in> D \<Longrightarrow> x < KERNBASE \<Longrightarrow> pteval (ram t) e x = (if e = d \<and> PTE_ADDR x = i then v else pteval (ram s) e x)"
    "e \<in> D \<Longrightarrow> umap (ram s) e x \<Longrightarrow> walkpgdir0 e x (ram t) = walkpgdir0 e x (ram s)"
    "e \<in> D \<Longrightarrow> umap (ram s) e x \<Longrightarrow> pde_on (ram t) e (PDX x)"
  using assms by (simp_all add: entry_change_def)

lemma entry_change_umap:
  assumes c: "entry_change s t D d i v" and e: "e \<in> D"
  shows "umap (ram t) e x \<longleftrightarrow> (if e = d \<and> PTE_ADDR x = i then bit v 0 else umap (ram s) e x)"
    and "umap (ram t) e x \<Longrightarrow> upage (ram t) e x = (if e = d \<and> PTE_ADDR x = i then P2V (PTE_ADDR v) else upage (ram s) e x)"
proof -
  note C = entry_changeD [OF c]
  show "umap (ram t) e x \<longleftrightarrow> (if e = d \<and> PTE_ADDR x = i then bit v 0 else umap (ram s) e x)"
    using C(5) [OF e, of x] page_of_user [OF C(2,3), of x] by (auto simp: umap_def pbit)
  show "umap (ram t) e x \<Longrightarrow> upage (ram t) e x = (if e = d \<and> PTE_ADDR x = i then P2V (PTE_ADDR v) else upage (ram s) e x)"
    using C(5) [OF e, of x] by (auto simp: umap_def upage_def)
qed

lemma entry_change_mappers:
  assumes ok: "vm_ok kend t D ys" and c: "entry_change s t D d i v"
  defines "w \<equiv> walkpgdir0 d i (ram t)"
  shows "mappers (ram t) D p = (mappers (ram s) D p - {w}) \<union> (if bit v 0 \<and> P2V (PTE_ADDR v) = p then {w} else {})"
proof -
  note C = entry_changeD [OF c]
  have i: "PTE_ADDR i = i" using C(2) by (rule PTE_ADDR_of_aligned)
  have other: "walkpgdir0 e x (ram s) \<noteq> w \<longleftrightarrow> \<not> (e = d \<and> PTE_ADDR x = i)" if "e \<in> D" "umap (ram s) e x" for e x
  proof -
    have "walkpgdir0 e x (ram t) = w \<longleftrightarrow> e = d \<and> PTE_ADDR x = PTE_ADDR i"
      using walk_inj2 [OF ok that(1) C(1) C(7) [OF that] C(4)] walk_page [of d x "ram t"] walk_page [of d i "ram t"]
      unfolding w_def by metis
    then show ?thesis using C(6) [OF that] i by simp
  qed
  show ?thesis
  proof (intro equalityI subsetI)
    fix y
    assume "y \<in> mappers (ram t) D p"
    then obtain e x where y: "e \<in> D" "umap (ram t) e x" "upage (ram t) e x = p" "y = walkpgdir0 e x (ram t)"
      by (auto simp: mappers_def)
    show "y \<in> (mappers (ram s) D p - {w}) \<union> (if bit v 0 \<and> P2V (PTE_ADDR v) = p then {w} else {})"
    proof (cases "e = d \<and> PTE_ADDR x = i")
      case True
      then have "y = w" using y(4) walk_page [of d x "ram t"] by (simp add: w_def)
      then show ?thesis using True y entry_change_umap [OF c y(1), of x] by simp
    next
      case False
      then have u: "umap (ram s) e x" and p: "upage (ram s) e x = p"
        using entry_change_umap [OF c y(1), of x] y(2,3) by auto
      then have "y = walkpgdir0 e x (ram s)" "y \<noteq> w" using C(6) [OF y(1) u] other [OF y(1) u] False y(4) by auto
      then show ?thesis using u p y(1) by (auto simp: mappers_def)
    qed
  next
    fix y
    assume "y \<in> (mappers (ram s) D p - {w}) \<union> (if bit v 0 \<and> P2V (PTE_ADDR v) = p then {w} else {})"
    then consider (old) e x where "e \<in> D" "umap (ram s) e x" "upage (ram s) e x = p" "y = walkpgdir0 e x (ram s)" "y \<noteq> w"
      | (new) "y = w" "bit v 0" "P2V (PTE_ADDR v) = p"
      by (auto simp: mappers_def split: if_splits)
    then show "y \<in> mappers (ram t) D p"
    proof cases
      case old
      then have "umap (ram t) e x" "upage (ram t) e x = p" "y = walkpgdir0 e x (ram t)"
        using other [OF old(1,2)] entry_change_umap [OF c old(1), of x] C(6) [OF old(1,2)] by auto
      then show ?thesis using old(1) by (auto simp: mappers_def)
    next
      case new
      then have "umap (ram t) d i" "upage (ram t) d i = p" using entry_change_umap [OF c C(1), of i] i by auto
      then show ?thesis using C(1) new(1) unfolding w_def mappers_def by blast
    qed
  qed
qed

lemma cow_inv_entry:
  assumes inv: "cow_inv kend s D xs" and ok: "vm_ok kend t D ys" and c: "entry_change s t D d i v"
    and sub: "set ys \<subseteq> set xs" and tp: "\<And>e. e \<in> D \<Longrightarrow> tpages (ram t) e \<subseteq> tpages (ram s) e \<union> set xs"
    and new: "bit v 0 \<Longrightarrow> kpage kend (P2V (PTE_ADDR v)) \<and> P2V (PTE_ADDR v) \<notin> set ys \<and>
      (\<forall>e \<in> D. P2V (PTE_ADDR v) \<notin> tpages (ram t) e)"
    and refs: "\<And>p. kpage kend p \<Longrightarrow> rmap_ok (rmap t (pgno p)) \<and>
      rmap_refs (rmap t (pgno p)) = mset_set (mappers (ram t) D p)"
    and sole: "bit v 0 \<Longrightarrow> bit v 1 \<Longrightarrow> mappers (ram t) D (P2V (PTE_ADDR v)) = {walkpgdir0 d i (ram t)}"
    and quiet: "\<And>e x. bit v 0 \<Longrightarrow> e \<in> D \<Longrightarrow> umap (ram s) e x \<Longrightarrow> \<not> (e = d \<and> PTE_ADDR x = i) \<Longrightarrow>
      bit (pteval (ram s) e x) 1 \<Longrightarrow> upage (ram s) e x \<noteq> P2V (PTE_ADDR v)"
  shows "cow_inv kend t D ys"
proof -
  note C = entry_changeD [OF c]
  have data: "kpage kend (upage (ram t) e x) \<and> upage (ram t) e x \<notin> set ys \<and> (\<forall>f \<in> D. upage (ram t) e x \<notin> tpages (ram t) f)"
    if "e \<in> D" "umap (ram t) e x" for e x
  proof (cases "e = d \<and> PTE_ADDR x = i")
    case True
    then show ?thesis using that entry_change_umap [OF c that(1), of x] new by simp
  next
    case False
    then have u: "umap (ram s) e x" "upage (ram t) e x = upage (ram s) e x"
      using that entry_change_umap [OF c that(1), of x] by auto
    show ?thesis
      using cow_invD(2-4) [OF inv that(1) u(1)] u(2) sub tp by auto
  qed
  have W: "mappers (ram t) D (upage (ram t) e x) = {walkpgdir0 e x (ram t)}"
    if "e \<in> D" "umap (ram t) e x" "bit (pteval (ram t) e x) 1" for e x
  proof (cases "e = d \<and> PTE_ADDR x = i")
    case True
    have "x < KERNBASE" using that(2) by (simp add: umap_def)
    then have "bit v 0" "bit v 1" "upage (ram t) e x = P2V (PTE_ADDR v)"
      using that True entry_change_umap [OF c that(1), of x] C(5) [OF that(1), of x] by auto
    then show ?thesis using sole True walk_page [of d x "ram t"] by simp
  next
    case False
    have "x < KERNBASE" using that(2) by (simp add: umap_def)
    then have u: "umap (ram s) e x" "upage (ram t) e x = upage (ram s) e x" "bit (pteval (ram s) e x) 1"
      using that False entry_change_umap [OF c that(1), of x] C(5) [OF that(1), of x] by auto
    have m: "mappers (ram s) D (upage (ram s) e x) = {walkpgdir0 e x (ram s)}"
      by (rule cow_invD(7) [OF inv that(1) u(1,3)])
    have ne: "walkpgdir0 e x (ram t) \<noteq> walkpgdir0 d i (ram t)"
      using walk_inj2 [OF ok that(1) C(1) C(7) [OF that(1) u(1)] C(4)] False PTE_ADDR_of_aligned [OF C(2)] by metis
    have "\<not> (bit v 0 \<and> P2V (PTE_ADDR v) = upage (ram s) e x)"
      using quiet [OF _ that(1) u(1) False u(3)] by auto
    then show ?thesis
      unfolding entry_change_mappers [OF ok c] u(2) m using ne C(6) [OF that(1) u(1)] by auto
  qed
  show ?thesis unfolding cow_inv_def using ok data refs W by blast
qed

lemma entry_change_poke:
  assumes ok: "vm_ok kend s D xs" and d: "d \<in> D" and i: "pg_aligned i" "i < KERNBASE"
    and on: "pde_on (ram s) d (PDX i)"
  shows "entry_change s (poke (walkpgdir0 d i (ram s)) v s) D d i v"
proof -
  note P = vm_ok_poke [OF ok d on, where v = v]
  have al: "PTE_ADDR i = i" using i(1) by (rule PTE_ADDR_of_aligned)
  have on': "pde_on (ram (poke (walkpgdir0 d i (ram s)) v s)) e (PDX x) = pde_on (ram s) e (PDX x)" if "e \<in> D" for e x
    using P(5) [OF that] by simp
  have "pteval (ram (poke (walkpgdir0 d i (ram s)) v s)) e x = (if e = d \<and> PTE_ADDR x = i then v else pteval (ram s) e x)"
    if "e \<in> D" for e x using P(2) P(3) [OF that] al by (cases "e = d") auto
  then show ?thesis using d i on on' P(6) umap_on unfolding entry_change_def by auto
qed

text \<open>Data pages keep their contents, so the views do not change.\<close>

lemma uview_same:
  assumes "umap m' e x = umap m e x" and "umap m e x \<Longrightarrow> upage m' e x = upage m e x"
    and "umap m e x \<Longrightarrow> m' (upage m e x + PTE_FLAGS x) = m (upage m e x + PTE_FLAGS x)"
  shows "uview m' e x = uview m e x"
  using assms by (simp add: uview_def)

section \<open>The copy-on-write fault\<close>

lemma mappers_finite [simp]: "finite (mappers m D p)"
  by simp

lemma mset_set_single: "finite A \<Longrightarrow> mset_set A = {#w#} \<Longrightarrow> A = {w}"
  by (metis finite_set_mset_mset_set set_mset_single)

text \<open>Changing the flags of an entry; the writable flag only for a page with one mapper.\<close>

lemma cow_reflag:
  assumes inv: "cow_inv kend s D xs" and d: "d \<in> D" and u: "umap (ram s) d i" and i: "pg_aligned i"
    and v: "bit v 0" "PTE_ADDR v = PTE_ADDR (pteval (ram s) d i)"
    and W: "bit v 1 \<Longrightarrow> mappers (ram s) D (upage (ram s) d i) = {walkpgdir0 d i (ram s)}"
  defines "t \<equiv> poke (walkpgdir0 d i (ram s)) v s"
  shows "cow_inv kend t D xs" and "e \<in> D \<Longrightarrow> uview (ram t) e x = uview (ram s) e x"
    and "pteval (ram t) d i = v" and "mappers (ram t) D p = mappers (ram s) D p"
    and "entry_change s t D d i v"
proof -
  note ok = cow_invD(1) [OF inv] and on = umap_on [OF u]
  show c: "entry_change s t D d i v"
    unfolding t_def using u by (intro entry_change_poke [OF ok d i _ on]) (simp add: umap_def)
  note P = vm_ok_poke [OF ok d on, where v = v, folded t_def]
  have pg: "P2V (PTE_ADDR v) = upage (ram s) d i" unfolding v(2) upage_def ..
  have w: "walkpgdir0 d i (ram t) = walkpgdir0 d i (ram s)" by (rule P(6) [OF d])
  show mp: "mappers (ram t) D p = mappers (ram s) D p" for p
  proof (cases "p = upage (ram s) d i")
    case True
    then show ?thesis using entry_change_mappers [OF P(1) c, of p] v(1) pg mapperI [OF d u refl] w by auto
  next
    case False
    then have "walkpgdir0 d i (ram s) \<notin> mappers (ram s) D p" using mapper_unique [OF ok d on] by blast
    then show ?thesis using entry_change_mappers [OF P(1) c, of p] False pg w by auto
  qed
  have rm: "rmap t = rmap s" by (simp add: t_def)
  show "cow_inv kend t D xs"
  proof (rule cow_inv_entry [OF inv P(1) c])
    show "tpages (ram t) e \<subseteq> tpages (ram s) e \<union> set xs" if "e \<in> D" for e using P(4) [OF that] by simp
    show "kpage kend (P2V (PTE_ADDR v)) \<and> P2V (PTE_ADDR v) \<notin> set xs \<and> (\<forall>e \<in> D. P2V (PTE_ADDR v) \<notin> tpages (ram t) e)"
      unfolding pg using cow_invD(2-4) [OF inv d u] P(4) by simp
    show "rmap_ok (rmap t (pgno p)) \<and> rmap_refs (rmap t (pgno p)) = mset_set (mappers (ram t) D p)"
      if "kpage kend p" for p using cow_invD(5,6) [OF inv that] rm mp by simp
    show "mappers (ram t) D (P2V (PTE_ADDR v)) = {walkpgdir0 d i (ram t)}" if "bit v 1"
      unfolding pg mp w by (rule W [OF that])
    fix e x
    assume e: "e \<in> D" "umap (ram s) e x" "\<not> (e = d \<and> PTE_ADDR x = i)" "bit (pteval (ram s) e x) 1"
    show "upage (ram s) e x \<noteq> P2V (PTE_ADDR v)"
    proof
      assume "upage (ram s) e x = P2V (PTE_ADDR v)"
      then have "upage (ram s) d i = upage (ram s) e x" by (simp only: pg)
      from mapperI [OF d u this] have "walkpgdir0 d i (ram s) = walkpgdir0 e x (ram s)"
        unfolding cow_invD(7) [OF inv e(1,2,4)] by (rule singletonD)
      from walk_inj2 [OF ok d e(1) on umap_on [OF e(2)] this] show False
        using e(3) PTE_ADDR_of_aligned [OF i] by simp
    qed
  qed simp
  show "pteval (ram t) d i = v" unfolding P(2) by simp
  show "uview (ram t) e x = uview (ram s) e x" if e: "e \<in> D"
  proof (rule uview_same)
    show um: "umap (ram t) e x = umap (ram s) e x"
      using entry_change_umap(1) [OF c e, of x] v(1) umap_same_page [of x i "ram s" d] u by (auto simp: umap_def [of _ d i])
    show "upage (ram t) e x = upage (ram s) e x" if "umap (ram s) e x"
      using entry_change_umap(2) [OF c e, of x] that um pg upage_page [of "ram s" d x] by (auto split: if_splits)
    show "ram t (upage (ram s) e x + PTE_FLAGS x) = ram s (upage (ram s) e x + PTE_FLAGS x)" if "umap (ram s) e x"
      using cow_invD(2,4) [OF inv e that] d by (intro P(7)) (simp add: page_offset)
  qed
qed

text \<open>A reference count of 1 is the count of a sole mapper.\<close>

lemma refcount_1_sole:
  assumes inv: "cow_inv kend s D xs" and d: "d \<in> D" and u: "umap (ram s) d i"
    and ref: "refcount (rmap s (pgno (upage (ram s) d i))) = 1"
  shows "mappers (ram s) D (upage (ram s) d i) = {walkpgdir0 d i (ram s)}"
proof -
  have k: "kpage kend (upage (ram s) d i)" by (rule cow_invD(2) [OF inv d u])
  have "mset_set (mappers (ram s) D (upage (ram s) d i)) = rmap_refs (rmap s (pgno (upage (ram s) d i)))"
    using cow_invD(6) [OF inv k] by simp
  moreover obtain q where "rmap_refs (rmap s (pgno (upage (ram s) d i))) = {#q#}"
    using rmap.count_1_iff [OF cow_invD(5) [OF inv k]] ref by blast
  ultimately show ?thesis
    using mset_set_single [OF mappers_finite] mapperI [OF d u refl] by (metis singletonD)
qed

lemma cow_fault_sole:
  assumes inv: "cow_inv kend s D xs" and d: "d \<in> D" and u: "umap (ram s) d i" and i: "pg_aligned i"
    and ref: "refcount (rmap s (pgno (upage (ram s) d i))) = 1"
  shows "\<exists>t. cow_fault kend (walkpgdir0 d i (ram s)) s = Inr t \<and> cow_inv kend t D xs \<and>
    (\<forall>e \<in> D. \<forall>va. uview (ram t) e va = uview (ram s) e va) \<and>
    pteval (ram t) d i = pteval (ram s) d i OR PTE_W \<and> proctab t = proctab s \<and> curproc t = curproc s"
proof -
  let ?v = "pteval (ram s) d i OR PTE_W"
  have v: "bit ?v 0" "PTE_ADDR ?v = PTE_ADDR (pteval (ram s) d i)"
    using u set_W(1,2) [of "pteval (ram s) d i"] by (simp_all add: umap_def pbit)
  note R = cow_reflag [OF inv d u i v refcount_1_sole [OF inv d u ref]]
  have "ld32 (ram s) (walkpgdir0 d i (ram s)) = pteval (ram s) d i"
    using walk_props(5) [OF vm_okD(2) [OF cow_invD(1) [OF inv] d] umap_on [OF u]] .
  moreover have "PTE_ADDR (pteval (ram s) d i) div 4096 = pgno (upage (ram s) d i)" by (simp add: pgno_def upage_def)
  moreover have "check_rmap (rmap s) (pgno (upage (ram s) d i)) = Inr True"
    using ref pgno_less [OF cow_invD(2) [OF inv d u]] by (simp add: check_rmap_def)
  ultimately have "cow_fault kend (walkpgdir0 d i (ram s)) s = Inr (poke (walkpgdir0 d i (ram s)) ?v s)"
    by (simp add: cow_fault_def Let_def)
  then show ?thesis using R(1-3) by auto
qed

lemma kpage_unat: "kpage kend p \<Longrightarrow> unat p < 2151677952"
proof -
  assume "kpage kend p"
  then have "unat (p - 0x80000000) < 4194304" by (simp add: kpage_def V2P_def word_less_nat_alt)
  then show ?thesis using unat_sub_cases [of p "0x80000000"] by (cases "2147483648 \<le> unat p") simp_all
qed

lemma memmove_page:
  assumes "kpage kend x" "kpage kend p"
  shows "memmove m x p 4096 = (\<lambda>a. if PTE_ADDR a = x then m (p + (a - x)) else m a)"
  using kpage_unat [OF assms(1)] kpage_unat [OF assms(2)] assms(1)
  by (subst memmove_eq) (simp_all add: in_page_iff)

lemma vm_ok_rmap [simp]: "vm_ok kend (s\<lparr>rmap := r\<rparr>) D xs = vm_ok kend s D xs"
  by (simp add: vm_ok_def free_ok_def)

lemma cow_free_unmapped: "cow_inv kend s D xs \<Longrightarrow> x \<in> set xs \<Longrightarrow> mappers (ram s) D x = {}"
  using cow_invD(3) [of kend s D xs] by (fastforce simp: mappers_def)

text \<open>The reverse map after moving the reference \<open>w\<close> from page \<open>p\<close> to page \<open>q\<close>.\<close>

lemma rmap_move:
  assumes k: "kpage kend p" "kpage kend q" "p \<noteq> q" and ok: "rmap_ok (r (pgno p))" "rmap_ok (r (pgno q))"
    and w: "w \<in># rmap_refs (r (pgno p))" and q: "rmap_refs (r (pgno q)) = {#}"
  shows "\<exists>fr r1 r2. dec_sharing w (pgno p) r = Inr (fr, r1) \<and> inc_sharing w (pgno q) r1 = Inr r2 \<and>
    rmap_ok (r2 (pgno p)) \<and> rmap_refs (r2 (pgno p)) = rmap_refs (r (pgno p)) - {#w#} \<and>
    rmap_ok (r2 (pgno q)) \<and> rmap_refs (r2 (pgno q)) = {#w#} \<and>
    (\<forall>n. n \<noteq> pgno p \<longrightarrow> n \<noteq> pgno q \<longrightarrow> r2 n = r n)"
proof -
  from rmap.dec_present [OF ok(1) w] obtain r' where
    r': "dec_entry w (r (pgno p)) = Inr (size (rmap_refs (r (pgno p))) = 1, r')"
    "rmap_refs r' = rmap_refs (r (pgno p)) - {#w#}" "rmap_ok r'" by blast
  have ne: "pgno p \<noteq> pgno q" using pgno_inj [OF k(1,2)] k(3) by blast
  let ?r1 = "r(pgno p := r')"
  have d: "dec_sharing w (pgno p) r = Inr (size (rmap_refs (r (pgno p))) = 1, ?r1)"
    using pgno_less [OF k(1)] r'(1) by (simp add: dec_sharing_def)
  have i: "inc_sharing w (pgno q) ?r1 = Inr (?r1(pgno q := inc_entry w (r (pgno q))))"
    using pgno_less [OF k(2)] ne by (simp add: inc_sharing_def)
  have "size (rmap_refs (r (pgno q))) < NPROC" by (simp add: q NPROC_def)
  with rmap.refs_inc [OF ok(2)] rmap.invar_inc [OF ok(2)] q
  have "rmap_refs (inc_entry w (r (pgno q))) = {#w#}" "rmap_ok (inc_entry w (r (pgno q)))" by auto
  then show ?thesis using d i r' ne
    by (intro exI [of _ "size (rmap_refs (r (pgno p))) = 1"] exI [of _ ?r1]
        exI [of _ "?r1(pgno q := inc_entry w (r (pgno q)))"]) simp
qed

lemma cow_fault_shared:
  assumes inv: "cow_inv kend s D (x # ys)" and d: "d \<in> D" and u: "umap (ram s) d i" and i: "pg_aligned i"
    and ref: "refcount (rmap s (pgno (upage (ram s) d i))) \<noteq> 1"
  shows "\<exists>t. cow_fault kend (walkpgdir0 d i (ram s)) s = Inr t \<and> cow_inv kend t D ys \<and>
    (\<forall>e \<in> D. \<forall>va. uview (ram t) e va = uview (ram s) e va) \<and>
    pteval (ram t) d i = V2P x OR PTE_FLAGS (pteval (ram s) d i) OR PTE_W \<and>
    proctab t = proctab s \<and> curproc t = curproc s"
proof -
  let ?w = "walkpgdir0 d i (ram s)" and ?p = "upage (ram s) d i"
  let ?v = "V2P x OR PTE_FLAGS (pteval (ram s) d i) OR PTE_W"
  let ?m = "memmove (ram s) x ?p 4096"
  note ok = cow_invD(1) [OF inv] and on = umap_on [OF u]
  have kx: "kpage kend x" using vm_okD(1) [OF ok] by (simp add: free_ok_def)
  have kp: "kpage kend ?p" and px: "?p \<noteq> x" using cow_invD(2,3) [OF inv d u] by auto
  have m: "?m = (\<lambda>a. if PTE_ADDR a = x then ram s (?p + (a - x)) else ram s a)" by (rule memmove_page [OF kx kp])
  then have out: "\<And>a. PTE_ADDR a \<noteq> x \<Longrightarrow> ?m a = ram s a" by simp
  from alloc_write [OF ok out] obtain s1 where
    k: "kalloc kend s = Inr (x, s1)" and ok1: "vm_ok kend (s1\<lparr>ram := ?m\<rparr>) D ys" and
    ao: "alloc_only s (s1\<lparr>ram := ?m\<rparr>)" and ram1: "ram s1 = ram s" and xy: "x \<notin> set ys" and
    F: "\<forall>e \<in> D. x \<notin> tpages (ram s) e \<and> tpages ?m e = tpages (ram s) e \<and> pteval ?m e = pteval (ram s) e \<and>
       (\<forall>va. walkpgdir0 e va ?m = walkpgdir0 e va (ram s)) \<and> (\<forall>i < 1024. pde_on ?m e i = pde_on (ram s) e i)"
    by blast
  let ?s2 = "s1\<lparr>ram := ?m\<rparr>"
  let ?s3 = "poke ?w ?v ?s2"
  have on2: "pde_on (ram ?s2) d (PDX i)" and w2: "walkpgdir0 d i (ram ?s2) = ?w" using F d on by simp_all
  note P = vm_ok_poke [OF ok1 d on2, where v = ?v, unfolded w2]
  have fp: "P2V (PTE_ADDR ?v) = x" "bit ?v 0" "bit ?v 1"
    using fresh_pte [OF kpage_aligned [OF kx], of "pteval (ram s) d i"] u by (simp_all add: umap_def pbit)
  have rm3: "rmap ?s3 = rmap s" using alloc_onlyD(1) [OF ao] by simp
  have wp: "?w \<in># rmap_refs (rmap s (pgno ?p))"
    unfolding cow_invD(6) [OF inv kp] using mapperI [OF d u refl] by simp
  have rx: "rmap_refs (rmap s (pgno x)) = {#}"
    using cow_invD(6) [OF inv kx] cow_free_unmapped [OF inv, of x] by simp
  from rmap_move [OF kp kx px cow_invD(5) [OF inv kp] cow_invD(5) [OF inv kx] wp rx] obtain fr r1 r2 where
    r: "dec_sharing ?w (pgno ?p) (rmap s) = Inr (fr, r1)" "inc_sharing ?w (pgno x) r1 = Inr r2" and
    rp: "rmap_ok (r2 (pgno ?p))" "rmap_refs (r2 (pgno ?p)) = rmap_refs (rmap s (pgno ?p)) - {#?w#}" and
    rq: "rmap_ok (r2 (pgno x))" "rmap_refs (r2 (pgno x)) = {#?w#}" and
    ro: "\<forall>n. n \<noteq> pgno ?p \<longrightarrow> n \<noteq> pgno x \<longrightarrow> r2 n = rmap s n" by blast
  obtain t where t: "t = ?s3\<lparr>rmap := r2\<rparr>" by blast
  have ramt: "ram t = ram ?s3" and rmt: "rmap t = r2" unfolding t by simp_all
  note P = P [folded ramt]
  have run: "cow_fault kend ?w s = Inr t"
  proof -
    have l: "ld32 (ram s) ?w = pteval (ram s) d i" by (rule walk_props(5) [OF vm_okD(2) [OF ok d] on])
    have l2: "ld32 ?m ?w = pteval (ram s) d i"
      using walk_props(5) [OF vm_okD(2) [OF ok1 d] on2] w2 F d by simp
    have n: "PTE_ADDR (pteval (ram s) d i) div 4096 = pgno ?p" "V2P x div 4096 = pgno x"
      by (simp_all add: pgno_def upage_def)
    have "check_rmap (rmap s) (pgno ?p) = Inr False" using ref pgno_less [OF kp] by (simp add: check_rmap_def)
    then show ?thesis
      unfolding cow_fault_def Let_def l t
      using k l2 r rm3 n by (simp add: ram1 upage_def [symmetric] k_dec_sharing_def k_inc_sharing_def)
  qed
  have okt: "vm_ok kend t D ys" using P(1) unfolding t by simp
  have c: "entry_change s t D d i ?v"
  proof -
    have "entry_change ?s2 ?s3 D d i ?v"
      using entry_change_poke [OF ok1 d i _ on2, of ?v] u unfolding w2 by (simp add: umap_def)
    moreover have "umap (ram ?s2) e x = umap (ram s) e x" if "e \<in> D" for e x
      using F that by (simp add: umap_def)
    ultimately show ?thesis using F unfolding entry_change_def ramt by simp
  qed
  have wt: "walkpgdir0 d i (ram t) = ?w" using P(6) [OF d, of i] w2 by simp
  have mp: "mappers (ram t) D q = (mappers (ram s) D q - {?w}) \<union> (if x = q then {?w} else {})" for q
    unfolding entry_change_mappers [OF okt c, of q] wt fp(1) using fp(2) by (simp only: simp_thms)
  have mx: "mappers (ram t) D x = {?w}" using mp [of x] cow_free_unmapped [OF inv, of x] by simp
  have tp: "tpages (ram t) e = tpages (ram s) e" if "e \<in> D" for e using P(4) [OF that] F that by simp
  have inv': "cow_inv kend t D ys"
  proof (rule cow_inv_entry [OF inv okt c])
    show "set ys \<subseteq> set (x # ys)" by auto
    show "tpages (ram t) e \<subseteq> tpages (ram s) e \<union> set (x # ys)" if "e \<in> D" for e using tp [OF that] by blast
    show "kpage kend (P2V (PTE_ADDR ?v)) \<and> P2V (PTE_ADDR ?v) \<notin> set ys \<and> (\<forall>e \<in> D. P2V (PTE_ADDR ?v) \<notin> tpages (ram t) e)"
      unfolding fp using kx xy tp F by blast
    show "rmap_ok (rmap t (pgno q)) \<and> rmap_refs (rmap t (pgno q)) = mset_set (mappers (ram t) D q)"
      if q: "kpage kend q" for q
    proof -
      consider "q = ?p" | "q = x" | "q \<noteq> ?p" "q \<noteq> x" by blast
      then show ?thesis
      proof cases
        case 1
        have "mappers (ram t) D ?p = mappers (ram s) D ?p - {?w}" unfolding mp using px by simp
        then show ?thesis using rp 1 cow_invD(6) [OF inv kp] mapperI [OF d u refl] rmt by (simp add: mset_set_Diff)
      next
        case 2
        then show ?thesis using rq rmt unfolding 2 mx by simp
      next
        case 3
        then have "pgno q \<noteq> pgno ?p" "pgno q \<noteq> pgno x" using pgno_inj q kp kx by blast+
        moreover have "?w \<notin> mappers (ram s) D q" using mapper_unique(1) [OF ok d on] 3 by blast
        then have "mappers (ram t) D q = mappers (ram s) D q" unfolding mp using 3 by simp
        ultimately show ?thesis using ro cow_invD(5,6) [OF inv q] rmt by simp
      qed
    qed
    show "mappers (ram t) D (P2V (PTE_ADDR ?v)) = {walkpgdir0 d i (ram t)}" unfolding fp wt mx ..
    fix e va
    assume "e \<in> D" "umap (ram s) e va"
    from cow_invD(3) [OF inv this] show "upage (ram s) e va \<noteq> P2V (PTE_ADDR ?v)" unfolding fp by auto
  qed
  have view: "uview (ram t) e va = uview (ram s) e va" if e: "e \<in> D" for e va
  proof (cases "e = d \<and> PTE_ADDR va = i")
    case True
    have us: "umap (ram s) d va" using u True umap_same_page [of va i "ram s" d] by (simp add: umap_def [of _ _ i])
    moreover have "umap (ram t) d va" "upage (ram t) d va = x"
      using entry_change_umap [OF c d, of va] True fp by auto
    moreover have "upage (ram s) d va = ?p" using True upage_page [of "ram s" d va] by simp
    moreover have "ram t (x + PTE_FLAGS va) = ?m (x + PTE_FLAGS va)"
      using P(7) [of "x + PTE_FLAGS va"] F d kx by (simp add: page_offset)
    moreover have "?m (x + PTE_FLAGS va) = ram s (?p + PTE_FLAGS va)" unfolding m using kx by (simp add: page_offset)
    ultimately show ?thesis using True by (simp add: uview_def)
  next
    case False
    show ?thesis
    proof (rule uview_same)
      show um: "umap (ram t) e va = umap (ram s) e va" using entry_change_umap(1) [OF c e, of va] False by simp
      show "upage (ram t) e va = upage (ram s) e va" if "umap (ram s) e va"
        using entry_change_umap(2) [OF c e, of va] False that um by simp
      show "ram t (upage (ram s) e va + PTE_FLAGS va) = ram s (upage (ram s) e va + PTE_FLAGS va)"
        if uv: "umap (ram s) e va"
      proof -
        have o: "PTE_ADDR (upage (ram s) e va + PTE_FLAGS va) = upage (ram s) e va"
          using cow_invD(2) [OF inv e uv] by (simp add: page_offset)
        have "ram t (upage (ram s) e va + PTE_FLAGS va) = ?m (upage (ram s) e va + PTE_FLAGS va)"
          using P(7) cow_invD(4) [OF inv e uv d] F d o by simp
        also have "\<dots> = ram s (upage (ram s) e va + PTE_FLAGS va)"
          using cow_invD(3) [OF inv e uv] o by (intro out) auto
        finally show ?thesis .
      qed
    qed
  qed
  have "pteval (ram t) d i = ?v" using P(2) by simp
  moreover have "proctab t = proctab s" "curproc t = curproc s" using alloc_onlyD [OF ao] unfolding t by simp_all
  ultimately show ?thesis using run inv' view by blast
qed

text \<open>The handler, for any present user page.\<close>

lemma cow_inv_cr3 [simp]: "cow_inv kend (s\<lparr>cr3 := c\<rparr>) D xs = cow_inv kend s D xs"
  by (simp add: cow_inv_def vm_ok_def free_ok_def)

lemma handle_present:
  assumes inv: "cow_inv kend s D xs" and cur: "curproc s = Some p" "p_pgdir (proctab s p) = d" and d: "d \<in> D"
    and u: "umap (ram s) d va" and room: "xs = [] \<Longrightarrow> refcount (rmap s (pgno (upage (ram s) d va))) = 1"
  shows "\<exists>t ys. handle_fage_fault kend va s = Inr t \<and> cow_inv kend t D ys \<and> set ys \<subseteq> set xs \<and>
    (\<forall>e \<in> D. \<forall>x. uview (ram t) e x = uview (ram s) e x) \<and> umap (ram t) d va \<and>
    bit (pteval (ram t) d va) 1 \<and> (bit (pteval (ram s) d va) 2 \<longrightarrow> bit (pteval (ram t) d va) 2)"
proof -
  let ?i = "PTE_ADDR va"
  have ui: "umap (ram s) d ?i" using u by (rule umap_page)
  have "\<exists>t ys. cow_fault kend (walkpgdir0 d ?i (ram s)) s = Inr t \<and> cow_inv kend t D ys \<and> set ys \<subseteq> set xs \<and>
    (\<forall>e \<in> D. \<forall>x. uview (ram t) e x = uview (ram s) e x) \<and> bit (pteval (ram t) d ?i) 1 \<and>
    (bit (pteval (ram s) d ?i) 2 \<longrightarrow> bit (pteval (ram t) d ?i) 2)"
  proof (cases "refcount (rmap s (pgno (upage (ram s) d ?i))) = 1")
    case True
    from cow_fault_sole [OF inv d ui _ True] obtain t where
      "cow_fault kend (walkpgdir0 d ?i (ram s)) s = Inr t" "cow_inv kend t D xs"
      "\<forall>e \<in> D. \<forall>x. uview (ram t) e x = uview (ram s) e x" "pteval (ram t) d ?i = pteval (ram s) d ?i OR PTE_W" by auto
    then show ?thesis using set_W(3) by (intro exI [of _ t] exI [of _ xs]) (simp add: bit_or_iff)
  next
    case False
    with room obtain x ys where xs: "xs = x # ys" by (cases xs) auto
    from cow_fault_shared [OF inv [unfolded xs] d ui _ False] obtain t where
      "cow_fault kend (walkpgdir0 d ?i (ram s)) s = Inr t" "cow_inv kend t D ys"
      "\<forall>e \<in> D. \<forall>x. uview (ram t) e x = uview (ram s) e x"
      "pteval (ram t) d ?i = V2P x OR PTE_FLAGS (pteval (ram s) d ?i) OR PTE_W" by auto
    then show ?thesis unfolding xs by (intro exI [of _ t] exI [of _ ys]) (auto simp: bit_or_iff PTE_FLAGS_bits)
  qed
  then obtain t ys where r: "cow_fault kend (walkpgdir0 d va (ram s)) s = Inr t" "cow_inv kend t D ys" "set ys \<subseteq> set xs"
    "\<forall>e \<in> D. \<forall>x. uview (ram t) e x = uview (ram s) e x" "bit (pteval (ram t) d va) 1"
    "bit (pteval (ram s) d va) 2 \<longrightarrow> bit (pteval (ram t) d va) 2" by (auto simp only: pteval_page walk_page)
  have W: "walkpgdir0 d va (ram s) \<noteq> 0" "ld32 (ram s) (walkpgdir0 d va (ram s)) = pteval (ram s) d va"
    using walk_props(4,5) [OF vm_okD(2) [OF cow_invD(1) [OF inv] d] umap_on [OF u]] .
  have h: "handle_fage_fault kend va s = Inr (t\<lparr>cr3 := V2P d\<rparr>)"
    using cur r(1) W u walk_page [of d va "ram s"]
    by (simp add: handle_fage_fault_def myproc_def deref_def PGROUNDDOWN_eq_PTE_ADDR umap_def Let_def)
  have "uview (ram t) d va \<noteq> None" using r(4) d u by (simp add: uview_def)
  then have "umap (ram t) d va" by (auto simp: uview_def split: if_splits)
  with h r show ?thesis by (intro exI [of _ "t\<lparr>cr3 := V2P d\<rparr>"] exI [of _ ys]) simp
qed

end
