(* ===== verification/Xv6_Grow.thy ===== *)
theory Xv6_Grow
  imports Xv6_Cow
begin

text \<open>
  Growing an address space: a new mapping of a page keeps the copy-on-write invariant
  (\<open>cow_inv_map\<close>), so \<open>inituvm\<close> and \<open>allocuvm\<close> do, and the new pages read as they were
  filled. \<open>cow_inv_new_dir\<close> adds the directory that \<open>setupkvm\<close> returns.
\<close>

section \<open>Adding a mapping\<close>

lemma entry_fresh:
  assumes ok: "vm_ok kend t D ys" and c: "entry_change s t D d i v" and n: "\<not> umap (ram s) d i"
  shows "walkpgdir0 d i (ram t) \<notin> mappers (ram s) D q"
proof
  note C = entry_changeD [OF c]
  assume "walkpgdir0 d i (ram t) \<in> mappers (ram s) D q"
  then obtain e x where e: "e \<in> D" "umap (ram s) e x" "walkpgdir0 d i (ram t) = walkpgdir0 e x (ram s)"
    unfolding mappers_def by blast
  have "walkpgdir0 d i (ram t) = walkpgdir0 e x (ram t)" using e(3) C(6) [OF e(1,2)] by simp
  from walk_inj2 [OF ok C(1) e(1) C(4) C(7) [OF e(1,2)] this] PTE_ADDR_of_aligned [OF C(2)]
  have "d = e" "PTE_ADDR x = i" by simp_all
  then show False using n umap_page [OF e(2)] by simp
qed

lemma cow_inv_map:
  fixes v :: u32
  assumes inv: "cow_inv kend s D xs" and ok: "vm_ok kend t D ys" and c: "entry_change s t D d i v"
    and n: "\<not> umap (ram s) d i" and v: "bit v 0"
  defines "pg \<equiv> P2V (PTE_ADDR v)" and "w \<equiv> walkpgdir0 d i (ram t)"
  assumes sub: "set ys \<subseteq> set xs" and tp: "\<And>e. e \<in> D \<Longrightarrow> tpages (ram t) e \<subseteq> tpages (ram s) e \<union> set xs"
    and new: "kpage kend pg" "pg \<notin> set ys" "\<And>e. e \<in> D \<Longrightarrow> pg \<notin> tpages (ram t) e"
    and rm: "rmap t = (rmap s)(pgno pg := inc_entry w (rmap s (pgno pg)))"
    and cap: "size (rmap_refs (rmap s (pgno pg))) < NPROC"
    and alone: "bit v 1 \<Longrightarrow> mappers (ram s) D pg = {}"
    and quiet: "\<And>e x. e \<in> D \<Longrightarrow> umap (ram s) e x \<Longrightarrow> bit (pteval (ram s) e x) 1 \<Longrightarrow> upage (ram s) e x \<noteq> pg"
  shows "cow_inv kend t D ys"
    and "size (rmap_refs (rmap t q)) = size (rmap_refs (rmap s q)) + (if q = pgno pg then 1 else 0)"
proof -
  have rok: "rmap_ok (rmap s (pgno pg))" by (rule cow_invD(5) [OF inv new(1)])
  have refs: "rmap_refs (rmap t (pgno pg)) = add_mset w (rmap_refs (rmap s (pgno pg)))" "rmap_ok (rmap t (pgno pg))"
    using rmap.refs_inc [OF rok cap] rmap.invar_inc [OF rok cap] rm by simp_all
  show "size (rmap_refs (rmap t q)) = size (rmap_refs (rmap s q)) + (if q = pgno pg then 1 else 0)"
    using refs(1) rm by simp
  have fresh: "w \<notin> mappers (ram s) D q" for q unfolding w_def by (rule entry_fresh [OF ok c n])
  have mp: "mappers (ram t) D q = mappers (ram s) D q \<union> (if pg = q then {w} else {})" for q
    using entry_change_mappers [OF ok c, of q] fresh [of q] v unfolding w_def pg_def by auto
  show "cow_inv kend t D ys"
  proof (rule cow_inv_entry [OF inv ok c sub tp])
    show "rmap_ok (rmap t (pgno q)) \<and> rmap_refs (rmap t (pgno q)) = mset_set (mappers (ram t) D q)"
      if q: "kpage kend q" for q
    proof (cases "q = pg")
      case True
      have "finite (mappers (ram s) D pg)" by simp
      then show ?thesis unfolding True mp using refs cow_invD(6) [OF inv new(1)] fresh [of pg] by simp
    next
      case False
      then have "pgno q \<noteq> pgno pg" using pgno_inj [OF q new(1)] by blast
      then show ?thesis unfolding mp rm using False cow_invD(5,6) [OF inv q] by simp
    qed
    show "mappers (ram t) D (P2V (PTE_ADDR v)) = {walkpgdir0 d i (ram t)}" if "bit v 1"
      using mp [of pg] alone [OF that] unfolding pg_def w_def by simp
  qed (use new quiet in \<open>auto simp: pg_def\<close>)
qed

lemma cow_inv_proctab [simp]: "cow_inv kend (upd_proc j f s) D xs = cow_inv kend s D xs"
  by (simp add: cow_inv_def vm_ok_def free_ok_def)

section \<open>Filling a page that no table uses\<close>

lemma data_page_frame:
  assumes ok: "vm_ok kend s D xs" and x: "x \<notin> set xs" "\<forall>e \<in> D. x \<notin> tpages (ram s) e"
    and out: "\<forall>a. PTE_ADDR a \<noteq> x \<longrightarrow> m a = ram s a"
  shows "vm_ok kend (s\<lparr>ram := m\<rparr>) D xs"
    and "e \<in> D \<Longrightarrow> pteval m e = pteval (ram s) e" and "e \<in> D \<Longrightarrow> tpages m e = tpages (ram s) e"
    and "e \<in> D \<Longrightarrow> walkpgdir0 e y m = walkpgdir0 e y (ram s)"
    and "e \<in> D \<Longrightarrow> i < 1024 \<Longrightarrow> pde_on m e i = pde_on (ram s) e i"
proof -
  have F: "pgdir_ok kend m e" "tpages m e = tpages (ram s) e" "pteval m e = pteval (ram s) e"
    "walkpgdir0 e y m = walkpgdir0 e y (ram s)" "i < 1024 \<Longrightarrow> pde_on m e i = pde_on (ram s) e i" if e: "e \<in> D" for e y i
  proof -
    have "m a = ram s a" if "PTE_ADDR a \<in> tpages (ram s) e" for a using that x(2) e out by auto
    from pgdir_frame [OF vm_okD(2) [OF ok e] this]
    show "pgdir_ok kend m e" "tpages m e = tpages (ram s) e" "pteval m e = pteval (ram s) e"
      "walkpgdir0 e y m = walkpgdir0 e y (ram s)" "i < 1024 \<Longrightarrow> pde_on m e i = pde_on (ram s) e i" by blast+
  qed
  have "free_ok kend (s\<lparr>ram := m\<rparr>) xs"
    by (rule free_ok_frame [OF vm_okD(1) [OF ok]]) (use x(1) out in auto)
  then show "vm_ok kend (s\<lparr>ram := m\<rparr>) D xs" using ok F(1,2) by (simp add: vm_ok_def)
  show "e \<in> D \<Longrightarrow> pteval m e = pteval (ram s) e" "e \<in> D \<Longrightarrow> tpages m e = tpages (ram s) e"
    "e \<in> D \<Longrightarrow> walkpgdir0 e y m = walkpgdir0 e y (ram s)"
    "e \<in> D \<Longrightarrow> i < 1024 \<Longrightarrow> pde_on m e i = pde_on (ram s) e i" using F(2-5) by blast+
qed

text \<open>The view of a process whose entry and page are untouched.\<close>

lemma uview_frame:
  assumes inv: "cow_inv kend s D xs" and e: "e \<in> D" and pv: "pteval m e x = pteval (ram s) e x"
    and fr: "\<And>a. PTE_ADDR a \<notin> T \<Longrightarrow> m a = ram s a" and T: "umap (ram s) e x \<Longrightarrow> upage (ram s) e x \<notin> T"
  shows "uview m e x = uview (ram s) e x"
proof (rule uview_same)
  assume u: "umap (ram s) e x"
  have "PTE_ADDR (upage (ram s) e x + PTE_FLAGS x) = upage (ram s) e x"
    by (rule page_offset) (use cow_invD(2) [OF inv e u] in \<open>simp add: kpage_def\<close>)
  then show "m (upage (ram s) e x + PTE_FLAGS x) = ram s (upage (ram s) e x + PTE_FLAGS x)"
    using T [OF u] by (intro fr) auto
qed (simp_all add: umap_def upage_def pv)

section \<open>Mapping a fresh page\<close>

text \<open>The user entry of a fresh page.\<close>

abbreviation user_pte :: "u32 \<Rightarrow> u32" where
  "user_pte x \<equiv> V2P x OR (PTE_W OR PTE_U) OR PTE_P"

lemma user_pte_fields:
  assumes "kpage kend x"
  shows "bit (user_pte x) 0" "P2V (PTE_ADDR (user_pte x)) = x" "pgno x = V2P x div PGSIZE"
proof -
  have x: "pg_aligned (V2P x)" using assms by simp
  have "PTE_ADDR (user_pte x) = V2P x" using PTE_ADDR_of_aligned [OF x] by (simp add: PTE_ADDR_or) (simp add: PTE_ADDR_def)
  then show "P2V (PTE_ADDR (user_pte x)) = x" by simp
  show "bit (user_pte x) 0" by (simp add: bit_or_iff)
  show "pgno x = V2P x div PGSIZE" by (simp add: pgno_def)
qed

lemma free_unmapped:
  assumes inv: "cow_inv kend s D xs" and x: "x \<in> set xs"
  shows "mappers (ram s) D x = {}" "rmap_refs (rmap s (pgno x)) = {#}"
proof -
  show m: "mappers (ram s) D x = {}" using cow_invD(3) [OF inv] x unfolding mappers_def by blast
  have "kpage kend x" using vm_okD(1) [OF cow_invD(1) [OF inv]] x by (auto simp: free_ok_def)
  then show "rmap_refs (rmap s (pgno x)) = {#}" using cow_invD(6) [OF inv] m by simp
qed

lemma map_fresh_tables:
  assumes ok: "vm_ok kend s D (x # zs)" and d: "d \<in> D" and a: "pg_aligned a" "a < KERNBASE"
    and n: "\<not> umap (ram s) d a" and room: "pde_on (ram s) d (PDX a) \<or> zs \<noteq> []"
  shows "\<exists>s1 s2 us ys. kalloc kend s = Inr (x, s1) \<and>
    mappages kend d a 4096 (V2P x) (PTE_W OR PTE_U) (s1\<lparr>ram := memset (ram s1) x 0 4096\<rparr>) = Inr (0, s2) \<and>
    alloc_only s s2 \<and> zs = us @ ys \<and> length us = (if pde_on (ram s) d (PDX a) then 0 else 1) \<and>
    vm_ok kend s2 D ys \<and> x \<notin> set zs \<and>
    (\<forall>e \<in> D. x \<notin> tpages (ram s2) e \<and> tpages (ram s2) e \<subseteq> tpages (ram s) e \<union> set us) \<and>
    (\<forall>e \<in> D. \<forall>y. pteval (ram s2) e y = (if e = d \<and> PTE_ADDR y = a then user_pte x else pteval (ram s) e y)) \<and>
    (\<forall>e \<in> D. \<forall>y. pde_on (ram s) e (PDX y) \<longrightarrow> pde_on (ram s2) e (PDX y) \<and>
       walkpgdir0 e y (ram s2) = walkpgdir0 e y (ram s)) \<and> pde_on (ram s2) d (PDX a) \<and>
    (\<forall>b. PTE_ADDR b = x \<longrightarrow> ram s2 b = 0) \<and>
    (\<forall>b. PTE_ADDR b \<notin> tpages (ram s) d \<union> set us \<union> {x} \<longrightarrow> ram s2 b = ram s b)"
proof -
  from alloc_fill [OF ok, of 0] obtain s1 where
    k: "kalloc kend s = Inr (x, s1)" and ok1: "vm_ok kend (s1\<lparr>ram := memset (ram s1) x 0 4096\<rparr>) D zs" and
    ao1: "alloc_only s (s1\<lparr>ram := memset (ram s1) x 0 4096\<rparr>)" and r1: "ram s1 = ram s" and
    x: "kpage kend x" "x \<notin> set zs" and
    old: "\<forall>e \<in> D. x \<notin> tpages (ram s) e \<and> tpages (memset (ram s) x 0 4096) e = tpages (ram s) e \<and>
       pteval (memset (ram s) x 0 4096) e = pteval (ram s) e \<and>
       (\<forall>va. walkpgdir0 e va (memset (ram s) x 0 4096) = walkpgdir0 e va (ram s)) \<and>
       (\<forall>i < 1024. pde_on (memset (ram s) x 0 4096) e i = pde_on (ram s) e i)" by blast
  obtain t where t: "t = s1\<lparr>ram := memset (ram s1) x 0 4096\<rparr>" by blast
  have rt: "ram t = memset (ram s) x 0 4096" unfolding t r1 by simp
  have T: "x \<notin> tpages (ram s) e" "tpages (ram t) e = tpages (ram s) e" "pteval (ram t) e = pteval (ram s) e"
    "walkpgdir0 e y (ram t) = walkpgdir0 e y (ram s)" "i < 1024 \<Longrightarrow> pde_on (ram t) e i = pde_on (ram s) e i"
    if "e \<in> D" for e y i using old that unfolding rt by blast+
  have ont: "pde_on (ram t) e (PDX y) = pde_on (ram s) e (PDX y)" if "e \<in> D" for e y using T(5) [OF that] by simp
  have okt: "vm_ok kend t D zs" and aot: "alloc_only s t" using ok1 ao1 unfolding t by blast+
  have "pteval (ram t) d a AND 1 = 0" "pde_on (ram t) d (PDX a) \<or> zs \<noteq> []"
    using n a(2) T(3) [OF d] ont [OF d] room by (simp_all add: umap_def)
  from mappages_page [OF okt d a(1) this, of "V2P x" "PTE_W OR PTE_U"] obtain s2 us ys where
    m: "mappages kend d a 4096 (V2P x) (PTE_W OR PTE_U) t = Inr (0, s2)" and g: "grows kend D d us t zs s2 ys" and
    len: "length us = (if pde_on (ram t) d (PDX a) then 0 else 1)" and
    pv2: "pteval (ram s2) d = (\<lambda>y. if PTE_ADDR y = a then user_pte x else pteval (ram t) d y)" and
    on2: "pde_on (ram s2) d (PDX a)" by blast
  have zs: "zs = us @ ys" by (rule growsD(2) [OF g])
  note O = grows_other [OF okt g d]
  have tp2: "tpages (ram s2) e \<subseteq> tpages (ram s) e \<union> set us" if "e \<in> D" for e
    using O(2) [OF that] growsD(4) [OF g] T(2) [OF that] by (cases "e = d") auto
  have x2: "x \<notin> tpages (ram s2) e" if "e \<in> D" for e using tp2 [OF that] T(1) [OF that] x(2) zs by auto
  have "pteval (ram s2) e y = (if e = d \<and> PTE_ADDR y = a then user_pte x else pteval (ram s) e y)" if "e \<in> D" for e y
    using pv2 O(1) [OF that] T(3) [OF that] by (cases "e = d") auto
  moreover have "pde_on (ram s2) e (PDX y) \<and> walkpgdir0 e y (ram s2) = walkpgdir0 e y (ram s)"
    if "e \<in> D" "pde_on (ram s) e (PDX y)" for e y
    using that O(3,4) [OF that(1)] growsD(6,7) [OF g] T(4) [OF that(1)] ont [OF that(1)] by (cases "e = d") auto
  moreover have "ram s2 b = (if PTE_ADDR b = x then 0 else ram s b)" if "PTE_ADDR b \<notin> tpages (ram s) d \<union> set us" for b
  proof -
    have "ram s2 b = ram t b" using that growsD(4) [OF g] T(2) [OF d] by (intro growsD(5) [OF g]) simp
    then show ?thesis using x(1) by (simp add: rt memset_page)
  qed
  moreover have "x \<notin> tpages (ram s) d \<union> set us" using T(1) [OF d] x(2) zs by simp
  ultimately show ?thesis
    using k m zs len ont [OF d] x tp2 x2 on2 growsD(1) [OF g] alloc_only_trans [OF aot growsD(3) [OF g]] unfolding t
    by (intro exI [of _ s1] exI [of _ s2] exI [of _ us] exI [of _ ys]) auto
qed

text \<open>What a new page does to the state: one more mapping, the views of the others kept.\<close>

definition page_added :: "u32 \<Rightarrow> u32 set \<Rightarrow> u32 \<Rightarrow> u32 \<Rightarrow> u32 \<Rightarrow> kstate \<Rightarrow> u32 list \<Rightarrow> kstate \<Rightarrow> bool" where
  "page_added kend D d a x s ys s' \<longleftrightarrow> cow_inv kend s' D ys \<and> curproc s' = curproc s \<and> proctab s' = proctab s \<and>
     (\<forall>e \<in> D. \<forall>y. uview (ram s') e y =
        (if e = d \<and> PTE_ADDR y = a then Some (ram s' (x + PTE_FLAGS y)) else uview (ram s) e y)) \<and>
     (\<forall>e \<in> D. \<forall>y. pteval (ram s') e y = (if e = d \<and> PTE_ADDR y = a then user_pte x else pteval (ram s) e y)) \<and>
     (\<forall>y. PDX y = PDX a \<or> pde_on (ram s) d (PDX y) \<longrightarrow> pde_on (ram s') d (PDX y))"

lemma page_addedD:
  assumes "page_added kend D d a x s ys s'"
  shows "cow_inv kend s' D ys" "curproc s' = curproc s" "proctab s' = proctab s"
    "e \<in> D \<Longrightarrow> uview (ram s') e y = (if e = d \<and> PTE_ADDR y = a then Some (ram s' (x + PTE_FLAGS y)) else uview (ram s) e y)"
    "e \<in> D \<Longrightarrow> pteval (ram s') e y = (if e = d \<and> PTE_ADDR y = a then user_pte x else pteval (ram s) e y)"
    "PDX y = PDX a \<or> pde_on (ram s) d (PDX y) \<Longrightarrow> pde_on (ram s') d (PDX y)"
  using assms unfolding page_added_def by blast+

text \<open>The page may be filled before it is counted.\<close>

lemma map_fresh:
  assumes inv: "cow_inv kend s D (x # zs)" and d: "d \<in> D" and a: "pg_aligned a" "a < KERNBASE"
    and n: "\<not> umap (ram s) d a" and room: "pde_on (ram s) d (PDX a) \<or> zs \<noteq> []"
  shows "\<exists>s1 s2 us ys. kalloc kend s = Inr (x, s1) \<and>
    mappages kend d a 4096 (V2P x) (PTE_W OR PTE_U) (s1\<lparr>ram := memset (ram s1) x 0 4096\<rparr>) = Inr (0, s2) \<and>
    zs = us @ ys \<and> length us = (if pde_on (ram s) d (PDX a) then 0 else 1) \<and> (\<forall>b. PTE_ADDR b = x \<longrightarrow> ram s2 b = 0) \<and>
    (\<forall>b. PTE_ADDR b \<notin> tpages (ram s) d \<union> set us \<union> {x} \<longrightarrow> ram s2 b = ram s b) \<and>
    (\<forall>m. (\<forall>b. PTE_ADDR b \<noteq> x \<longrightarrow> m b = ram s2 b) \<longrightarrow>
      (\<exists>s'. k_inc_sharing (walkpgdir0 d a m) (V2P x div PGSIZE) (s2\<lparr>ram := m\<rparr>) = Inr s' \<and>
        ram s' = m \<and> page_added kend D d a x s ys s'))"
proof -
  from map_fresh_tables [OF cow_invD(1) [OF inv] d a n room] obtain s1 s2 us ys where
    k: "kalloc kend s = Inr (x, s1)"
       "mappages kend d a 4096 (V2P x) (PTE_W OR PTE_U) (s1\<lparr>ram := memset (ram s1) x 0 4096\<rparr>) = Inr (0, s2)" and
    ao: "alloc_only s s2" and zs: "zs = us @ ys" "length us = (if pde_on (ram s) d (PDX a) then 0 else 1)" and
    ok2: "vm_ok kend s2 D ys" and xz: "x \<notin> set zs" and
    tp: "\<forall>e \<in> D. x \<notin> tpages (ram s2) e \<and> tpages (ram s2) e \<subseteq> tpages (ram s) e \<union> set us" and
    pv: "\<forall>e \<in> D. \<forall>y. pteval (ram s2) e y = (if e = d \<and> PTE_ADDR y = a then user_pte x else pteval (ram s) e y)" and
    on: "\<forall>e \<in> D. \<forall>y. pde_on (ram s) e (PDX y) \<longrightarrow> pde_on (ram s2) e (PDX y) \<and>
       walkpgdir0 e y (ram s2) = walkpgdir0 e y (ram s)" and on2: "pde_on (ram s2) d (PDX a)" and
    zero: "\<forall>b. PTE_ADDR b = x \<longrightarrow> ram s2 b = 0" and
    fr: "\<forall>b. PTE_ADDR b \<notin> tpages (ram s) d \<union> set us \<union> {x} \<longrightarrow> ram s2 b = ram s b" by blast
  have x: "kpage kend x" using vm_okD(1) [OF cow_invD(1) [OF inv]] by (simp add: free_ok_def)
  have "\<exists>s'. k_inc_sharing (walkpgdir0 d a m) (V2P x div PGSIZE) (s2\<lparr>ram := m\<rparr>) = Inr s' \<and>
        ram s' = m \<and> page_added kend D d a x s ys s'"
    if out: "\<forall>b. PTE_ADDR b \<noteq> x \<longrightarrow> m b = ram s2 b" for m
  proof -
    have xy: "x \<notin> set ys" and x2: "\<forall>e \<in> D. x \<notin> tpages (ram s2) e" using xz zs tp by auto
    note F = data_page_frame [OF ok2 xy x2 out]
    note okm = F(1) and E = F(2-5)
    let ?w = "walkpgdir0 d a m"
    let ?s' = "s2\<lparr>ram := m, rmap := (rmap s2)(pgno x := inc_entry ?w (rmap s2 (pgno x)))\<rparr>"
    note U = user_pte_fields [OF x]
    have run: "k_inc_sharing ?w (V2P x div PGSIZE) (s2\<lparr>ram := m\<rparr>) = Inr ?s'"
      using pgno_less [OF x] U(3) by (simp add: k_inc_sharing_def inc_sharing_def)
    have pvm: "pteval m e y = (if e = d \<and> PTE_ADDR y = a then user_pte x else pteval (ram s) e y)" if "e \<in> D" for e y
      unfolding E(1) [OF that] using pv that by blast
    have c: "entry_change s ?s' D d a (user_pte x)"
      unfolding entry_change_def using d a on2 on E(3,4) umap_on pvm by auto
    note free = free_unmapped [OF inv, of x]
    have inv': "cow_inv kend ?s' D ys"
      by (rule cow_inv_map(1) [OF inv _ c n U(1), unfolded U(2)])
        (use okm zs xz tp x free E(2) alloc_onlyD(1) [OF ao] cow_invD(3) [OF inv] in \<open>auto simp: NPROC_def\<close>)
    have uv: "uview m e y = (if e = d \<and> PTE_ADDR y = a then Some (m (x + PTE_FLAGS y)) else uview (ram s) e y)"
      if e: "e \<in> D" for e y
    proof (cases "e = d \<and> PTE_ADDR y = a")
      case True
      then show ?thesis
        using pvm [OF d, of y] page_of_user [OF a, of y] U(1,2) by (simp add: uview_def umap_def upage_def pbit)
    next
      case False
      have "uview m e y = uview (ram s) e y"
      proof (rule uview_frame [OF inv e, where T = "tpages (ram s) d \<union> set us \<union> {x}"])
        show "pteval m e y = pteval (ram s) e y" using pvm [OF e] False by auto
        show "upage (ram s) e y \<notin> tpages (ram s) d \<union> set us \<union> {x}" if "umap (ram s) e y"
          using cow_invD(3,4) [OF inv e that] d zs by auto
      qed (use out fr in auto)
      then show ?thesis using False by auto
    qed
    have "\<forall>y. PDX y = PDX a \<or> pde_on (ram s) d (PDX y) \<longrightarrow> pde_on m d (PDX y)"
      using on2 on d E(4) [OF d] by (metis PDX_less)
    then have "page_added kend D d a x s ys ?s'"
      using inv' uv pvm alloc_onlyD(2,3) [OF ao] unfolding page_added_def by simp
    then show ?thesis using run by auto
  qed
  then show ?thesis using k zs zero fr by blast
qed

section \<open>A new address space\<close>

text \<open>A fresh directory without user mappings keeps the invariant.\<close>

lemma cow_inv_new_dir:
  assumes inv: "cow_inv kend s D xs" and ok: "vm_ok kend s' (insert d D) ys" and xs: "xs = us @ ys"
    and rm: "rmap s' = rmap s" and dD: "d \<notin> D" and tp: "tpages (ram s') d = set us"
    and fr: "\<And>a. PTE_ADDR a \<notin> set us \<Longrightarrow> ram s' a = ram s a"
    and none: "\<And>x. x < KERNBASE \<Longrightarrow> pteval (ram s') d x = 0"
  shows "cow_inv kend s' (insert d D) ys"
    and "e \<in> D \<Longrightarrow> uview (ram s') e x = uview (ram s) e x"
    and "e \<in> D \<Longrightarrow> pteval (ram s') e x = pteval (ram s) e x"
    and "uview (ram s') d x = None"
proof -
  note ok0 = cow_invD(1) [OF inv]
  have old: "tpages (ram s') e = tpages (ram s) e" "pteval (ram s') e = pteval (ram s) e"
      "walkpgdir0 e x (ram s') = walkpgdir0 e x (ram s)" if "e \<in> D" for e x
    by (rule pgdir_frame [OF vm_okD(2) [OF ok0 that]], (use fr vm_okD(3) [OF ok0 that] xs in auto)[1])+
  have um: "umap (ram s') e x = umap (ram s) e x" "upage (ram s') e x = upage (ram s) e x" if "e \<in> D" for e x
    using old(2) [OF that] by (simp_all add: umap_def upage_def)
  have nd: "\<not> umap (ram s') d x" for x using none by (auto simp: umap_def)
  have mp: "mappers (ram s') (insert d D) p = mappers (ram s) D p" for p
  proof (intro set_eqI iffI)
    fix w assume "w \<in> mappers (ram s') (insert d D) p"
    then obtain e x where e: "e \<in> insert d D" "umap (ram s') e x" "upage (ram s') e x = p" "w = walkpgdir0 e x (ram s')"
      unfolding mappers_def by blast
    then have eD: "e \<in> D" using nd by blast
    show "w \<in> mappers (ram s) D p"
      unfolding e(4) old(3) [OF eD] by (rule mapperI [OF eD]) (use e(2,3) um [OF eD] in auto)
  next
    fix w assume "w \<in> mappers (ram s) D p"
    then obtain e x where e: "e \<in> D" "umap (ram s) e x" "upage (ram s) e x = p" "w = walkpgdir0 e x (ram s)"
      unfolding mappers_def by blast
    show "w \<in> mappers (ram s') (insert d D) p"
      unfolding e(4) old(3) [OF e(1), symmetric] by (rule mapperI) (use e um [OF e(1)] in auto)
  qed
  show "cow_inv kend s' (insert d D) ys"
    unfolding cow_inv_def mp rm using ok cow_invD(2-7) [OF inv] um old nd xs tp by auto
  show "e \<in> D \<Longrightarrow> uview (ram s') e x = uview (ram s) e x"
  proof (rule uview_same)
    assume e: "e \<in> D" "umap (ram s) e x"
    note K = cow_invD(2,3) [OF inv e]
    have "PTE_ADDR (upage (ram s) e x + PTE_FLAGS x) = upage (ram s) e x"
      by (rule page_offset) (use K(1) in \<open>simp add: kpage_def\<close>)
    then show "ram s' (upage (ram s) e x + PTE_FLAGS x) = ram s (upage (ram s) e x + PTE_FLAGS x)"
      using K(2) xs by (intro fr) auto
  qed (simp_all add: um)
  show "e \<in> D \<Longrightarrow> pteval (ram s') e x = pteval (ram s) e x" using old(2) by simp
  show "uview (ram s') d x = None" using nd by (simp add: uview_def)
qed

section \<open>\<open>inituvm\<close>\<close>

lemma inituvm_ok:
  assumes inv: "cow_inv kend s D (x # zs)" and d: "d \<in> D" and n: "\<not> umap (ram s) d 0"
    and room: "pde_on (ram s) d 0 \<or> zs \<noteq> []" and sz: "sz < PGSIZE"
    and src: "\<And>b. b < sz \<Longrightarrow> PTE_ADDR (src + b) \<notin> tpages (ram s) d \<union> set (x # zs)" "unat src + unat sz < 2 ^ 32"
  shows "\<exists>s' ys. inituvm kend d src sz s = Inr s' \<and> cow_inv kend s' D ys \<and> set ys \<subseteq> set zs \<and>
    length zs \<le> length ys + 1 \<and> (\<forall>y < PGSIZE. bit (pteval (ram s') d y) 1 \<and> bit (pteval (ram s') d y) 2) \<and>
    (\<forall>e \<in> D. \<forall>y. uview (ram s') e y =
       (if e = d \<and> y < PGSIZE then Some (if y < sz then ram s (src + y) else 0) else uview (ram s) e y))"
proof -
  have a: "pg_aligned 0" "0 < KERNBASE" by (simp_all add: pg_aligned_def)
  have room': "pde_on (ram s) d (PDX 0) \<or> zs \<noteq> []" using room by (simp add: PDX_def)
  from map_fresh [OF inv d a n room'] obtain s1 s2 us ys where
    k: "kalloc kend s = Inr (x, s1)"
       "mappages kend d 0 4096 (V2P x) (PTE_W OR PTE_U) (s1\<lparr>ram := memset (ram s1) x 0 4096\<rparr>) = Inr (0, s2)" and
    zs: "zs = us @ ys" "length us = (if pde_on (ram s) d (PDX 0) then 0 else 1)" and zero: "\<forall>b. PTE_ADDR b = x \<longrightarrow> ram s2 b = 0" and
    fr: "\<forall>b. PTE_ADDR b \<notin> tpages (ram s) d \<union> set us \<union> {x} \<longrightarrow> ram s2 b = ram s b" and
    inc: "\<forall>m. (\<forall>b. PTE_ADDR b \<noteq> x \<longrightarrow> m b = ram s2 b) \<longrightarrow>
      (\<exists>s'. k_inc_sharing (walkpgdir0 d 0 m) (V2P x div PGSIZE) (s2\<lparr>ram := m\<rparr>) = Inr s' \<and>
        ram s' = m \<and> page_added kend D d 0 x s ys s')"
    by blast
  have x: "kpage kend x" using vm_okD(1) [OF cow_invD(1) [OF inv]] by (simp add: free_ok_def)
  let ?m = "memmove (ram s2) x src sz"
  have m: "?m b = (if PTE_ADDR b = x \<and> b - x < sz then ram s2 (src + (b - x)) else ram s2 b)" for b
  proof -
    have "unat (b - x) < unat sz \<Longrightarrow> unat (b - x) < 4096" using sz by (simp add: word_less_nat_alt)
    then show ?thesis
      using in_page_iff [of x b] x kpage_unat [OF x] src(2) sz by (subst memmove_eq) (auto simp: word_less_nat_alt kpage_def)
  qed
  have pg: "PTE_ADDR y = 0 \<longleftrightarrow> y < 4096" "PTE_ADDR y = 0 \<Longrightarrow> PTE_FLAGS y = y" for y :: u32
    using in_page_iff [of 0 y] unat_PTE_FLAGS [of y] by (auto simp: pg_aligned_def word_less_nat_alt word_unat_eq_iff)
  from inc [rule_format, of ?m] m obtain s' where
    s': "k_inc_sharing (walkpgdir0 d 0 ?m) (V2P x div PGSIZE) (s2\<lparr>ram := ?m\<rparr>) = Inr s'" "ram s' = ?m"
    "page_added kend D d 0 x s ys s'" by auto
  have "inituvm kend d src sz s = Inr s'"
    using k s'(1) sz by (simp add: inituvm_def Let_def not_le)
  moreover have "?m (x + PTE_FLAGS y) = (if y < sz then ram s (src + y) else 0)" if "y < 4096" for y
    unfolding m pg(2) [OF pg(1) [THEN iffD2, OF that]]
    using page_offset [of x y] pg [of y] that x src(1) [of y] fr zs(1) zero by (auto simp: kpage_def)
  moreover have "bit (pteval (ram s') d y) 1 \<and> bit (pteval (ram s') d y) 2" if "y < 4096" for y
    using page_addedD(5) [OF s'(3) d, of y] pg(1) [of y] that by (simp add: bit_or_iff)
  moreover have "length zs \<le> length ys + 1" using zs by simp
  ultimately show ?thesis
    using page_addedD(1,4) [OF s'(3)] s'(2) pg(1) zs(1) by (intro exI [of _ s'] exI [of _ ys]) simp
qed

section \<open>\<open>allocuvm\<close>\<close>

lemma alloc_one:
  assumes inv: "cow_inv kend s D (x # zs)" and d: "d \<in> D" and a: "pg_aligned a" "a < KERNBASE"
    and n: "\<not> umap (ram s) d a" and room: "pde_on (ram s) d (PDX a) \<or> zs \<noteq> []" and cur: "curproc s = Some i"
  shows "\<exists>s' us ys. (\<forall>as. allocuvm_loop kend d oldsz newsz (a # as) s = allocuvm_loop kend d oldsz newsz as s') \<and>
    zs = us @ ys \<and> length us = (if pde_on (ram s) d (PDX a) then 0 else 1) \<and> cow_inv kend s' D ys \<and> curproc s' = Some i \<and>
    (\<forall>e \<in> D. \<forall>y. uview (ram s') e y = (if e = d \<and> PTE_ADDR y = a then Some 0 else uview (ram s) e y)) \<and>
    (\<forall>y. umap (ram s') d y \<longrightarrow> PTE_ADDR y = a \<or> umap (ram s) d y) \<and>
    (\<forall>y. PDX y = PDX a \<or> pde_on (ram s) d (PDX y) \<longrightarrow> pde_on (ram s') d (PDX y))"
proof -
  from map_fresh [OF inv d a n room] obtain s1 s2 us ys where
    k: "kalloc kend s = Inr (x, s1)"
       "mappages kend d a 4096 (V2P x) (PTE_W OR PTE_U) (s1\<lparr>ram := memset (ram s1) x 0 4096\<rparr>) = Inr (0, s2)" and
    zs: "zs = us @ ys" "length us = (if pde_on (ram s) d (PDX a) then 0 else 1)" and
    zero: "\<forall>b. PTE_ADDR b = x \<longrightarrow> ram s2 b = 0" and
    inc: "\<forall>m. (\<forall>b. PTE_ADDR b \<noteq> x \<longrightarrow> m b = ram s2 b) \<longrightarrow>
      (\<exists>s'. k_inc_sharing (walkpgdir0 d a m) (V2P x div PGSIZE) (s2\<lparr>ram := m\<rparr>) = Inr s' \<and>
        ram s' = m \<and> page_added kend D d a x s ys s')" by blast
  from inc [rule_format, of "ram s2"] obtain t where
    t: "k_inc_sharing (walkpgdir0 d a (ram s2)) (V2P x div PGSIZE) s2 = Inr t" "ram t = ram s2" "page_added kend D d a x s ys t" by auto
  note A = page_addedD [OF t(3)]
  have x: "kpage kend x" using vm_okD(1) [OF cow_invD(1) [OF inv]] by (simp add: free_ok_def)
  let ?s' = "upd_proc i (\<lambda>p. p\<lparr>p_rss := p_rss p + PGSIZE\<rparr>) t"
  have run: "allocuvm_loop kend d oldsz newsz (a # as) s = allocuvm_loop kend d oldsz newsz as ?s'" for as
    using k t(1) A(2) cur kpage_nonzero [OF x] by (simp add: Let_def myproc_def)
  have "uview (ram t) e y = (if e = d \<and> PTE_ADDR y = a then Some 0 else uview (ram s) e y)" if "e \<in> D" for e y
    using A(4) [OF that, of y] t(2) zero page_offset [of x y] x by (simp add: kpage_def)
  moreover have "umap (ram t) d y \<longrightarrow> PTE_ADDR y = a \<or> umap (ram s) d y" for y
    using A(5) [OF d, of y] by (auto simp: umap_def)
  moreover have "cow_inv kend ?s' D ys" "curproc ?s' = Some i" "ram ?s' = ram t" using A(1,2) cur by simp_all
  ultimately show ?thesis using run zs A(6)
    by (intro exI [of _ ?s'] exI [of _ us] exI [of _ ys]) simp
qed

text \<open>The count of page tables a list of addresses still needs goes down with each page.\<close>

lemma missing_step:
  assumes "\<forall>y. PDX y = PDX a \<or> pde_on m d (PDX y) \<longrightarrow> pde_on m' d (PDX y)"
  shows "card (missing m' d (PDX ` set as)) + (if pde_on m d (PDX a) then 0 else 1) \<le> card (missing m d (PDX ` set (a # as)))"
proof -
  let ?M = "missing m d (PDX ` set (a # as))"
  have fin: "finite ?M" by (simp add: missing_def)
  have "missing m' d (PDX ` set as) \<subseteq> ?M - {PDX a}" using assms by (auto simp: missing_def)
  from card_mono [OF _ this] have "card (missing m' d (PDX ` set as)) \<le> card (?M - {PDX a})" using fin by simp
  moreover have "card (?M - {PDX a}) = card ?M - (if PDX a \<in> ?M then 1 else 0)"
    using fin by (simp add: card_Diff_singleton_if)
  moreover have "PDX a \<in> ?M \<Longrightarrow> 0 < card ?M" using fin by (auto simp: card_gt_0_iff)
  ultimately show ?thesis by (auto simp: missing_def)
qed

lemma allocuvm_loop_ok:
  assumes "cow_inv kend s D xs" and "d \<in> D" and "distinct as" and "curproc s = Some i"
    and "\<forall>a \<in> set as. pg_aligned a \<and> a < KERNBASE \<and> \<not> umap (ram s) d a"
    and "length as + card (missing (ram s) d (PDX ` set as)) \<le> length xs"
  shows "\<exists>s' ys. allocuvm_loop kend d oldsz newsz as s = Inr (newsz, s') \<and> cow_inv kend s' D ys \<and> set ys \<subseteq> set xs \<and>
    curproc s' = Some i \<and>
    (\<forall>e \<in> D. \<forall>y. uview (ram s') e y = (if e = d \<and> PTE_ADDR y \<in> set as then Some 0 else uview (ram s) e y))"
  using assms
proof (induction as arbitrary: s xs)
  case Nil
  then show ?case by auto
next
  case (Cons a as)
  from Cons.prems(6) obtain x zs where xs: "xs = x # zs" by (cases xs) auto
  have a: "pg_aligned a" "a < KERNBASE" "\<not> umap (ram s) d a" using Cons.prems(5) by simp_all
  have "zs \<noteq> []" if off: "\<not> pde_on (ram s) d (PDX a)"
  proof -
    have "PDX a \<in> missing (ram s) d (PDX ` set (a # as))" using off by (simp add: missing_def)
    then have "0 < card (missing (ram s) d (PDX ` set (a # as)))" by (auto simp: card_gt_0_iff missing_def)
    then show ?thesis using Cons.prems(6) xs by (cases zs) auto
  qed
  then have room: "pde_on (ram s) d (PDX a) \<or> zs \<noteq> []" by blast
  from alloc_one [OF Cons.prems(1) [unfolded xs] Cons.prems(2) a room Cons.prems(4)] obtain s1 us ys where
    run: "\<forall>as. allocuvm_loop kend d oldsz newsz (a # as) s = allocuvm_loop kend d oldsz newsz as s1" and
    zs: "zs = us @ ys" "length us = (if pde_on (ram s) d (PDX a) then 0 else 1)" and inv1: "cow_inv kend s1 D ys" and
    cur1: "curproc s1 = Some i" and
    uv1: "\<forall>e \<in> D. \<forall>y. uview (ram s1) e y = (if e = d \<and> PTE_ADDR y = a then Some 0 else uview (ram s) e y)" and
    um1: "\<forall>y. umap (ram s1) d y \<longrightarrow> PTE_ADDR y = a \<or> umap (ram s) d y" and
    on1: "\<forall>y. PDX y = PDX a \<or> pde_on (ram s) d (PDX y) \<longrightarrow> pde_on (ram s1) d (PDX y)" by blast
  have "length as + card (missing (ram s1) d (PDX ` set as)) \<le> length ys"
    using missing_step [OF on1, of as] Cons.prems(6) xs zs by simp
  moreover have "\<forall>b \<in> set as. pg_aligned b \<and> b < KERNBASE \<and> \<not> umap (ram s1) d b"
    using Cons.prems(3,5) um1 PTE_ADDR_of_aligned by auto
  ultimately obtain s' ws where
    r: "allocuvm_loop kend d oldsz newsz as s1 = Inr (newsz, s')" "cow_inv kend s' D ws" "set ws \<subseteq> set ys" "curproc s' = Some i" and
    uv: "\<forall>e \<in> D. \<forall>y. uview (ram s') e y = (if e = d \<and> PTE_ADDR y \<in> set as then Some 0 else uview (ram s1) e y)"
    using Cons.IH [OF inv1 Cons.prems(2) _ cur1] Cons.prems(3) by auto
  have "allocuvm_loop kend d oldsz newsz (a # as) s = Inr (newsz, s')" using run r(1) by simp
  moreover have "\<forall>e \<in> D. \<forall>y. uview (ram s') e y = (if e = d \<and> PTE_ADDR y \<in> set (a # as) then Some 0 else uview (ram s) e y)"
    using uv uv1 by auto
  ultimately show ?case using r xs zs by (intro exI [of _ s'] exI [of _ ws]) auto
qed

text \<open>The pages a loop over a user range visits.\<close>

lemma pg_addrs_range:
  assumes "pg_aligned a" and "e \<le> KERNBASE"
  shows "distinct (pg_addrs a e) \<and> set (pg_addrs a e) = {y. pg_aligned y \<and> a \<le> y \<and> y < e}"
  using assms
proof (induction a e rule: pg_addrs.induct)
  case (1 a e)
  show ?case
  proof (cases "a < e")
    case False
    then show ?thesis by (subst (1 2) pg_addrs.simps) auto
  next
    case True
    have lt: "unat a < 2147483648" using True "1.prems"(2) by (simp add: word_less_nat_alt word_le_nat_alt)
    then have un: "unat (a + 4096) = unat a + 4096" by (simp add: unat_word_ariths)
    then have nw: "\<not> a + PGSIZE < a" by (simp add: word_less_nat_alt)
    have al: "pg_aligned (a + PGSIZE)" using "1.prems"(1) un by (simp add: pg_aligned_unat)
    note IH = "1.IH" [OF True nw al "1.prems"(2)]
    have eq: "pg_addrs a e = a # pg_addrs (a + 4096) e" using True nw by (subst pg_addrs.simps) simp
    have split: "a \<le> y \<longleftrightarrow> y = a \<or> a + 4096 \<le> y" if "pg_aligned y" for y
      using aligned_cases [OF "1.prems"(1) that] un by (auto simp: word_le_nat_alt word_unat_eq_iff)
    have "set (pg_addrs a e) = {y. pg_aligned y \<and> a \<le> y \<and> y < e}"
      unfolding eq using IH "1.prems"(1) True split by auto
    moreover have "distinct (pg_addrs a e)" unfolding eq using IH un by (auto simp: word_le_nat_alt)
    ultimately show ?thesis by blast
  qed
qed

lemma allocuvm_ok:
  assumes inv: "cow_inv kend s D xs" and d: "d \<in> D" and cur: "curproc s = Some i"
    and sz: "oldsz \<le> newsz" "newsz < KERNBASE"
  defines "as \<equiv> pg_addrs (PGROUNDUP oldsz) newsz"
  assumes n: "\<forall>a. PGROUNDUP oldsz \<le> a \<longrightarrow> a < newsz \<longrightarrow> \<not> umap (ram s) d a"
    and room: "length as + card (missing (ram s) d (PDX ` set as)) \<le> length xs"
  shows "\<exists>s' ys. allocuvm kend d oldsz newsz s = Inr (newsz, s') \<and> cow_inv kend s' D ys \<and> set ys \<subseteq> set xs \<and>
    curproc s' = Some i \<and>
    (\<forall>e \<in> D. \<forall>y. uview (ram s') e y =
       (if e = d \<and> PGROUNDUP oldsz \<le> PTE_ADDR y \<and> PTE_ADDR y < newsz then Some 0 else uview (ram s) e y))"
proof -
  have le: "newsz \<le> KERNBASE" using sz(2) by simp
  have P: "distinct as" "set as = {y. pg_aligned y \<and> PGROUNDUP oldsz \<le> y \<and> y < newsz}"
    using pg_addrs_range [OF PGROUNDUP_aligned le] unfolding as_def by blast+
  have "\<forall>a \<in> set as. pg_aligned a \<and> a < KERNBASE \<and> \<not> umap (ram s) d a"
    unfolding P(2) using n less_trans [OF _ sz(2)] by blast
  note A = allocuvm_loop_ok [OF inv d P(1) cur this room, of oldsz newsz]
  have eq: "allocuvm kend d oldsz newsz s = allocuvm_loop kend d oldsz newsz as s"
    using leD [OF sz(1)] sz(2) unfolding allocuvm_def as_def by (auto simp: not_le)
  have mem: "PTE_ADDR y \<in> set as \<longleftrightarrow> PGROUNDUP oldsz \<le> PTE_ADDR y \<and> PTE_ADDR y < newsz" for y
    unfolding P(2) by simp
  show ?thesis using A unfolding eq mem .
qed

end
