(* ===== verification/Xv6_CopyUvm.thy ===== *)
theory Xv6_CopyUvm
  imports Xv6_Grow
begin

text \<open>
  Sharing an address space: \<open>copyuvm\<close> keeps the copy-on-write invariant, and the child sees
  the parent's memory.
\<close>

section \<open>One page\<close>

text \<open>The page table effect of one pass of the loop.\<close>

lemma share_page_run:
  assumes ok: "vm_ok kend s D xs" and d: "p \<in> D" "d \<in> D" "p \<noteq> d" and i: "pg_aligned i" "i < KERNBASE"
    and u: "umap (ram s) p i" and n: "\<not> umap (ram s) d i"
    and room: "pde_on (ram s) d (PDX i) \<or> xs \<noteq> []"
  shows "\<exists>s3 us ys. (\<forall>r is. inc_sharing (walkpgdir0 d i (ram s3)) (pgno (upage (ram s) p i)) (rmap s) = Inr r \<longrightarrow>
      copyuvm_loop kend p d child (i # is) s = copyuvm_loop kend p d child is
        (upd_proc child (\<lambda>p. p\<lparr>p_rss := p_rss p + PGSIZE\<rparr>) (s3\<lparr>rmap := r\<rparr>))) \<and>
    vm_ok kend s3 D ys \<and> xs = us @ ys \<and> length us = (if pde_on (ram s) d (PDX i) then 0 else 1) \<and> alloc_only s s3 \<and>
    entry_change (poke (walkpgdir0 p i (ram s)) (pteval (ram s) p i AND NOT PTE_W) s) s3 D d i
      (pteval (ram s) p i AND NOT PTE_W) \<and>
    (\<forall>e \<in> D. tpages (ram s3) e \<subseteq> tpages (ram s) e \<union> set us) \<and>
    (\<forall>a. PTE_ADDR a \<notin> tpages (ram s) p \<longrightarrow> PTE_ADDR a \<notin> tpages (ram s) d \<union> set us \<longrightarrow> ram s3 a = ram s a) \<and>
    (\<forall>e \<in> D. \<forall>j < 1024. pde_on (ram s) e j \<longrightarrow> pde_on (ram s3) e j)"
proof -
  let ?v = "pteval (ram s) p i AND NOT PTE_W"
  have al: "PTE_ADDR i = i" using i(1) by (rule PTE_ADDR_of_aligned)
  note onp = umap_on [OF u]
  note Wp = walk_props [OF vm_okD(2) [OF ok d(1)] onp]
  let ?pa = "PTE_ADDR (pteval (ram s) p i)" and ?fl = "PTE_FLAGS (pteval (ram s) p i)"
  have "pteval (ram s) d i AND 1 = 0" using n i(2) by (simp add: umap_def)
  from mappages_page [OF ok d(2) i(1) this room, of ?pa ?fl] obtain s1 us ys where
    m: "mappages kend d i 4096 ?pa ?fl s = Inr (0, s1)" and g: "grows kend D d us s xs s1 ys" and
    len: "length us = (if pde_on (ram s) d (PDX i) then 0 else 1)" and
    pv1: "pteval (ram s1) d = (\<lambda>x. if PTE_ADDR x = i then ?pa OR ?fl OR PTE_P else pteval (ram s) d x)" and
    on1: "pde_on (ram s1) d (PDX i)" by blast
  note ok1 = growsD(1) [OF g]
  note O1 = grows_other [OF ok g d(2)]
  have onp1: "pde_on (ram s1) p (PDX i)" using O1(4) [OF d(1,3), of "PDX i"] onp by simp
  let ?s2 = "poke (walkpgdir0 p i (ram s1)) ?v s1"
  note P2 = vm_ok_poke [OF ok1 d(1) onp1, where v = ?v]
  have on2: "pde_on (ram ?s2) d (PDX i)" using P2(5) [OF d(2)] on1 by simp
  obtain s3 where s3: "s3 = poke (walkpgdir0 d i (ram ?s2)) ?v ?s2" by blast
  note P3 = vm_ok_poke [OF P2(1) d(2) on2, where v = ?v, folded s3]
  have run: "copyuvm_loop kend p d child (i # is) s = copyuvm_loop kend p d child is
        (upd_proc child (\<lambda>p. p\<lparr>p_rss := p_rss p + PGSIZE\<rparr>) (s3\<lparr>rmap := r\<rparr>))"
    if "inc_sharing (walkpgdir0 d i (ram s3)) (pgno (upage (ram s) p i)) (rmap s) = Inr r" for r "is"
  proof -
    have w: "walkpgdir0 p i (ram s1) = walkpgdir0 p i (ram s)" by (rule O1(3) [OF d(1,3)])
    have l1: "ld32 (ram s1) (walkpgdir0 p i (ram s)) = pteval (ram s) p i"
      using walk_props(5) [OF vm_okD(2) [OF ok1 d(1)] onp1] w O1(1) [OF d(1,3)] by simp
    have nz: "walkpgdir0 d i (ram s1) \<noteq> 0" by (rule walk_props(4) [OF vm_okD(2) [OF ok1 d(2)] on1])
    have w2: "walkpgdir0 d i (ram ?s2) = walkpgdir0 d i (ram s1)" by (rule P2(6) [OF d(2)])
    have w3: "walkpgdir0 d i (ram s3) = walkpgdir0 d i (ram s1)" using P3(6) [OF d(2)] w2 by simp
    have pg: "?pa div 4096 = pgno (upage (ram s) p i)" by (simp add: pgno_def upage_def)
    have "rmap s1 = rmap s" using alloc_onlyD(1) [OF growsD(3) [OF g]] .
    then show ?thesis
      using Wp(4,5) u m l1 nz that [unfolded w3] unfolding s3 w2 [unfolded w] w
      by (simp add: Let_def umap_def pg k_inc_sharing_def)
  qed
  let ?sA = "poke (walkpgdir0 p i (ram s)) ?v s"
  note PA = vm_ok_poke [OF ok d(1) onp, where v = ?v]
  have tA: "umap (ram ?sA) e x = umap (ram s) e x" if "e \<in> D" for e x
    using PA(2) PA(3) [OF that] umap_same_page [of x i "ram s" p] u i(2) al clear_W(2)
    by (cases "e = p") (auto simp: umap_def pbit split: if_splits)
  have walk3: "walkpgdir0 e x (ram s3) = walkpgdir0 e x (ram s)" if "e \<in> D" "pde_on (ram s) e (PDX x)" for e x
    using P3(6) [OF that(1)] P2(6) [OF that(1)] O1(3) [OF that(1)] growsD(7) [OF g] that(2) by (cases "e = d") auto
  have on3: "pde_on (ram s3) e j" if "e \<in> D" "j < 1024" "pde_on (ram s) e j" for e j
    using P3(5) [OF that(1,2)] P2(5) [OF that(1,2)] O1(4) [OF that(1) _ that(2)] growsD(6) [OF g that(2)] that(3)
    by (cases "e = d") auto
  have pv3: "pteval (ram s3) e x = (if e = d \<and> PTE_ADDR x = i then ?v else pteval (ram ?sA) e x)" if e: "e \<in> D" for e x
  proof -
    consider "e = d" | "e = p" | "e \<noteq> d" "e \<noteq> p" by blast
    then show ?thesis
    proof cases
      case 1
      have "pteval (ram ?s2) d = pteval (ram s1) d" using P2(3) [OF d(2)] d(3) by blast
      then show ?thesis unfolding 1 P3(2) al using pv1 PA(3) [OF d(2)] d(3) by auto
    next
      case 2
      have "pteval (ram s3) p = pteval (ram ?s2) p" using P3(3) [OF d(1,3)] .
      then show ?thesis unfolding 2 P2(2) PA(2) al using O1(1) [OF d(1,3)] d(3) by auto
    next
      case 3
      then show ?thesis using P3(3) [OF e] P2(3) [OF e] O1(1) [OF e] PA(3) [OF e] by simp
    qed
  qed
  have "entry_change ?sA s3 D d i ?v"
    unfolding entry_change_def
    using d(2) i pv3 P3(5) [OF d(2)] on2 tA walk3 on3 PA(6) umap_on by auto
  moreover have tp3: "tpages (ram s3) e \<subseteq> tpages (ram s) e \<union> set us" if "e \<in> D" for e
    using P3(4) [OF that] P2(4) [OF that] O1(2) [OF that] growsD(4) [OF g] by (cases "e = d") auto
  moreover have "ram s3 a = ram s a"
    if "PTE_ADDR a \<notin> tpages (ram s) p" "PTE_ADDR a \<notin> tpages (ram s) d \<union> set us" for a
  proof -
    have t1: "tpages (ram s1) d = tpages (ram s) d \<union> set us" by (rule growsD(4) [OF g])
    have "ram s3 a = ram ?s2 a" using that P2(4) [OF d(2)] t1 by (intro P3(7)) simp
    also have "\<dots> = ram s1 a" using that O1(2) [OF d(1,3)] by (intro P2(7)) simp
    also have "\<dots> = ram s a" using that t1 by (intro growsD(5) [OF g]) simp
    finally show ?thesis .
  qed
  moreover have "alloc_only s s3"
    using alloc_only_trans [OF alloc_only_trans [OF growsD(3) [OF g] alloc_only_poke] alloc_only_poke]
    unfolding s3 .
  ultimately show ?thesis using run P3(1) growsD(2) [OF g] len on3 by blast
qed

text \<open>Sharing a page keeps the invariant; the other process sees the page, nobody loses one.\<close>

lemma share_page:
  assumes inv: "cow_inv kend s D xs" and d: "p \<in> D" "d \<in> D" "p \<noteq> d" and i: "pg_aligned i" "i < KERNBASE"
    and u: "umap (ram s) p i" and n: "\<not> umap (ram s) d i"
    and room: "pde_on (ram s) d (PDX i) \<or> xs \<noteq> []"
    and cap: "size (rmap_refs (rmap s (pgno (upage (ram s) p i)))) < NPROC"
  shows "\<exists>s' us ys. (\<forall>is. copyuvm_loop kend p d child (i # is) s = copyuvm_loop kend p d child is s') \<and>
    cow_inv kend s' D ys \<and> xs = us @ ys \<and> length us = (if pde_on (ram s) d (PDX i) then 0 else 1) \<and>
    (\<forall>e \<in> D. \<forall>x < KERNBASE. pteval (ram s') e x = (if PTE_ADDR x = i \<and> (e = p \<or> e = d)
       then pteval (ram s) p i AND NOT PTE_W else pteval (ram s) e x)) \<and>
    (\<forall>e \<in> D. \<forall>x. uview (ram s') e x = (if e = d \<and> PTE_ADDR x = i then uview (ram s) p x else uview (ram s) e x)) \<and>
    (\<forall>e \<in> D. \<forall>j < 1024. pde_on (ram s) e j \<longrightarrow> pde_on (ram s') e j) \<and>
    (\<forall>q. size (rmap_refs (rmap s' q)) = size (rmap_refs (rmap s q)) + (if q = pgno (upage (ram s) p i) then 1 else 0)) \<and>
    pde_on (ram s') d (PDX i)"
proof -
  let ?v = "pteval (ram s) p i AND NOT PTE_W" and ?pg = "upage (ram s) p i"
  let ?sA = "poke (walkpgdir0 p i (ram s)) ?v s"
  from share_page_run [OF cow_invD(1) [OF inv] d i u n room, of child] obtain s3 us ys where
    run: "\<forall>r is. inc_sharing (walkpgdir0 d i (ram s3)) (pgno ?pg) (rmap s) = Inr r \<longrightarrow>
      copyuvm_loop kend p d child (i # is) s = copyuvm_loop kend p d child is
        (upd_proc child (\<lambda>p. p\<lparr>p_rss := p_rss p + PGSIZE\<rparr>) (s3\<lparr>rmap := r\<rparr>))" and
    ok3: "vm_ok kend s3 D ys" and xs: "xs = us @ ys" and len: "length us = (if pde_on (ram s) d (PDX i) then 0 else 1)" and
    c: "entry_change ?sA s3 D d i ?v" and tp: "\<forall>e \<in> D. tpages (ram s3) e \<subseteq> tpages (ram s) e \<union> set us" and
    fr: "\<forall>a. PTE_ADDR a \<notin> tpages (ram s) p \<longrightarrow> PTE_ADDR a \<notin> tpages (ram s) d \<union> set us \<longrightarrow> ram s3 a = ram s a" and
    mono: "\<forall>e \<in> D. \<forall>j < 1024. pde_on (ram s) e j \<longrightarrow> pde_on (ram s3) e j" by blast
  have v: "bit ?v 0" "PTE_ADDR ?v = PTE_ADDR (pteval (ram s) p i)" "\<not> bit ?v 1"
    using u clear_W [of "pteval (ram s) p i"] by (simp_all add: umap_def pbit)
  have pg: "P2V (PTE_ADDR ?v) = ?pg" unfolding v(2) upage_def ..
  note A = cow_reflag [OF inv d(1) u i(1) v(1,2)] 
  have invA: "cow_inv kend ?sA D xs" and cA: "entry_change s ?sA D p i ?v"
    and pvA: "pteval (ram ?sA) p i = ?v" and mpA: "mappers (ram ?sA) D q = mappers (ram s) D q" for q
    using A(1,3-5) v(3) by blast+
  have uA: "umap (ram ?sA) e x = umap (ram s) e x" "umap (ram s) e x \<Longrightarrow> upage (ram ?sA) e x = upage (ram s) e x"
    "uview (ram ?sA) e x = uview (ram s) e x" if "e \<in> D" for e x
  proof -
    show uv: "uview (ram ?sA) e x = uview (ram s) e x" using A(2) v(3) that by blast
    then show um: "umap (ram ?sA) e x = umap (ram s) e x" by (auto simp: uview_def split: if_splits)
    show "upage (ram ?sA) e x = upage (ram s) e x" if "umap (ram s) e x"
      using entry_change_umap(2) [OF cA \<open>e \<in> D\<close>, of x] um that pg upage_page [of "ram s" p x] by (auto split: if_splits)
  qed
  have kp: "kpage kend ?pg" by (rule cow_invD(2) [OF inv d(1) u])
  let ?w = "walkpgdir0 d i (ram s3)"
  let ?r = "(rmap s)(pgno ?pg := inc_entry ?w (rmap s (pgno ?pg)))"
  have inc: "inc_sharing ?w (pgno ?pg) (rmap s) = Inr ?r" using pgno_less [OF kp] by (simp add: inc_sharing_def)
  obtain s' where s': "s' = upd_proc child (\<lambda>p. p\<lparr>p_rss := p_rss p + PGSIZE\<rparr>) (s3\<lparr>rmap := ?r\<rparr>)" by blast
  have ram': "ram s' = ram s3" and rmap': "rmap s' = ?r" unfolding s' by simp_all
  have ok': "vm_ok kend s' D ys" unfolding s' using ok3 by (simp add: vm_ok_def free_ok_def)
  have c': "entry_change ?sA s' D d i ?v" using c unfolding entry_change_def ram' .
  have nA: "\<not> umap (ram ?sA) d i" using uA(1) [OF d(2)] n by blast
  have quiet: "upage (ram ?sA) e x \<noteq> ?pg" if e: "e \<in> D" "umap (ram ?sA) e x" "bit (pteval (ram ?sA) e x) 1" for e x
  proof
    assume eq: "upage (ram ?sA) e x = ?pg"
    have up: "umap (ram ?sA) p i" using uA(1) [OF d(1)] u by blast
    have "upage (ram ?sA) p i = upage (ram ?sA) e x" using uA(2) [OF d(1) u] eq by simp
    from mapperI [OF d(1) up this] have "walkpgdir0 p i (ram ?sA) = walkpgdir0 e x (ram ?sA)"
      unfolding cow_invD(7) [OF invA e] by (rule singletonD)
    from walk_inj2 [OF cow_invD(1) [OF invA] d(1) e(1) umap_on [OF up] umap_on [OF e(2)] this]
    have "pteval (ram ?sA) e x = ?v" using pvA pteval_page by metis
    then show False using e(3) v(3) by simp
  qed
  note M = cow_inv_map [OF invA ok' c' nA v(1), unfolded pg]
  have tp': "tpages (ram s') e \<subseteq> tpages (ram ?sA) e \<union> set xs" "?pg \<notin> tpages (ram s') e" if "e \<in> D" for e
    using tp [rule_format, OF that] xs vm_ok_poke(4) [OF cow_invD(1) [OF inv] d(1) umap_on [OF u] that, of ?v]
      cow_invD(3) [OF inv d(1) u] cow_invD(4) [OF inv d(1) u that] unfolding ram' by auto
  have pre: "set ys \<subseteq> set xs" "?pg \<notin> set ys" using xs cow_invD(3) [OF inv d(1) u] by auto
  have inv': "cow_inv kend s' D ys"
    by (rule M(1)) (use pre tp' kp rmap' ram' cap quiet v(3) in simp_all)
  have sz: "size (rmap_refs (rmap s' q)) = size (rmap_refs (rmap s q)) + (if q = pgno ?pg then 1 else 0)" for q
    using M(2) [of q] pre tp' kp rmap' ram' cap quiet v(3) by simp
  have pv: "pteval (ram s') e x = (if PTE_ADDR x = i \<and> (e = p \<or> e = d) then ?v else pteval (ram s) e x)"
    if "e \<in> D" "x < KERNBASE" for e x
    using entry_changeD(5) [OF c' that] entry_changeD(5) [OF cA that] by (auto split: if_splits)
  have uv: "uview (ram s') e x = (if e = d \<and> PTE_ADDR x = i then uview (ram s) p x else uview (ram s) e x)"
    if e: "e \<in> D" for e x
  proof -
    have data: "ram s3 (upage (ram s) e y + PTE_FLAGS x) = ram s (upage (ram s) e y + PTE_FLAGS x)"
      if e: "e \<in> D" and y: "umap (ram s) e y" for e y
    proof -
      note K = cow_invD(2-4) [OF inv e y]
      have "PTE_ADDR (upage (ram s) e y + PTE_FLAGS x) = upage (ram s) e y"
        by (rule page_offset) (use K(1) in \<open>simp add: kpage_def\<close>)
      then show ?thesis using fr K(2,3) d xs by auto
    qed
    show ?thesis
    proof (cases "e = d \<and> PTE_ADDR x = i")
      case True
      have "umap (ram s) p x" using u True page_of_user [OF i, of x] pteval_page [of "ram s" p x] by (auto simp: umap_def)
      moreover have "upage (ram s) p x = ?pg" using True upage_page by metis
      ultimately show ?thesis
        using entry_change_umap [OF c' e, of x] True v(1) pg data [OF d(1) u] unfolding uview_def ram' by simp
    next
      case False
      have "uview (ram s3) e x = uview (ram s) e x"
        by (rule uview_same) (use entry_change_umap [OF c e, of x] False uA(1,2) [OF e] data [OF e] in auto)
      then show ?thesis unfolding ram' using False by auto
    qed
  qed
  have run': "\<forall>is. copyuvm_loop kend p d child (i # is) s = copyuvm_loop kend p d child is s'"
    unfolding s' using run inc by blast
  show ?thesis
    using run' inv' xs len pv uv mono sz entry_changeD(4) [OF c'] unfolding ram' [symmetric] by blast
qed

text \<open>The loop of \<open>copyuvm\<close>: every page of the list is shared, in any order.\<close>

definition room_for :: "kstate \<Rightarrow> u32 \<Rightarrow> u32 list \<Rightarrow> bool" where
  "room_for s p is \<longleftrightarrow> (\<forall>i \<in> set is. size (rmap_refs (rmap s (pgno (upage (ram s) p i)))) +
     length (filter (\<lambda>j. upage (ram s) p j = upage (ram s) p i) is) \<le> NPROC)"

lemma copyuvm_loop_ok:
  assumes "cow_inv kend s D xs" and "p \<in> D" "d \<in> D" "p \<noteq> d" and "distinct is"
    and "\<forall>i \<in> set is. pg_aligned i \<and> i < KERNBASE \<and> umap (ram s) p i \<and> \<not> umap (ram s) d i"
    and "card (missing (ram s) d (PDX ` set is)) \<le> length xs" and "room_for s p is"
  shows "\<exists>s' us ys. copyuvm_loop kend p d child is s = Inr (True, s') \<and> cow_inv kend s' D ys \<and> xs = us @ ys \<and>
    (\<forall>e \<in> D. \<forall>x. uview (ram s') e x =
       (if e = d \<and> PTE_ADDR x \<in> set is then uview (ram s) p x else uview (ram s) e x))"
  using assms
proof (induction "is" arbitrary: s xs)
  case Nil
  then show ?case by auto
next
  case (Cons i "is")
  note inv = Cons.prems(1) and D = Cons.prems(2-4)
  have i: "pg_aligned i" "i < KERNBASE" "umap (ram s) p i" "\<not> umap (ram s) d i" using Cons.prems(6) by simp_all
  let ?M = "missing (ram s) d (PDX ` set (i # is))" and ?pg = "upage (ram s) p i"
  have fin: "finite ?M" by (simp add: missing_def)
  have room: "pde_on (ram s) d (PDX i) \<or> xs \<noteq> []"
  proof (rule disjCI)
    assume "\<not> xs \<noteq> []"
    then have "?M = {}" using Cons.prems(7) fin by simp
    then show "pde_on (ram s) d (PDX i)" by (auto simp: missing_def)
  qed
  have cap: "size (rmap_refs (rmap s (pgno ?pg))) < NPROC"
    using Cons.prems(8) by (simp add: room_for_def)
  from share_page [OF inv D i room cap, of child] obtain s' us ys where
    run: "\<forall>is. copyuvm_loop kend p d child (i # is) s = copyuvm_loop kend p d child is s'" and
    inv': "cow_inv kend s' D ys" and xs: "xs = us @ ys" "length us = (if pde_on (ram s) d (PDX i) then 0 else 1)" and
    pv: "\<forall>e \<in> D. \<forall>x < KERNBASE. pteval (ram s') e x = (if PTE_ADDR x = i \<and> (e = p \<or> e = d)
       then pteval (ram s) p i AND NOT PTE_W else pteval (ram s) e x)" and
    uv: "\<forall>e \<in> D. \<forall>x. uview (ram s') e x = (if e = d \<and> PTE_ADDR x = i then uview (ram s) p x else uview (ram s) e x)" and
    on: "\<forall>e \<in> D. \<forall>j < 1024. pde_on (ram s) e j \<longrightarrow> pde_on (ram s') e j" and
    sz: "\<forall>q. size (rmap_refs (rmap s' q)) = size (rmap_refs (rmap s q)) + (if q = pgno ?pg then 1 else 0)" and
    oni: "pde_on (ram s') d (PDX i)" by blast
  have same: "pteval (ram s') e j = pteval (ram s) e j" if "j \<in> set is" "e \<in> D" for j e
  proof -
    have "PTE_ADDR j = j" "j \<noteq> i" "j < KERNBASE" using that Cons.prems(5,6) by (auto intro: PTE_ADDR_of_aligned)
    then show ?thesis using pv that by simp
  qed
  have um: "umap (ram s') e j = umap (ram s) e j" "upage (ram s') e j = upage (ram s) e j" if "j \<in> set is" "e \<in> D" for j e
    using same [OF that] by (simp_all add: umap_def upage_def)
  have "missing (ram s') d (PDX ` set is) \<subseteq> ?M - {PDX i}"
    using on oni D(2) by (auto simp: missing_def)
  from card_mono [OF _ this] have "card (missing (ram s') d (PDX ` set is)) \<le> card (?M - {PDX i})" using fin by simp
  also have "\<dots> = card ?M - (if PDX i \<in> ?M then 1 else 0)" using fin by (simp add: card_Diff_singleton_if)
  also have "\<dots> \<le> length ys" using Cons.prems(7) xs by (auto simp: missing_def)
  finally have len: "card (missing (ram s') d (PDX ` set is)) \<le> length ys" .
  have rf: "room_for s' p is" unfolding room_for_def
  proof
    fix j assume j: "j \<in> set is"
    have f: "filter (\<lambda>k. upage (ram s') p k = upage (ram s') p j) is = filter (\<lambda>k. upage (ram s) p k = upage (ram s) p j) is"
      using um(2) [OF _ D(1)] j by (intro filter_cong) auto
    have "pgno (upage (ram s) p j) = pgno ?pg \<Longrightarrow> upage (ram s) p j = ?pg"
      by (rule pgno_inj [OF cow_invD(2) [OF inv D(1)] cow_invD(2) [OF inv D(1)]]) (use Cons.prems(6) j in auto)
    then show "size (rmap_refs (rmap s' (pgno (upage (ram s') p j)))) +
        length (filter (\<lambda>k. upage (ram s') p k = upage (ram s') p j) is) \<le> NPROC"
      unfolding f unfolding um(2) [OF j D(1)]
      using bspec [OF Cons.prems(8) [unfolded room_for_def], of j] j sz by (auto split: if_splits)
  qed
  have "\<forall>j \<in> set is. pg_aligned j \<and> j < KERNBASE \<and> umap (ram s') p j \<and> \<not> umap (ram s') d j"
    using Cons.prems(6) um D by simp
  from Cons.IH [OF inv' D _ this len rf] Cons.prems(5) obtain s2 vs zs where
    r2: "copyuvm_loop kend p d child is s' = Inr (True, s2)" "cow_inv kend s2 D zs" "ys = vs @ zs" and
    uv2: "\<forall>e \<in> D. \<forall>x. uview (ram s2) e x =
       (if e = d \<and> PTE_ADDR x \<in> set is then uview (ram s') p x else uview (ram s') e x)" by auto
  have "copyuvm_loop kend p d child (i # is) s = Inr (True, s2)" using run r2(1) by simp
  moreover have "\<forall>e \<in> D. \<forall>x. uview (ram s2) e x =
       (if e = d \<and> PTE_ADDR x \<in> set (i # is) then uview (ram s) p x else uview (ram s) e x)"
    using uv uv2 D by auto
  ultimately show ?case using r2 xs by (metis append.assoc)
qed

section \<open>The whole of copyuvm\<close>

lemma copyuvm_ok:
  assumes inv: "cow_inv kend s D xs" and p: "p \<in> D" and sz: "sz \<le> KERNBASE"
    and kd: "pg_aligned kdata" "KERNLINK < kdata" "kdata < P2V PHYSTOP"
    and u: "\<forall>a < sz. umap (ram s) p a" and cap: "room_for s p (pg_addrs 0 sz)"
    and room: "10 + card (PDX ` {a. a < sz}) \<le> length xs"
  shows "\<exists>d s' ys. copyuvm kend kdata p sz child s = Inr (d, s') \<and> d \<noteq> 0 \<and> d \<notin> D \<and>
    cow_inv kend s' (insert d D) ys \<and> set ys \<subseteq> set xs \<and>
    (\<forall>y. uview (ram s') d y = (if PTE_ADDR y < sz then uview (ram s) p y else None)) \<and>
    (\<forall>e \<in> D. \<forall>y. uview (ram s') e y = uview (ram s) e y)"
proof -
  have "10 \<le> length xs" using room by simp
  from setupkvm_ok [OF cow_invD(1) [OF inv] this kd] obtain d s1 us ys where
    k: "setupkvm kend kdata s = Inr (d, s1)" "d \<noteq> 0" "d \<notin> D" and ok1: "vm_ok kend s1 (insert d D) ys" and
    xs: "xs = us @ ys" "length us \<le> 10" and ao: "alloc_only s s1" and tp: "tpages (ram s1) d = set us" and
    pv: "pteval (ram s1) d = kern_pte kdata" and fr: "\<forall>a. PTE_ADDR a \<notin> set us \<longrightarrow> ram s1 a = ram s a" by blast
  have none: "\<And>x. x < KERNBASE \<Longrightarrow> pteval (ram s1) d x = 0" unfolding pv kern_pte_def by simp
  note N = cow_inv_new_dir [OF inv ok1 xs(1) alloc_onlyD(1) [OF ao] k(3) tp fr [rule_format] none]
  have inv1: "cow_inv kend s1 (insert d D) ys" and uv1: "e \<in> D \<Longrightarrow> uview (ram s1) e x = uview (ram s) e x"
    and pv1: "e \<in> D \<Longrightarrow> pteval (ram s1) e x = pteval (ram s) e x" and uvd: "uview (ram s1) d x = None" for e x
    using N by blast+
  let ?as = "pg_addrs 0 sz"
  have P: "distinct ?as" "set ?as = {y. pg_aligned y \<and> y < sz}"
    using pg_addrs_range [of 0 sz] sz by (auto simp: pg_aligned_def)
  have um: "umap (ram s1) p y = umap (ram s) p y" "upage (ram s1) p y = upage (ram s) p y" for y
    using pv1 [OF p] by (simp_all add: umap_def upage_def)
  have pre: "\<forall>i \<in> set ?as. pg_aligned i \<and> i < KERNBASE \<and> umap (ram s1) p i \<and> \<not> umap (ram s1) d i"
    unfolding P(2) um using u sz none by (auto simp: umap_def)
  have "missing (ram s1) d (PDX ` set ?as) \<subseteq> PDX ` {a. a < sz}" unfolding P(2) missing_def by blast
  then have "card (missing (ram s1) d (PDX ` set ?as)) \<le> card (PDX ` {a. a < sz})" by (intro card_mono) simp_all
  then have len: "card (missing (ram s1) d (PDX ` set ?as)) \<le> length ys" using room xs by simp
  have cap1: "room_for s1 p ?as" using cap alloc_onlyD(1) [OF ao] by (simp add: room_for_def um)
  have "p \<noteq> d" using p k(3) by blast
  from copyuvm_loop_ok [OF inv1 _ _ this P(1) pre len cap1, of child] p obtain s2 vs zs where
    l: "copyuvm_loop kend p d child ?as s1 = Inr (True, s2)" "cow_inv kend s2 (insert d D) zs" "ys = vs @ zs" and
    uv2: "\<forall>e \<in> insert d D. \<forall>x. uview (ram s2) e x =
       (if e = d \<and> PTE_ADDR x \<in> set ?as then uview (ram s1) p x else uview (ram s1) e x)" by auto
  have mem: "PTE_ADDR y \<in> set ?as \<longleftrightarrow> PTE_ADDR y < sz" for y unfolding P(2) by simp
  have "copyuvm kend kdata p sz child s = Inr (d, s2\<lparr>cr3 := V2P p\<rparr>)"
    using k(1,2) l(1) by (simp add: copyuvm_def)
  moreover have "uview (ram s2) d y = (if PTE_ADDR y < sz then uview (ram s) p y else None)" for y
    using uv2 uvd uv1 [OF p] mem by simp
  moreover have "uview (ram s2) e y = uview (ram s) e y" if "e \<in> D" for e y
    using uv2 uv1 [OF that] that k(3) by auto
  ultimately show ?thesis using k l(2,3) xs(1)
    by (intro exI [of _ d] exI [of _ "s2\<lparr>cr3 := V2P p\<rparr>"] exI [of _ zs]) auto
qed

end
