(* ===== verification/Xv6_VmProps.thy ===== *)
theory Xv6_VmProps
  imports Xv6_CopyUvm
begin

text \<open>
  The properties of virtual memory and copy on write, and the address space they are
  instantiated at: the one that the allocator, \<open>setupkvm\<close> and \<open>inituvm\<close> build from the
  kernel's initial state.
\<close>

section \<open>A first address space\<close>

lemma kfree_list_alloc_only:
  assumes "free_ok kend s xs" and "\<forall>p \<in> set ps. kpage kend p \<and> p \<notin> set xs" and "distinct ps"
  shows "\<exists>s'. kfree_list kend ps s = Inr s' \<and> free_ok kend s' (rev ps @ xs) \<and> alloc_only s s'"
  using assms
proof (induction ps arbitrary: s xs)
  case Nil
  then show ?case by simp
next
  case (Cons p ps)
  from kfree_ok [OF Cons.prems(1), of p] Cons.prems(2) obtain t where
    t: "kfree kend p s = Inr t" "free_ok kend t (p # xs)"
      "t = s\<lparr>ram := ram t, freelist := p, num_free_pages := num_free_pages s + 1\<rparr>" by auto
  have ao: "alloc_only s t" by (subst t(3)) (simp add: alloc_only_iff)
  from Cons.IH [OF t(2)] Cons.prems(2,3) obtain s' where
    "kfree_list kend ps t = Inr s'" "free_ok kend s' (rev ps @ p # xs)" "alloc_only t s'" by auto
  then show ?case using t(1) alloc_only_trans [OF ao] by auto
qed

definition boot_pages :: "u32 list" where
  "boot_pages = map (\<lambda>n. 0x80200000 + 0x1000 * of_nat n) [0..<40]"

lemma boot_pages_ok: "\<forall>p \<in> set boot_pages. kpage 0x80120000 p" "distinct boot_pages" "length boot_pages = 40"
  unfolding boot_pages_def by code_simp+

lemma cow_inv_empty:
  assumes "free_ok kend s xs" and "rmap s = rmap_empty"
  shows "cow_inv kend s {} xs"
proof -
  have "mappers (ram s) {} p = {}" for p by (simp add: mappers_def)
  then show ?thesis
    using assms rmap_empty_ok [OF pgno_less] rmap_empty_refs [OF pgno_less] by (auto simp: cow_inv_def vm_ok_def)
qed

lemma first_directory:
  "\<exists>s p xs. cow_inv 0x80120000 s {p} xs \<and> 30 \<le> length xs \<and> curproc s = None \<and> p \<noteq> 0 \<and>
     setupkvm 0x80120000 0x80108000 (projr (kfree_list 0x80120000 boot_pages kboot)) = Inr (p, s) \<and>
     (\<forall>x < KERNBASE. pteval (ram s) p x = 0)"
proof -
  have kd: "pg_aligned (0x80108000 :: u32)" "KERNLINK < 0x80108000" "(0x80108000 :: u32) < P2V PHYSTOP"
    by (simp_all add: pg_aligned_def P2V_def)
  from kfree_list_alloc_only [OF kboot_free, of boot_pages] boot_pages_ok obtain t where
    t: "kfree_list 0x80120000 boot_pages kboot = Inr t" "free_ok 0x80120000 t (rev boot_pages)" "alloc_only kboot t" by auto
  have rm: "rmap t = rmap_empty" "curproc t = None" using alloc_onlyD(1,3) [OF t(3)] by (simp_all add: kboot_def)
  have inv: "cow_inv 0x80120000 t {} (rev boot_pages)" by (rule cow_inv_empty [OF t(2) rm(1)])
  from setupkvm_ok [OF cow_invD(1) [OF inv] _ kd] boot_pages_ok(3) obtain d s us ys where
    k: "setupkvm 0x80120000 0x80108000 t = Inr (d, s)" "d \<noteq> 0" and ok: "vm_ok 0x80120000 s {d} ys" and
    xs: "rev boot_pages = us @ ys" "length us \<le> 10" and ao: "alloc_only t s" and tp: "tpages (ram s) d = set us" and
    pv: "pteval (ram s) d = kern_pte 0x80108000" and fr: "\<forall>a. PTE_ADDR a \<notin> set us \<longrightarrow> ram s a = ram t a" by auto
  have none: "\<And>x. x < KERNBASE \<Longrightarrow> pteval (ram s) d x = 0" unfolding pv kern_pte_def by simp
  have "cow_inv 0x80120000 s {d} ys"
    using cow_inv_new_dir(1) [OF inv ok xs(1) alloc_onlyD(1) [OF ao] _ tp fr [rule_format] none] by simp
  moreover have "30 \<le> length ys"
    using arg_cong [OF xs(1), of length] boot_pages_ok(3) xs(2) by simp
  ultimately show ?thesis using k none alloc_onlyD(3) [OF ao] rm(2) t(1)
    by (intro exI [of _ s] exI [of _ d] exI [of _ ys]) simp
qed

lemma first_space:
  "\<exists>s p xs. cow_inv 0x80120000 s {p} xs \<and> 20 \<le> length xs \<and> curproc s = Some 0 \<and> p_pgdir (proctab s 0) = p \<and>
     (\<forall>y < PGSIZE. umap (ram s) p y \<and> bit (pteval (ram s) p y) 1 \<and> bit (pteval (ram s) p y) 2 \<and>
        uview (ram s) p y = Some 0)"
proof -
  from first_directory obtain t p xs where
    inv: "cow_inv 0x80120000 t {p} xs" and len: "30 \<le> length xs" and none: "\<forall>x < KERNBASE. pteval (ram t) p x = 0" by blast
  from len obtain x zs where xs: "xs = x # zs" "29 \<le> length zs" by (cases xs) auto
  have "zs \<noteq> []" using xs(2) by auto
  then obtain u ys where u: "cow_inv 0x80120000 u {p} ys" "length zs \<le> length ys + 1"
    "\<forall>y < PGSIZE. bit (pteval (ram u) p y) 1 \<and> bit (pteval (ram u) p y) 2"
    "\<forall>y. uview (ram u) p y = (if y < PGSIZE then Some 0 else uview (ram t) p y)"
    using inituvm_ok [OF inv [unfolded xs(1)], of p 0 0] none by (auto simp: umap_def)
  have um: "umap (ram u) p y" if "y < PGSIZE" for y
    using u(4) [rule_format, of y] that by (simp add: uview_def split: if_splits)
  let ?s = "(upd_proc 0 (\<lambda>q. q\<lparr>p_pgdir := p\<rparr>) u)\<lparr>curproc := Some 0\<rparr>"
  have "cow_inv 0x80120000 ?s {p} ys" using u(1) by (simp add: cow_inv_def vm_ok_def free_ok_def)
  then show ?thesis using um u(2-4) xs(2)
    by (intro exI [of _ ?s] exI [of _ p] exI [of _ ys]) simp
qed

section \<open>Properties\<close>

text \<open>C1. Copy on write isolates: when a process stores to one of its mapped pages, the page
  fault handler makes the page writable, the store then succeeds, and it changes the store's
  own byte of the writing process and nothing that any process can see besides.\<close>

theorem cow_write_isolated:
  assumes "cow_inv kend s D xs" and "xs \<noteq> []" and "curproc s = Some p" and "p_pgdir (proctab s p) = d" and "d \<in> D"
    and "umap (ram s) d va" and "bit (pteval (ram s) d va) 2"
  shows "\<exists>t m ys. handle_fage_fault kend va s = Inr t \<and> user_write d va b (ram t) = Some m \<and>
    cow_inv kend (t\<lparr>ram := m\<rparr>) D ys \<and>
    (\<forall>e \<in> D. \<forall>x. uview m e x = (if e = d \<and> x = va then Some b else uview (ram s) e x))"
proof -
  from handle_present [OF assms(1,3-6)] assms(2) obtain t ys where
    t: "handle_fage_fault kend va s = Inr t" "cow_inv kend t D ys" "\<forall>e \<in> D. \<forall>x. uview (ram t) e x = uview (ram s) e x"
      "umap (ram t) d va" "bit (pteval (ram t) d va) 1" "bit (pteval (ram s) d va) 2 \<longrightarrow> bit (pteval (ram t) d va) 2" by blast
  then obtain m where m: "user_write d va b (ram t) = Some m"
    using assms(7) by (simp add: user_write_def pbit)
  note W = user_write_isolated [OF t(2) assms(5) m]
  show ?thesis using t(1,3) m W(1) W(2) assms(5) by auto
qed

theorem cow_write_isolated_witness:
  "\<exists>s p t m. handle_fage_fault 0x80120000 16 s = Inr t \<and> user_write p 16 7 (ram t) = Some m \<and>
     uview (ram s) p 16 = Some 0 \<and> uview m p 16 = Some 7 \<and> uview m p 17 = Some 0"
proof -
  from first_space obtain s p xs where
    s: "cow_inv 0x80120000 s {p} xs" "xs \<noteq> []" "curproc s = Some 0" "p_pgdir (proctab s 0) = p"
      "umap (ram s) p 16" "bit (pteval (ram s) p 16) 2" "uview (ram s) p 16 = Some 0" "uview (ram s) p 17 = Some 0"
    by fastforce
  from cow_write_isolated [OF s(1-4) _ s(5,6), of 7] s(7,8) show ?thesis by fastforce
qed

text \<open>C2. \<open>copyuvm\<close> gives the child a new directory through which it sees exactly the parent's
  memory below \<open>sz\<close>, changes what no process sees, and keeps the copy-on-write invariant.\<close>

theorem copyuvm_shares:
  assumes "cow_inv kend s D xs" and "p \<in> D" and "sz \<le> KERNBASE"
    and "pg_aligned kdata" "KERNLINK < kdata" "kdata < P2V PHYSTOP"
    and "\<forall>a < sz. umap (ram s) p a" and "room_for s p (pg_addrs 0 sz)"
    and "10 + card (PDX ` {a. a < sz}) \<le> length xs"
  shows "\<exists>d s' ys. copyuvm kend kdata p sz child s = Inr (d, s') \<and> d \<noteq> 0 \<and> d \<notin> D \<and>
    cow_inv kend s' (insert d D) ys \<and>
    (\<forall>y. uview (ram s') d y = (if PTE_ADDR y < sz then uview (ram s) p y else None)) \<and>
    (\<forall>e \<in> D. \<forall>y. uview (ram s') e y = uview (ram s) e y)"
  using copyuvm_ok [OF assms] by blast

theorem copyuvm_shares_witness:
  "\<exists>s p d s'. copyuvm 0x80120000 0x80108000 p PGSIZE 1 s = Inr (d, s') \<and> d \<noteq> p \<and>
     uview (ram s') d 16 = Some 0 \<and> uview (ram s') d PGSIZE = None \<and> uview (ram s') p 16 = Some 0"
proof -
  from first_space obtain s p xs where inv: "cow_inv 0x80120000 s {p} xs" and len: "20 \<le> length xs" and
    u: "\<forall>y < PGSIZE. umap (ram s) p y" "bit (pteval (ram s) p 0) 1" "uview (ram s) p 16 = Some 0" by fastforce
  have P: "pg_addrs 0 4096 = [0]" by (simp add: pg_addrs.simps)
  have "PDX ` {a. a < 4096} \<subseteq> {0}" by (auto simp: word_unat_eq_iff unat_PDX word_less_nat_alt)
  then have "card (PDX ` {a :: u32. a < 4096}) \<le> card {0 :: u32}" by (rule card_mono [rotated]) simp
  then have room: "10 + card (PDX ` {a :: u32. a < PGSIZE}) \<le> length xs" using len by simp
  have u0: "umap (ram s) p 0" using u(1) by simp
  have "rmap_refs (rmap s (pgno (upage (ram s) p 0))) = {#walkpgdir0 p 0 (ram s)#}"
    using cow_invD(6) [OF inv cow_invD(2) [OF inv _ u0]] cow_invD(7) [OF inv _ u0 u(2)] by simp
  then have cap: "room_for s p (pg_addrs 0 PGSIZE)" by (simp add: room_for_def P NPROC_def)
  from copyuvm_shares [where kdata = "0x80108000" and child = 1, OF inv _ _ _ _ _ u(1) cap room] u(3) show ?thesis
    by (fastforce simp: pg_aligned_def P2V_def PTE_ADDR_def)
qed

text \<open>C10. \<open>setupkvm\<close> builds a directory, out of free pages, whose entries are those of the
  kernel's address map, and no others.\<close>

theorem setupkvm_maps_kernel:
  assumes "vm_ok kend s D xs" and "10 \<le> length xs"
    and "pg_aligned kdata" "KERNLINK < kdata" "kdata < P2V PHYSTOP"
  shows "\<exists>d s' us xs'. setupkvm kend kdata s = Inr (d, s') \<and> d \<notin> D \<and> vm_ok kend s' (insert d D) xs' \<and>
    xs = us @ xs' \<and> length us \<le> 10 \<and> pteval (ram s') d = kern_pte kdata \<and>
    (\<forall>a. PTE_ADDR a \<notin> set us \<longrightarrow> ram s' a = ram s a)"
  using setupkvm_ok [OF assms] by blast

theorem setupkvm_maps_kernel_witness:
  "\<exists>s s' d. setupkvm 0x80120000 0x80108000 s = Inr (d, s') \<and> pteval (ram s') d = kern_pte 0x80108000"
proof -
  from first_directory obtain s p xs where "cow_inv 0x80120000 s {p} xs" "30 \<le> length xs" by blast
  from setupkvm_maps_kernel [where kdata = "0x80108000", OF cow_invD(1) [OF this(1)]] this(2) show ?thesis
    by (auto simp: pg_aligned_def P2V_def)
qed

text \<open>C11. Growing a process gives zeroed pages above its old end and leaves every other byte
  that a process sees as it was.\<close>

theorem allocuvm_zeroed:
  assumes "cow_inv kend s D xs" and "d \<in> D" and "curproc s = Some i" and "oldsz \<le> newsz" "newsz < KERNBASE"
    and "\<forall>a. PGROUNDUP oldsz \<le> a \<longrightarrow> a < newsz \<longrightarrow> \<not> umap (ram s) d a"
    and "length (pg_addrs (PGROUNDUP oldsz) newsz) +
      card (missing (ram s) d (PDX ` set (pg_addrs (PGROUNDUP oldsz) newsz))) \<le> length xs"
  shows "\<exists>s' ys. allocuvm kend d oldsz newsz s = Inr (newsz, s') \<and> cow_inv kend s' D ys \<and>
    (\<forall>e \<in> D. \<forall>y. uview (ram s') e y =
       (if e = d \<and> PGROUNDUP oldsz \<le> PTE_ADDR y \<and> PTE_ADDR y < newsz then Some 0 else uview (ram s) e y))"
  using allocuvm_ok [OF assms] by blast

theorem allocuvm_zeroed_witness:
  "\<exists>s p s'. allocuvm 0x80120000 p 0 5000 s = Inr (5000, s') \<and> uview (ram s) p 4999 = None \<and> uview (ram s') p 4999 = Some 0"
proof -
  from first_directory obtain t p xs where
    inv: "cow_inv 0x80120000 t {p} xs" and len: "30 \<le> length xs" and none: "\<forall>x < KERNBASE. pteval (ram t) p x = 0" by blast
  let ?s = "t\<lparr>curproc := Some 0\<rparr>"
  have inv': "cow_inv 0x80120000 ?s {p} xs" using inv by (simp add: cow_inv_def vm_ok_def free_ok_def)
  have P: "pg_addrs (PGROUNDUP 0) 5000 = [0, 4096]" by (simp add: pg_addrs.simps PGROUNDUP_def)
  have "card (missing (ram ?s) p (PDX ` set [0, 4096])) \<le> card (PDX ` set [0, 4096])"
    by (rule card_mono) (auto simp: missing_def)
  also have "\<dots> \<le> 2" using card_image_le [of "set [0, 4096 :: u32]" PDX] by simp
  finally have room: "length (pg_addrs (PGROUNDUP 0) 5000) +
      card (missing (ram ?s) p (PDX ` set (pg_addrs (PGROUNDUP 0) 5000))) \<le> length xs"
    unfolding P using len by simp
  have n: "\<not> umap (ram ?s) p a" for a using none by (auto simp: umap_def)
  from allocuvm_zeroed [OF inv' _ _ _ _ _ room] n show ?thesis
    by (fastforce simp: PGROUNDUP_def PTE_ADDR_def uview_def)
qed

text \<open>C19. \<open>inituvm\<close> loads the first program at address 0, the rest of the page zero.\<close>

theorem inituvm_loads:
  assumes "cow_inv kend s D xs" and "2 \<le> length xs" and "d \<in> D" and "\<not> umap (ram s) d 0" and "sz < PGSIZE"
    and "\<forall>b < sz. PTE_ADDR (src + b) \<notin> tpages (ram s) d \<union> set xs" and "unat src + unat sz < 2 ^ 32"
  shows "\<exists>s' ys. inituvm kend d src sz s = Inr s' \<and> cow_inv kend s' D ys \<and>
    (\<forall>e \<in> D. \<forall>y. uview (ram s') e y =
       (if e = d \<and> y < PGSIZE then Some (if y < sz then ram s (src + y) else 0) else uview (ram s) e y))"
proof -
  obtain x zs where xs: "xs = x # zs" "zs \<noteq> []" using assms(2) by (cases xs; cases "tl xs") auto
  from inituvm_ok [OF assms(1) [unfolded xs(1)] assms(3,4) _ assms(5), of src] assms(6,7) xs show ?thesis by blast
qed

theorem inituvm_loads_witness:
  "\<exists>s p s'. inituvm 0x80120000 p 0x80100000 16 s = Inr s' \<and> uview (ram s') p 3 = Some (ram s 0x80100003) \<and>
     uview (ram s') p 16 = Some 0"
proof -
  from first_directory obtain t p xs where
    inv: "cow_inv 0x80120000 t {p} xs" and len: "30 \<le> length xs" and none: "\<forall>x < KERNBASE. pteval (ram t) p x = 0" by blast
  have "kpage 0x80120000 y" if "y \<in> tpages (ram t) p \<union> set xs" for y
    using that vm_okD(1) [OF cow_invD(1) [OF inv]] tpages_kpage [OF vm_okD(2) [OF cow_invD(1) [OF inv]], of p y]
    by (auto simp: free_ok_def)
  moreover have "\<not> kpage 0x80120000 (PTE_ADDR (0x80100000 + b))" if "b < 16" for b
  proof -
    have "b < PGSIZE" using that by (simp add: word_less_nat_alt)
    then have "PTE_ADDR (0x80100000 + b) = 0x80100000" by (intro PTE_ADDR_add) (simp_all add: pg_aligned_def)
    then show ?thesis by (simp add: kpage_def)
  qed
  ultimately have out: "\<forall>b < 16. PTE_ADDR (0x80100000 + b) \<notin> tpages (ram t) p \<union> set xs" by blast
  from inituvm_loads [OF inv _ _ _ _ out] len none show ?thesis by (fastforce simp: umap_def)
qed

text \<open>C20. Mapping a page over a mapped one panics.\<close>

theorem mappages_refuses_remap:
  assumes "cow_inv kend s D xs" and "d \<in> D" and "pg_aligned va" and "umap (ram s) d va"
  shows "mappages kend d va len pa perm s = Inl (Panic ''remap'')"
  using mappages_remap [OF vm_okD(2) [OF cow_invD(1) [OF assms(1)] assms(2)] assms(3) umap_on [OF assms(4)]] assms(4)
  by (simp add: umap_def)

theorem mappages_refuses_remap_witness:
  "\<exists>s p. mappages 0x80120000 p 0 PGSIZE 0x5000 PTE_U s = Inl (Panic ''remap'')"
proof -
  from first_space obtain s p xs where "cow_inv 0x80120000 s {p} xs" "umap (ram s) p 0" by fastforce
  from mappages_refuses_remap [where len = PGSIZE and pa = "0x5000" and perm = PTE_U, OF this(1) _ _ this(2)]
  show ?thesis by (auto simp: pg_aligned_def)
qed

end
