(* ===== verification/Xv6_SwapProps.thy ===== *)
theory Xv6_SwapProps
  imports Xv6_Cow
begin

text \<open>
  Swapping a page out and back. A page that one process maps is written to a free slot and comes
  back with the same bytes at the next fault, marked accessed and not writable; an allocation with
  memory full takes the page of the victim; a page that several processes map is freed although
  only the entry of the victim is changed.
\<close>

section \<open>Swapping out\<close>

text \<open>The search through the processes does not touch memory, the free list or the disk.\<close>

definition same_mem :: "kstate \<Rightarrow> kstate \<Rightarrow> bool" where
  "same_mem s s' \<longleftrightarrow> ram s' = ram s \<and> freelist s' = freelist s \<and> num_free_pages s' = num_free_pages s \<and>
     bcache s' = bcache s \<and> curproc s' = curproc s"

lemma find_pte_swap_out_loop_frame: "find_pte_swap_out_loop p pte idx is s = Inr s' \<Longrightarrow> same_mem s s'"
  by (induction "is" arbitrary: s)
    (auto simp: same_mem_def Let_def slot_record_def k_dec_sharing_def split: if_splits)

lemma make_other_frame: "make_other_pte_swapped_out_loop pte idx ps s = Inr s' \<Longrightarrow> same_mem s s'"
proof (induction ps arbitrary: s)
  case Nil
  then show ?case by (simp add: same_mem_def)
next
  case (Cons p ps)
  then obtain t where t: "(if p_state (proctab s p) = UNUSED then Inr s else find_pte_swap_out p pte idx s) = Inr t"
    "same_mem t s'" by auto
  then have "same_mem s t"
    using find_pte_swap_out_loop_frame by (auto simp: find_pte_swap_out_def same_mem_def split: if_splits)
  then show ?case using t(2) by (simp add: same_mem_def)
qed

text \<open>The entry of a page in slot \<open>idx\<close>.\<close>

definition slot_pte :: "nat \<Rightarrow> u32" where
  "slot_pte idx = push_bit 12 (of_nat idx) OR PTE_S"

lemma bit_not_A: "bit (- 33 :: u32) n \<longleftrightarrow> n < 32 \<and> n \<noteq> 5"
proof -
  have "(- 33 :: u32) = NOT (2 ^ 5)" by simp
  then show ?thesis using bit_not_iff [of "2 ^ 5 :: u32" n] bit_exp_iff [where 'a = "32 word", of 5 n]
    by (auto simp: not_le dest: bit_imp_le_length)
qed

lemma slot_pte_A: "slot_pte idx AND NOT PTE_A = slot_pte idx"
proof (rule bit_word_eqI)
  fix n
  assume n: "n < LENGTH(32)"
  have "\<not> bit (0x80 :: u32) 5" by (simp add: bit_iff_odd)
  then show "bit (slot_pte idx AND NOT PTE_A) n = bit (slot_pte idx) n"
    using n bit_not_A [of n] by (cases "n = 5") (simp_all add: slot_pte_def bit_and_iff bit_or_iff bit_push_bit_iff)
qed

text \<open>After the victim is chosen.\<close>

definition swap_out_end :: "nat \<Rightarrow> u32 \<Rightarrow> kstate \<Rightarrow> kstate" where
  "swap_out_end idx pte s = upd_slot idx (\<lambda>sl. sl\<lparr>sl_pte := fold (\<lambda>i l. l[i := pte]) [0..<unat (cnt sl)] (sl_pte sl)\<rparr>)
     (poke pte (slot_pte idx) (poke pte (slot_pte idx) s))"

lemma swap_out_eq:
  assumes sel: "select_a_victim s = Inr (pte, s0)" and idx: "first_index (\<lambda>i. is_free (swaparray s0 i)) [0..<NSLOTS] = Some idx"
    and pte: "pte \<noteq> 0" and me: "curproc s0 = Some me"
    and w: "write_pag_to_disk (p_pid (proctab s0 me)) (ram s0) (P2V (PTE_ADDR (ld32 (ram s0) pte))) (2 + 8 * of_nat idx) (bcache s0) = Inr b"
    and o: "make_other_pte_swapped_out pte idx (s0\<lparr>bcache := b\<rparr>) = Inr s2"
  shows "find_new_page_after_swapping kend s =
    rbind (kfree kend (P2V (PTE_ADDR (ld32 (ram s0) pte)))
      (upd_slot idx (\<lambda>sl. sl\<lparr>page_perm := PTE_FLAGS (ld32 (ram s0) pte), is_free := False\<rparr>) s2))
      (\<lambda>s3. Inr (swap_out_end idx pte s3))"
proof -
  have r: "ram s2 = ram s0"
    using make_other_frame [OF o [unfolded make_other_pte_swapped_out_def]] by (simp add: same_mem_def)
  have A: "ld32 (ram (poke pte (push_bit 12 (of_nat idx) OR PTE_S) s)) pte AND NOT PTE_A = slot_pte idx" for s
    using slot_pte_A [of idx] by (simp add: slot_pte_def)
  show ?thesis
    unfolding find_new_page_after_swapping_def sel rbind_simps case_prod_conv idx option.case mypid_def myproc_def me
    using pte by (simp add: w o r A Let_def swap_out_end_def del: poke_simps) (use slot_pte_A [of idx] in \<open>simp add: slot_pte_def\<close>)
qed

text \<open>One process of the search: whether it maps the page, and what is recorded when it does.\<close>

definition maps_none :: "kstate \<Rightarrow> u32 \<Rightarrow> nat \<Rightarrow> bool" where
  "maps_none s v q \<longleftrightarrow> p_state (proctab s q) = UNUSED \<or>
     (\<forall>a \<in> set (pg_addrs 0 (p_sz (proctab s q))). walkpgdir0 (p_pgdir (proctab s q)) a (ram s) \<noteq> 0 \<and>
        ld32 (ram s) (walkpgdir0 (p_pgdir (proctab s q)) a (ram s)) \<noteq> v)"

definition maps_at :: "kstate \<Rightarrow> u32 \<Rightarrow> nat \<Rightarrow> u32 \<Rightarrow> bool" where
  "maps_at s v p w \<longleftrightarrow> p_state (proctab s p) \<noteq> UNUSED \<and> ld32 (ram s) w = v \<and>
     (\<exists>a \<in> set (pg_addrs 0 (p_sz (proctab s p))). walkpgdir0 (p_pgdir (proctab s p)) a (ram s) = w) \<and>
     (\<forall>a \<in> set (pg_addrs 0 (p_sz (proctab s p))). walkpgdir0 (p_pgdir (proctab s p)) a (ram s) \<noteq> 0 \<and>
        (ld32 (ram s) (walkpgdir0 (p_pgdir (proctab s p)) a (ram s)) = v \<longrightarrow>
         walkpgdir0 (p_pgdir (proctab s p)) a (ram s) = w))"

definition record_out :: "nat \<Rightarrow> nat \<Rightarrow> u32 \<Rightarrow> kstate \<Rightarrow> kstate res" where
  "record_out idx p w s =
     rbind (slot_record idx p w s) (\<lambda>s.
     let s = upd_proc p (\<lambda>p. p\<lparr>p_rss := p_rss p - PGSIZE\<rparr>) s in
     rbind (k_dec_sharing w (PTE_ADDR (ld32 (ram s) w) div PGSIZE) s) (\<lambda>(_, s). Inr s))"

lemma find_pte_swap_out_loop_miss:
  "\<forall>a \<in> set is. walkpgdir0 (p_pgdir (proctab s q)) a (ram s) \<noteq> 0 \<and>
     ld32 (ram s) (walkpgdir0 (p_pgdir (proctab s q)) a (ram s)) \<noteq> ld32 (ram s) pte \<Longrightarrow>
   find_pte_swap_out_loop q pte idx is s = Inr s"
  by (induction "is") (auto simp: Let_def)

lemma find_pte_swap_out_loop_hit:
  assumes "\<exists>a \<in> set is. walkpgdir0 (p_pgdir (proctab s p)) a (ram s) = w" "ld32 (ram s) w = ld32 (ram s) pte"
    "\<forall>a \<in> set is. walkpgdir0 (p_pgdir (proctab s p)) a (ram s) \<noteq> 0 \<and>
       (ld32 (ram s) (walkpgdir0 (p_pgdir (proctab s p)) a (ram s)) = ld32 (ram s) pte \<longrightarrow>
        walkpgdir0 (p_pgdir (proctab s p)) a (ram s) = w)"
  shows "find_pte_swap_out_loop p pte idx is s = record_out idx p w s"
  using assms by (induction "is") (auto simp: Let_def record_out_def)

lemma make_other_append:
  "make_other_pte_swapped_out_loop pte idx (ps @ qs) s =
   rbind (make_other_pte_swapped_out_loop pte idx ps s) (make_other_pte_swapped_out_loop pte idx qs)"
  by (induction ps arbitrary: s) (auto simp: rbind_assoc intro!: rbind_cong)

lemma make_other_none:
  "\<forall>q \<in> set qs. maps_none s (ld32 (ram s) pte) q \<Longrightarrow> make_other_pte_swapped_out_loop pte idx qs s = Inr s"
  by (induction qs) (auto simp: maps_none_def find_pte_swap_out_def find_pte_swap_out_loop_miss)

lemma make_other_hit:
  "maps_at s (ld32 (ram s) pte) p w \<Longrightarrow>
   make_other_pte_swapped_out_loop pte idx (p # ps) s = rbind (record_out idx p w s) (make_other_pte_swapped_out_loop pte idx ps)"
  using find_pte_swap_out_loop_hit [of "pg_addrs 0 (p_sz (proctab s p))" s p w pte idx]
  by (simp add: maps_at_def find_pte_swap_out_def)

lemma record_out_run:
  assumes sl: "idx < NSLOTS" "unat (cnt (swaparray s idx)) < NPROC"
    and r: "PTE_ADDR (ld32 (ram s) w) div PGSIZE < NPAGES"
      "rmap_ok (rmap s (PTE_ADDR (ld32 (ram s) w) div PGSIZE))" "w \<in># rmap_refs (rmap s (PTE_ADDR (ld32 (ram s) w) div PGSIZE))"
  shows "\<exists>r'. record_out idx p w s = Inr ((upd_proc p (\<lambda>p. p\<lparr>p_rss := p_rss p - PGSIZE\<rparr>)
      (upd_slot idx (\<lambda>sl. sl\<lparr>sl_proc := (sl_proc sl)[unat (cnt sl) := p], sl_pte := (sl_pte sl)[unat (cnt sl) := w], cnt := cnt sl + 1\<rparr>) s))
      \<lparr>rmap := (rmap s)(PTE_ADDR (ld32 (ram s) w) div PGSIZE := r')\<rparr>) \<and> rmap_ok r' \<and>
      rmap_refs r' = rmap_refs (rmap s (PTE_ADDR (ld32 (ram s) w) div PGSIZE)) - {#w#}"
proof -
  from rmap.dec_present [OF r(2,3)] obtain r' where
    d: "dec_entry w (rmap s (PTE_ADDR (ld32 (ram s) w) div PGSIZE)) = Inr (size (rmap_refs (rmap s (PTE_ADDR (ld32 (ram s) w) div PGSIZE))) = 1, r')"
      "rmap_refs r' = rmap_refs (rmap s (PTE_ADDR (ld32 (ram s) w) div PGSIZE)) - {#w#}" "rmap_ok r'" by blast
  show ?thesis using sl r(1) d by (intro exI [of _ r']) (simp add: record_out_def slot_record_def Let_def k_dec_sharing_def dec_sharing_def)
qed

section \<open>A page with one owner\<close>

definition pte_page :: "kstate \<Rightarrow> u32 \<Rightarrow> u32" where
  "pte_page s pte = P2V (PTE_ADDR (ld32 (ram s) pte))"

text \<open>Process \<open>p\<close> alone maps the page of \<open>pte\<close>; \<open>xs\<close> are the free pages.\<close>

definition sole_page :: "u32 \<Rightarrow> kstate \<Rightarrow> u32 list \<Rightarrow> nat \<Rightarrow> u32 \<Rightarrow> bool" where
  "sole_page kend s xs p pte \<longleftrightarrow> p < NPROC \<and> maps_at s (ld32 (ram s) pte) p pte \<and>
     (\<forall>q < NPROC. q \<noteq> p \<longrightarrow> maps_none s (ld32 (ram s) pte) q) \<and>
     ld32 (ram s) pte AND PTE_P \<noteq> 0 \<and> w_aligned pte \<and> pte \<noteq> 0 \<and>
     kpage kend (pte_page s pte) \<and> PTE_ADDR pte \<noteq> pte_page s pte \<and>
     rmap_ok (rmap s (pgno (pte_page s pte))) \<and> rmap_refs (rmap s (pgno (pte_page s pte))) = {#pte#} \<and>
     free_ok kend s xs \<and> pte_page s pte \<notin> set xs \<and> PTE_ADDR pte \<notin> set xs"

definition slot_bytes :: "kstate \<Rightarrow> nat \<Rightarrow> u8 list" where
  "slot_bytes s idx = concat (map (\<lambda>i. content (bcache s) (2 + 8 * of_nat idx + of_nat i)) [0..<8])"

text \<open>The page that process \<open>p\<close> maps through \<open>pte\<close>, with flags \<open>fl\<close> and bytes \<open>bs\<close>, is in slot \<open>idx\<close>.\<close>

definition swapped :: "kstate \<Rightarrow> nat \<Rightarrow> u32 \<Rightarrow> nat \<Rightarrow> u32 \<Rightarrow> u8 list \<Rightarrow> bool" where
  "swapped s p pte idx fl bs \<longleftrightarrow> idx < NSLOTS \<and> \<not> is_free (swaparray s idx) \<and> page_perm (swaparray s idx) = fl \<and>
     cnt (swaparray s idx) = 1 \<and> length (sl_proc (swaparray s idx)) = NPROC \<and> length (sl_pte (swaparray s idx)) = NPROC \<and>
     sl_proc (swaparray s idx) ! 0 = p \<and> sl_pte (swaparray s idx) ! 0 = pte \<and>
     ld32 (ram s) pte = slot_pte idx \<and> slot_bytes s idx = bs \<and> bio_idle (bcache s) \<and> p_state (proctab s p) \<noteq> UNUSED"

text \<open>A slot that was never used, or whose page came back.\<close>

definition fresh_slot :: "swapslot \<Rightarrow> bool" where
  "fresh_slot sl \<longleftrightarrow> cnt sl = 0 \<and> length (sl_proc sl) = NPROC \<and> length (sl_pte sl) = NPROC"

lemma slot_block:
  assumes "idx < NSLOTS"
  shows "unat (2 + 8 * of_nat idx :: u32) + 8 \<le> unat blimit"
proof -
  have "idx < 250" using assms by (simp add: NSLOTS_def SWAPBLOCKS_def)
  then have "unat (2 + 8 * of_nat idx :: u32) = 2 + 8 * idx" by (simp add: unat_word_ariths unat_of_nat)
  then show ?thesis using \<open>idx < 250\<close> by (simp add: FSSIZE_def SWAPBLOCKS_def unat_of_nat)
qed

lemma swap_write:
  assumes "bio_idle b" and "idx < NSLOTS"
  shows "\<exists>b'. write_pag_to_disk me m page (2 + 8 * of_nat idx) b = Inr b' \<and> bio_idle b' \<and>
    concat (map (\<lambda>i. content b' (2 + 8 * of_nat idx + of_nat i)) [0..<8]) = mread m page 4096"
proof -
  from write_pag_to_disk_spec [OF assms(1) slot_block [OF assms(2)], of me m page] obtain b' where
    w: "write_pag_to_disk me m page (2 + 8 * of_nat idx) b = Inr b'" "bio_idle b'"
      "\<forall>i < 8. content b' (2 + 8 * of_nat idx + of_nat i) = mread m (page + of_nat (i * 512)) 512" by blast
  have "map (\<lambda>i. content b' (2 + 8 * of_nat idx + of_nat i)) [0..<8] = map (\<lambda>i. mread m (page + of_nat (i * 512)) 512) [0..<8]"
    using w(3) by simp
  then have "concat (map (\<lambda>i. content b' (2 + 8 * of_nat idx + of_nat i)) [0..<8]) = mread m page 4096"
    using mread_chunks [of m page 8] by (simp only:) simp
  then show ?thesis using w by blast
qed

text \<open>The search finds exactly the owner.\<close>

lemma make_other_sole:
  assumes so: "sole_page kend s xs p pte" and idx: "idx < NSLOTS" "fresh_slot (swaparray s idx)"
  shows "\<exists>r'. make_other_pte_swapped_out pte idx s = Inr ((upd_proc p (\<lambda>p. p\<lparr>p_rss := p_rss p - PGSIZE\<rparr>)
      (upd_slot idx (\<lambda>sl. sl\<lparr>sl_proc := (sl_proc sl)[0 := p], sl_pte := (sl_pte sl)[0 := pte], cnt := 1\<rparr>) s))
      \<lparr>rmap := (rmap s)(pgno (pte_page s pte) := r')\<rparr>) \<and> rmap_ok r' \<and> rmap_refs r' = {#}"
proof -
  note S = so [unfolded sole_page_def]
  have pg: "PTE_ADDR (ld32 (ram s) pte) div PGSIZE = pgno (pte_page s pte)" by (simp add: pgno_def pte_page_def)
  have c: "unat (cnt (swaparray s idx)) = 0" using idx(2) by (simp add: fresh_slot_def)
  have up: "[0..<NPROC] = [0..<p] @ p # [Suc p..<NPROC]" using S by (metis append_Cons append_Nil upt_conv_Cons upt_add_eq_append le_add_diff_inverse less_imp_le zero_le)
  obtain r' where r': "record_out idx p pte s = Inr ((upd_proc p (\<lambda>p. p\<lparr>p_rss := p_rss p - PGSIZE\<rparr>)
      (upd_slot idx (\<lambda>sl. sl\<lparr>sl_proc := (sl_proc sl)[unat (cnt sl) := p], sl_pte := (sl_pte sl)[unat (cnt sl) := pte], cnt := cnt sl + 1\<rparr>) s))
      \<lparr>rmap := (rmap s)(pgno (pte_page s pte) := r')\<rparr>)" "rmap_ok r'" "rmap_refs r' = {#}"
    using record_out_run [of idx s pte p, unfolded pg] idx(1) c S pgno_less [of kend "pte_page s pte"]
    by (auto simp: NPROC_def)
  let ?t = "(upd_proc p (\<lambda>p. p\<lparr>p_rss := p_rss p - PGSIZE\<rparr>)
      (upd_slot idx (\<lambda>sl. sl\<lparr>sl_proc := (sl_proc sl)[0 := p], sl_pte := (sl_pte sl)[0 := pte], cnt := 1\<rparr>) s))
      \<lparr>rmap := (rmap s)(pgno (pte_page s pte) := r')\<rparr>"
  have t: "record_out idx p pte s = Inr ?t"
    using c idx(2) unfolding r'(1) by (simp add: upd_slot_def fresh_slot_def)
  have "make_other_pte_swapped_out_loop pte idx [0..<p] s = Inr s"
    using S by (intro make_other_none) auto
  moreover have "make_other_pte_swapped_out_loop pte idx [Suc p..<NPROC] ?t = Inr ?t"
    using S by (intro make_other_none) (auto simp: maps_none_def)
  ultimately have "make_other_pte_swapped_out_loop pte idx [0..<NPROC] s = Inr ?t"
    unfolding up make_other_append using make_other_hit [of s pte p pte idx] S by (simp add: t)
  then show ?thesis using r'(2,3) unfolding make_other_pte_swapped_out_def by blast
qed

lemma sole_page_bcache: "sole_page kend (s\<lparr>bcache := b\<rparr>) xs p pte = sole_page kend s xs p pte"
  by (simp add: sole_page_def maps_at_def maps_none_def pte_page_def free_ok_def)

lemma sole_pageD:
  assumes "sole_page kend s xs p pte"
  shows "p < NPROC" "w_aligned pte" "pte \<noteq> 0" "kpage kend (pte_page s pte)" "PTE_ADDR pte \<noteq> pte_page s pte"
    "free_ok kend s xs" "pte_page s pte \<notin> set xs" "PTE_ADDR pte \<notin> set xs" "p_state (proctab s p) \<noteq> UNUSED"
  using assms by (auto simp: sole_page_def maps_at_def)

lemma swap_out_run:
  assumes sel: "select_a_victim s = Inr (pte, s0)" and so: "sole_page kend s0 xs p pte"
    and idx: "first_index (\<lambda>i. is_free (swaparray s0 i)) [0..<NSLOTS] = Some idx" "fresh_slot (swaparray s0 idx)"
    and me: "curproc s0 = Some me" and idle: "bio_idle (bcache s0)"
  shows "\<exists>s1. find_new_page_after_swapping kend s = Inr s1 \<and>
    swapped s1 p pte idx (PTE_FLAGS (ld32 (ram s0) pte)) (mread (ram s0) (pte_page s0 pte) 4096) \<and>
    free_ok kend s1 (pte_page s0 pte # xs) \<and> curproc s1 = Some me \<and>
    rmap_ok (rmap s1 (pgno (pte_page s0 pte))) \<and> rmap_refs (rmap s1 (pgno (pte_page s0 pte))) = {#} \<and>
    proctab s1 = (proctab s0)(p := (proctab s0 p)\<lparr>p_rss := p_rss (proctab s0 p) - PGSIZE\<rparr>) \<and>
    (\<forall>a. PTE_ADDR a \<noteq> pte_page s0 pte \<longrightarrow> PTE_ADDR a \<noteq> PTE_ADDR pte \<longrightarrow> ram s1 a = ram s0 a)"
proof -
  note D = sole_pageD [OF so]
  let ?v = "ld32 (ram s0) pte" and ?pg = "pte_page s0 pte"
  have i: "idx < NSLOTS" using first_index_SomeD [OF idx(1)] by simp
  from swap_write [OF idle i] obtain b where
    b: "write_pag_to_disk (p_pid (proctab s0 me)) (ram s0) ?pg (2 + 8 * of_nat idx) (bcache s0) = Inr b" "bio_idle b"
      "concat (map (\<lambda>i. content b (2 + 8 * of_nat idx + of_nat i)) [0..<8]) = mread (ram s0) ?pg 4096" by blast
  from make_other_sole [of kend "s0\<lparr>bcache := b\<rparr>" xs p pte idx] so i idx(2) obtain r' where
    r': "make_other_pte_swapped_out pte idx (s0\<lparr>bcache := b\<rparr>) = Inr ((upd_proc p (\<lambda>p. p\<lparr>p_rss := p_rss p - PGSIZE\<rparr>)
      (upd_slot idx (\<lambda>sl. sl\<lparr>sl_proc := (sl_proc sl)[0 := p], sl_pte := (sl_pte sl)[0 := pte], cnt := 1\<rparr>) (s0\<lparr>bcache := b\<rparr>)))
      \<lparr>rmap := (rmap s0)(pgno ?pg := r')\<rparr>)" "rmap_ok r'" "rmap_refs r' = {#}"
    by (auto simp: sole_page_bcache pte_page_def)
  obtain s2 where s2: "s2 = upd_slot idx (\<lambda>sl. sl\<lparr>page_perm := PTE_FLAGS ?v, is_free := False\<rparr>)
      ((upd_proc p (\<lambda>p. p\<lparr>p_rss := p_rss p - PGSIZE\<rparr>)
      (upd_slot idx (\<lambda>sl. sl\<lparr>sl_proc := (sl_proc sl)[0 := p], sl_pte := (sl_pte sl)[0 := pte], cnt := 1\<rparr>) (s0\<lparr>bcache := b\<rparr>)))
      \<lparr>rmap := (rmap s0)(pgno ?pg := r')\<rparr>)" by blast
  have "free_ok kend s2 xs" using D(6) by (rule free_ok_frame) (simp_all add: s2)
  from kfree_ok [OF this D(4,7)] obtain s3 where
    s3: "kfree kend ?pg s2 = Inr s3" "free_ok kend s3 (?pg # xs)"
      "s3 = s2\<lparr>ram := ram s3, freelist := ?pg, num_free_pages := num_free_pages s2 + 1\<rparr>"
      "\<forall>a. PTE_ADDR a \<noteq> ?pg \<longrightarrow> ram s3 a = ram s2 a" by blast
  have f3: "bcache s3 = bcache s2" "curproc s3 = curproc s2" "rmap s3 = rmap s2" "proctab s3 = proctab s2" "swaparray s3 = swaparray s2"
    by (subst s3(3), simp)+
  have run: "find_new_page_after_swapping kend s = Inr (swap_out_end idx pte s3)"
    using swap_out_eq [OF sel idx(1) D(3) me b(1) [unfolded pte_page_def] r'(1), of kend] s3(1)
    by (simp add: s2 pte_page_def)
  obtain s1 where s1: "s1 = swap_out_end idx pte s3" by blast
  have ram1: "ram s1 = st32 (st32 (ram s3) pte (slot_pte idx)) pte (slot_pte idx)" by (simp add: s1 swap_out_end_def)
  have other: "ram s1 a = ram s3 a" if "PTE_ADDR a \<noteq> PTE_ADDR pte" for a
    using that D(2) by (simp add: ram1 st32_other_page)
  have "freelist s1 = freelist s3" "num_free_pages s1 = num_free_pages s3" by (simp_all add: s1 swap_out_end_def)
  then have "free_ok kend s1 (?pg # xs)"
    by (rule free_ok_frame [OF s3(2)]) (rule other, use D(5,8) in auto)
  moreover have fields: "bcache s1 = b" "curproc s1 = Some me" "rmap s1 = (rmap s0)(pgno ?pg := r')"
    "proctab s1 = (proctab s0)(p := (proctab s0 p)\<lparr>p_rss := p_rss (proctab s0 p) - PGSIZE\<rparr>)"
    "swaparray s1 idx = (swaparray s0 idx)\<lparr>page_perm := PTE_FLAGS ?v, is_free := False, sl_proc := (sl_proc (swaparray s0 idx))[0 := p],
       sl_pte := (sl_pte (swaparray s0 idx))[0 := pte, 0 := pte], cnt := 1\<rparr>"
    unfolding s1 swap_out_end_def by (simp_all add: f3 s2 me)
  moreover have "swapped s1 p pte idx (PTE_FLAGS ?v) (mread (ram s0) ?pg 4096)"
    using i idx(2) b D(9) by (simp add: swapped_def fields ram1 slot_bytes_def fresh_slot_def NPROC_def)
  moreover have "ram s1 a = ram s0 a" if "PTE_ADDR a \<noteq> ?pg" "PTE_ADDR a \<noteq> PTE_ADDR pte" for a
    using other that s3(4) by (simp add: s2)
  ultimately show ?thesis using run r'(2,3) unfolding s1 [symmetric] by (intro exI [of _ s1]) simp
qed

section \<open>Swapping in\<close>

lemma slot_pte_slot: "idx < NSLOTS \<Longrightarrow> drop_bit 12 (slot_pte idx) = of_nat idx"
proof -
  assume "idx < NSLOTS"
  then have i: "idx < 250" by (simp add: NSLOTS_def SWAPBLOCKS_def)
  have "idx < 2 ^ 20" using i by simp
  then have "take_bit 20 (of_nat idx :: u32) = of_nat idx"
    by (simp flip: of_nat_take_bit add: take_bit_nat_eq_self)
  then have n: "m < 20" if "bit (of_nat idx :: u32) m" for m
    using that by (metis bit_take_bit_iff)
  show ?thesis
  proof (rule bit_word_eqI)
    fix k
    assume "k < LENGTH(32)"
    have "\<not> bit (0x80 :: u32) (12 + k)" using bit_exp_iff [where 'a = "32 word", of 7 "12 + k"] by simp
    then have "bit (slot_pte idx) (12 + k) = bit (of_nat idx :: u32) k"
      using n [of k] by (auto simp: slot_pte_def bit_or_iff bit_push_bit_iff)
    then show "bit (drop_bit 12 (slot_pte idx)) k = bit (of_nat idx :: u32) k"
      by (simp only: bit_drop_bit_eq comp_def)
  qed
qed

lemma slot_pte_absent: "slot_pte idx AND PTE_P = 0"
  by (simp add: slot_pte_def pbit0 bit_or_iff bit_push_bit_iff)

lemma length_slot_bytes: "bio_idle (bcache s) \<Longrightarrow> length (slot_bytes s idx) = 4096"
proof -
  assume "bio_idle (bcache s)"
  then have "length (content (bcache s) bn) = 512" for bn using length_content [OF bio_idleD(1)] by (simp add: BSIZE_def)
  then have "length (concat (map (\<lambda>i. content (bcache s) (f i)) xs)) = 512 * length xs" for f and xs :: "nat list"
    by (induction xs) simp_all
  then show ?thesis by (simp add: slot_bytes_def del: upt_Suc)
qed

text \<open>The entry of a page that came back.\<close>

definition back_pte :: "u32 \<Rightarrow> u32 \<Rightarrow> u32" where
  "back_pte pg fl = (((PTE_ADDR (V2P pg) OR PTE_FLAGS fl) OR PTE_A) AND NOT PTE_W) AND NOT PTE_S"

lemma swap_in_run:
  assumes sw: "swapped t p pte idx fl bs" and fr: "free_ok kend t (x # ys)" and me: "curproc t = Some me"
    and al: "w_aligned pte" "PTE_ADDR pte \<notin> set (x # ys)"
    and rm: "rmap_ok (rmap t (pgno x))" "size (rmap_refs (rmap t (pgno x))) < NPROC"
  shows "\<exists>t'. swap_in kend pte t = Inr t' \<and> ld32 (ram t') pte = back_pte x fl \<and> mread (ram t') x 4096 = bs \<and>
    free_ok kend t' ys \<and> is_free (swaparray t' idx) \<and> fresh_slot (swaparray t' idx) \<and>
    rmap_ok (rmap t' (pgno x)) \<and> rmap_refs (rmap t' (pgno x)) = add_mset pte (rmap_refs (rmap t (pgno x))) \<and>
    proctab t' = (proctab t)(p := (proctab t p)\<lparr>p_rss := p_rss (proctab t p) + PGSIZE\<rparr>)"
proof -
  note S = sw [unfolded swapped_def]
  let ?blk = "2 + 8 * of_nat idx :: u32"
  have kx: "kpage kend x" using fr by (simp add: free_ok_def)
  obtain t1 where t1: "kalloc kend t = Inr (x, t1)" "free_ok kend t1 ys"
    "t1 = t\<lparr>freelist := freelist t1, num_free_pages := num_free_pages t - 1, global_var := global_var t + 1\<rparr>"
    using kalloc_ok [OF fr] by blast
  have f1: "ram t1 = ram t" "bcache t1 = bcache t" "curproc t1 = curproc t" "swaparray t1 = swaparray t" "rmap t1 = rmap t" "proctab t1 = proctab t"
    by (subst t1(3), simp)+
  have bl: "8 * of_nat idx + 2 = ?blk" by simp
  from read_page_from_disk_spec [of "bcache t" ?blk "p_pid (proctab t me)" x "ram t"] S slot_block obtain b where
    rd: "read_page_from_disk (p_pid (proctab t me)) ?blk x (ram t) (bcache t) = Inr (mwrite (ram t) x bs, b)" "bio_idle b"
    by (auto simp: slot_bytes_def)
  have len: "length bs = 4096" using S length_slot_bytes [of t idx] by simp
  let ?t2 = "t1\<lparr>ram := mwrite (ram t) x bs, bcache := b\<rparr>"
  obtain v1 v2 v3 where v: "v1 = PTE_ADDR (V2P x) OR PTE_FLAGS fl" "v2 = v1 OR PTE_A" "v3 = v2 AND NOT PTE_W" by blast
  have v4: "v3 AND NOT PTE_S = back_pte x fl" by (simp only: v back_pte_def)
  obtain t3 where t3: "t3 = poke pte (back_pte x fl) (poke pte v3 (poke pte v2 (poke pte v1 (upd_slot idx (\<lambda>sl. sl\<lparr>is_free := True\<rparr>) ?t2))))" by blast
  have ram3: "ram t3 = st32 (st32 (st32 (st32 (mwrite (ram t) x bs) pte v1) pte v2) pte v3) pte (back_pte x fl)"
    by (simp add: t3)
  have sl: "unat (of_nat idx :: u32) = idx" using S by (simp add: NSLOTS_def SWAPBLOCKS_def unat_of_nat)
  have pg: "page_perm (swaparray ?t2 idx) = fl" "mypid t1 = Inr (p_pid (proctab t me))"
    using S me by (simp_all add: f1 mypid_def myproc_def)
  have "swap_in kend pte t = rbind (swap_in_sharers idx pte x [0..<unat (cnt (swaparray t3 idx))] t3) (\<lambda>s. Inr (upd_slot idx (\<lambda>sl. sl\<lparr>cnt := 0\<rparr>) s))"
  proof -
    have w: "ld32 (ram t) pte = slot_pte idx" "idx < NSLOTS" using S by simp_all
    have p: "ld32 (ram (poke pte v s)) pte = v" for v s by simp
    show ?thesis
      unfolding swap_in_def Let_def t1(1) rbind_simps case_prod_conv pg(2) w(1) slot_pte_slot [OF w(2)] bl f1(1,2) rd(1) sl
        pg(1) v(1) [symmetric] p v(2,3) [symmetric] v4 t3 [symmetric] if_P [OF w(2)] ..
  qed
  moreover have "unat (cnt (swaparray t3 idx)) = 1" using S by (simp add: t3 f1)
  ultimately have run: "swap_in kend pte t = rbind (swap_in_sharers idx pte x [0] t3) (\<lambda>s. Inr (upd_slot idx (\<lambda>sl. sl\<lparr>cnt := 0\<rparr>) s))"
    by simp
  let ?r = "(rmap t)(pgno x := inc_entry pte (rmap t (pgno x)))"
  obtain t' where t': "t' = upd_slot idx (\<lambda>sl. sl\<lparr>cnt := 0\<rparr>) (poke pte (back_pte x fl)
      (upd_proc p (\<lambda>p. p\<lparr>p_rss := p_rss p + PGSIZE\<rparr>) (t3\<lparr>rmap := ?r\<rparr>)))" by blast
  have "k_inc_sharing pte (V2P x div PGSIZE) t3 = Inr (t3\<lparr>rmap := ?r\<rparr>)"
    using pgno_less [OF kx] by (simp add: k_inc_sharing_def inc_sharing_def pgno_def t3 f1)
  moreover have "ld32 (ram t3) pte = back_pte x fl" by (simp add: ram3)
  moreover have "swaparray t3 idx = (swaparray t idx)\<lparr>is_free := True\<rparr>" "proctab t3 = proctab t" by (simp_all add: t3 f1)
  moreover have "sl_proc (swaparray t idx) \<noteq> []" "sl_pte (swaparray t idx) \<noteq> []" using S by (auto simp: NPROC_def)
  ultimately have r: "swap_in kend pte t = Inr t'"
    using S unfolding run by (simp add: t' NPROC_def Let_def del: poke_simps)
  have other: "ram t' a = mwrite (ram t) x bs a" if "PTE_ADDR a \<noteq> PTE_ADDR pte" for a
    using that al(1) by (simp add: t' ram3 st32_other_page)
  have "mread (ram t') x 4096 = bs"
  proof (rule nth_equalityI)
    fix i
    assume "i < length (mread (ram t') x 4096)"
    then have i: "i < 4096" "unat (of_nat i :: u32) = i" by (simp_all add: unat_of_nat)
    then have "PTE_ADDR (x + of_nat i) = x" using PTE_ADDR_add [of x "of_nat i"] kx by (simp add: word_less_nat_alt)
    then have "ram t' (x + of_nat i) = mwrite (ram t) x bs (x + of_nat i)" using al(2) by (intro other) auto
    then show "mread (ram t') x 4096 ! i = bs ! i" using i len by (simp add: mwrite_def)
  qed (simp add: len)
  moreover have "free_ok kend t' ys"
  proof (rule free_ok_frame [OF t1(2)])
    fix a
    assume a: "PTE_ADDR a \<in> set ys"
    have "x \<notin> set ys" using fr by (simp add: free_ok_def)
    then have "\<not> unat (a - x) < 4096" using a kx in_page_iff [of x a] by auto
    then show "ram t' a = ram t1 a" using a al(2) len by (subst other) (auto simp: f1 mwrite_def)
  qed (simp_all add: t' t3)
  ultimately show ?thesis
    using r S rmap.refs_inc [OF rm] rmap.invar_inc [OF rm]
    by (intro exI [of _ t']) (simp add: t' t3 f1 fresh_slot_def)
qed

lemma fault_swap_in:
  assumes "curproc t = Some p" "walkpgdir0 (p_pgdir (proctab t p)) (PGROUNDDOWN cr2) (ram t) = pte" "pte \<noteq> 0"
    and "ld32 (ram t) pte = slot_pte idx" and "swap_in kend pte t = Inr t'"
  shows "handle_fage_fault kend cr2 t = Inr (t'\<lparr>cr3 := V2P (p_pgdir (proctab t p))\<rparr>)"
  using assms slot_pte_absent [of idx] by (simp add: handle_fage_fault_def myproc_def Let_def deref_def)

section \<open>Two processes and a page\<close>

text \<open>Process 0 has its directory at \<open>0x80300000\<close> and its page table in the next page, process 1 at
  \<open>0x80303000\<close>; both map address 0 to the page at \<open>0x80302000\<close>, whose second byte is 7. With one process
  in use, only its entry counts.\<close>

definition swap_ram :: memory where
  "swap_ram = (st32 (st32 (st32 (st32 (\<lambda>_. 0) 0x80300000 0x301007) 0x80301000 0x302005) 0x80303000 0x304007) 0x80304000 0x302005)
     (0x80302001 := 7)"

definition demo_swap :: "bool \<Rightarrow> kstate" where
  "demo_swap two = initswap (kboot\<lparr>ram := swap_ram, curproc := Some 0,
     rmap := (rmap_empty)(0x302 := (if two then inc_entry 0x80304000 else (\<lambda>r. r)) (inc_entry 0x80301000 (rmap_empty 0x302))),
     proctab := (\<lambda>i. if i = 0 then proc0\<lparr>p_sz := 4096, p_rss := 4096, p_pgdir := 0x80300000, p_state := RUNNING, p_pid := 1\<rparr>
       else if i = 1 \<and> two then proc0\<lparr>p_sz := 4096, p_rss := 4096, p_pgdir := 0x80303000, p_state := RUNNABLE, p_pid := 2\<rparr>
       else proc0)\<rparr>)"

lemma swap_ram_ld: "ld32 swap_ram 0x80300000 = 0x301007" "ld32 swap_ram 0x80301000 = 0x302005"
  "ld32 swap_ram 0x80303000 = 0x304007" "ld32 swap_ram 0x80304000 = 0x302005"
  by (simp_all add: swap_ram_def ld32_def st32_def)

lemma swap_walk: "walkpgdir0 0x80300000 0 swap_ram = 0x80301000" "walkpgdir0 0x80303000 0 swap_ram = 0x80304000"
  by (simp_all add: walkpgdir0_def PDX_def PTX_def swap_ram_ld PTE_ADDR_def P2V_def)

lemma one_page: "pg_addrs 0 4096 = [0]"
  by (simp add: pg_addrs.simps)

lemma demo_swap_simps [simp]:
  "ram (demo_swap two) = swap_ram" "curproc (demo_swap two) = Some 0" "bcache (demo_swap two) = bio_boot"
  "rmap (demo_swap two) 0x302 = (if two then inc_entry 0x80304000 else (\<lambda>r. r)) (inc_entry 0x80301000 (rmap_empty 0x302))"
  "proctab (demo_swap two) 0 = proc0\<lparr>p_sz := 4096, p_rss := 4096, p_pgdir := 0x80300000, p_state := RUNNING, p_pid := 1\<rparr>"
  "freelist (demo_swap two) = 0" "num_free_pages (demo_swap two) = 0"
  by (simp_all add: demo_swap_def initswap_def kboot_def)

lemma demo_proctab:
  "proctab (demo_swap two) i = (if i = 0 then proc0\<lparr>p_sz := 4096, p_rss := 4096, p_pgdir := 0x80300000, p_state := RUNNING, p_pid := 1\<rparr>
     else if i = 1 \<and> two then proc0\<lparr>p_sz := 4096, p_rss := 4096, p_pgdir := 0x80303000, p_state := RUNNABLE, p_pid := 2\<rparr> else proc0)"
  by (simp add: demo_swap_def initswap_def)

lemma demo_slots: "i < NSLOTS \<Longrightarrow> is_free (swaparray (demo_swap two) i) \<and> fresh_slot (swaparray (demo_swap two) i)"
  by (simp add: demo_swap_def initswap_def fresh_slot_def kboot_def)

lemma NSLOTS_pos: "0 < NSLOTS"
  by (simp add: NSLOTS_def SWAPBLOCKS_def)

lemma demo_victim_counted: "select_a_victim ((demo_swap two)\<lparr>global_var := g\<rparr>) = Inr (0x80301000, (demo_swap two)\<lparr>global_var := g\<rparr>)"
proof -
  let ?s = "(demo_swap two)\<lparr>global_var := g\<rparr>"
  from select_victim_process_max [of ?s 0] obtain v where
    v: "select_victim_process ?s = Inr v"
      "\<forall>i \<in> insert 0 {0..<NPROC}. p_rss (proctab ?s i) \<le> p_rss (proctab ?s v) \<and>
       (p_rss (proctab ?s i) = p_rss (proctab ?s v) \<longrightarrow> sint (p_pid (proctab ?s v)) \<le> sint (p_pid (proctab ?s i)))" by auto
  have "v = 0" using v(2) [THEN bspec, of 0] by (auto simp: demo_proctab proc0_def split: if_splits)
  then show ?thesis using v(1)
    by (simp add: select_a_victim_def one_page swap_walk deref_def swap_ram_ld Let_def)
qed

lemma demo_victim: "select_a_victim (demo_swap two) = Inr (0x80301000, demo_swap two)"
proof -
  have "(demo_swap two)\<lparr>global_var := 0\<rparr> = demo_swap two" by (simp add: demo_swap_def initswap_def kboot_def)
  then show ?thesis using demo_victim_counted [where g = 0 and two = two] by simp
qed

lemma demo_rmap: "rmap_ok (inc_entry 0x80301000 (rmap_empty 0x302))" "rmap_refs (inc_entry 0x80301000 (rmap_empty 0x302)) = {#0x80301000#}"
proof -
  have e: "rmap_ok (rmap_empty 0x302)" "rmap_refs (rmap_empty 0x302) = {#}"
    by (rule rmap_empty_ok, simp) (rule rmap_empty_refs, simp)
  then have "size (rmap_refs (rmap_empty 0x302)) < NPROC" by (simp add: NPROC_def)
  from rmap.invar_inc [OF e(1) this] rmap.refs_inc [OF e(1) this] e(2)
  show "rmap_ok (inc_entry 0x80301000 (rmap_empty 0x302))" "rmap_refs (inc_entry 0x80301000 (rmap_empty 0x302)) = {#0x80301000#}" by simp_all
qed

lemma demo_sole: "sole_page 0x80200000 (demo_swap False) [] 0 0x80301000"
  unfolding sole_page_def
  by (simp add: maps_at_def maps_none_def one_page swap_walk swap_ram_ld pte_page_def pgno_def demo_rmap demo_proctab
      free_ok_def P2V_def PTE_ADDR_def w_aligned_def kpage_def pg_aligned_def V2P_def NPROC_def) (simp add: proc0_def)

section \<open>\<open>kalloc\<close> when memory is full\<close>

lemma kalloc_via_swap:
  assumes "freelist s = 0" "find_new_page_after_swapping kend (s\<lparr>global_var := global_var s + 1\<rparr>) = Inr s1"
  shows "kalloc kend s = kalloc kend s1"
  using assms by (subst kalloc.simps) (simp add: take_free_def)

lemma kalloc_fails:
  assumes "kalloc kend s = Inl e"
  shows "freelist s = 0 \<and> find_new_page_after_swapping kend (s\<lparr>global_var := global_var s + 1\<rparr>) = Inl e"
proof -
  have "freelist s = 0"
    using assms by (subst (asm) kalloc.simps) (auto simp: take_free_def Let_def split: if_splits)
  then show ?thesis using assms by (simp add: kalloc_empty rbind_def split: sum.splits)
qed

lemma swapped_take:
  assumes "swapped s p pte idx fl bs" "s' = s\<lparr>freelist := f, num_free_pages := n, global_var := g\<rparr>"
  shows "swapped s' p pte idx fl bs"
  using assms by (simp add: swapped_def slot_bytes_def)

section \<open>Properties\<close>

text \<open>C4. The contents of a page that one process maps survive swapping. With an idle buffer cache (no buffer is held)
  and a free slot, and every free slot without recorded sharers, swapping it out succeeds, puts the page on the free list and its
  bytes and flags into a slot. Now take any later state in which the slot, its record and the owner's entry are as they were left,
  the buffer cache is idle, the owner is running, the page table is not on the free list, the free list is not empty and its
  first page has room in the reverse map. There the owner's fault on the page succeeds: the entry maps the newly allocated page,
  the page has the old bytes, the reverse map records the entry and the slot is free again. The flags of the entry are not the
  old ones but those of \<open>back_pte\<close>: the old flags with the accessed bit set and without the write bit and the swapped mark \<open>PTE_S\<close>.\<close>

theorem swap_roundtrip:
  assumes "select_a_victim s = Inr (pte, s0)" and "sole_page kend s0 xs p pte"
    and "\<exists>i < NSLOTS. is_free (swaparray s0 i)" and "\<forall>i < NSLOTS. is_free (swaparray s0 i) \<longrightarrow> fresh_slot (swaparray s0 i)"
    and "curproc s0 = Some me" and "bio_idle (bcache s0)"
    and fl: "fl = PTE_FLAGS (ld32 (ram s0) pte)" and bs: "bs = mread (ram s0) (pte_page s0 pte) 4096"
  shows "\<exists>s1 idx. find_new_page_after_swapping kend s = Inr s1 \<and> free_ok kend s1 (pte_page s0 pte # xs) \<and>
    swapped s1 p pte idx fl bs \<and>
    (\<forall>t x ys cr2. swapped t p pte idx fl bs \<longrightarrow> free_ok kend t (x # ys) \<longrightarrow> PTE_ADDR pte \<notin> set (x # ys) \<longrightarrow>
       rmap_ok (rmap t (pgno x)) \<longrightarrow> size (rmap_refs (rmap t (pgno x))) < NPROC \<longrightarrow> curproc t = Some p \<longrightarrow>
       walkpgdir0 (p_pgdir (proctab t p)) (PGROUNDDOWN cr2) (ram t) = pte \<longrightarrow>
       (\<exists>t'. handle_fage_fault kend cr2 t = Inr t' \<and> ld32 (ram t') pte = back_pte x fl \<and> mread (ram t') x 4096 = bs \<and>
          free_ok kend t' ys \<and> rmap_refs (rmap t' (pgno x)) = add_mset pte (rmap_refs (rmap t (pgno x))) \<and> is_free (swaparray t' idx)))"
proof -
  have "\<exists>i \<in> set [0..<NSLOTS]. is_free (swaparray s0 i)" using assms(3) by auto
  from first_index_ex [OF this] obtain idx where
    idx: "first_index (\<lambda>i. is_free (swaparray s0 i)) [0..<NSLOTS] = Some idx" ..
  then have "idx < NSLOTS" "is_free (swaparray s0 idx)" using first_index_SomeD [OF idx] by auto
  with assms(4) have fr: "fresh_slot (swaparray s0 idx)" by blast
  note D = sole_pageD [OF assms(2)]
  from swap_out_run [OF assms(1,2) idx fr assms(5,6)] obtain s1 where
    s1: "find_new_page_after_swapping kend s = Inr s1" "swapped s1 p pte idx fl bs" "free_ok kend s1 (pte_page s0 pte # xs)"
    unfolding fl bs by blast
  have "\<exists>t'. handle_fage_fault kend cr2 t = Inr t' \<and> ld32 (ram t') pte = back_pte x fl \<and> mread (ram t') x 4096 = bs \<and>
          free_ok kend t' ys \<and> rmap_refs (rmap t' (pgno x)) = add_mset pte (rmap_refs (rmap t (pgno x))) \<and> is_free (swaparray t' idx)"
    if t: "swapped t p pte idx fl bs" "free_ok kend t (x # ys)" "PTE_ADDR pte \<notin> set (x # ys)"
      "rmap_ok (rmap t (pgno x))" "size (rmap_refs (rmap t (pgno x))) < NPROC" "curproc t = Some p"
      "walkpgdir0 (p_pgdir (proctab t p)) (PGROUNDDOWN cr2) (ram t) = pte" for t x ys cr2
  proof -
    from swap_in_run [OF t(1,2,6) D(2) t(3-5)] obtain t' where
      t': "swap_in kend pte t = Inr t'" "ld32 (ram t') pte = back_pte x fl" "mread (ram t') x 4096 = bs"
        "free_ok kend t' ys" "rmap_refs (rmap t' (pgno x)) = add_mset pte (rmap_refs (rmap t (pgno x)))" "is_free (swaparray t' idx)" by blast
    have "ld32 (ram t) pte = slot_pte idx" using t(1) by (simp add: swapped_def)
    from fault_swap_in [OF t(6,7) D(3) this t'(1)] t' show ?thesis by (simp add: free_ok_def)
  qed
  then show ?thesis using s1 by blast
qed

theorem swap_roundtrip_witness:
  "\<exists>s1 t'. find_new_page_after_swapping 0x80200000 (demo_swap False) = Inr s1 \<and> ld32 (ram s1) 0x80301000 AND PTE_P = 0 \<and>
    handle_fage_fault 0x80200000 0 s1 = Inr t' \<and> mread (ram t') 0x80302000 4096 = mread swap_ram 0x80302000 4096 \<and>
    ld32 (ram t') 0x80301000 = 0x302025"
proof -
  let ?s = "demo_swap False" and ?fl = "PTE_FLAGS 0x302005" and ?bs = "mread swap_ram 0x80302000 4096"
  have free: "\<exists>i < NSLOTS. is_free (swaparray ?s i)" "\<forall>i < NSLOTS. is_free (swaparray ?s i) \<longrightarrow> fresh_slot (swaparray ?s i)"
    using demo_slots [where two = False] NSLOTS_pos by blast+
  have pg: "pte_page ?s 0x80301000 = 0x80302000" by (simp add: pte_page_def swap_ram_ld PTE_ADDR_def P2V_def)
  have h: "curproc ?s = Some 0" "bio_idle (bcache ?s)" "?fl = PTE_FLAGS (ld32 (ram ?s) 0x80301000)"
    "?bs = mread (ram ?s) (pte_page ?s 0x80301000) 4096" by (simp_all add: bio_boot_idle swap_ram_ld pg)
  from swap_roundtrip [OF demo_victim demo_sole free h] obtain s1 idx where
    r: "find_new_page_after_swapping 0x80200000 ?s = Inr s1" "free_ok 0x80200000 s1 [0x80302000]" "swapped s1 0 0x80301000 idx ?fl ?bs"
      "\<forall>t x ys cr2. swapped t 0 0x80301000 idx ?fl ?bs \<longrightarrow> free_ok 0x80200000 t (x # ys) \<longrightarrow> PTE_ADDR 0x80301000 \<notin> set (x # ys) \<longrightarrow>
       rmap_ok (rmap t (pgno x)) \<longrightarrow> size (rmap_refs (rmap t (pgno x))) < NPROC \<longrightarrow> curproc t = Some 0 \<longrightarrow>
       walkpgdir0 (p_pgdir (proctab t 0)) (PGROUNDDOWN cr2) (ram t) = 0x80301000 \<longrightarrow>
       (\<exists>t'. handle_fage_fault 0x80200000 cr2 t = Inr t' \<and> ld32 (ram t') 0x80301000 = back_pte x ?fl \<and> mread (ram t') x 4096 = ?bs \<and>
          free_ok 0x80200000 t' ys \<and> rmap_refs (rmap t' (pgno x)) = add_mset 0x80301000 (rmap_refs (rmap t (pgno x))) \<and> is_free (swaparray t' idx))"
    unfolding pg by blast
  have "\<exists>i \<in> set [0..<NSLOTS]. is_free (swaparray ?s i)" using free(1) by auto
  from first_index_ex [OF this] obtain i where i: "first_index (\<lambda>i. is_free (swaparray ?s i)) [0..<NSLOTS] = Some i" ..
  then have "fresh_slot (swaparray ?s i)" using first_index_SomeD [OF i] demo_slots [of i] by simp
  from swap_out_run [OF demo_victim demo_sole i this h(1,2)] r(1) pg have
    f: "rmap_ok (rmap s1 (pgno 0x80302000))" "rmap_refs (rmap s1 (pgno 0x80302000)) = {#}" "curproc s1 = Some 0"
      "p_pgdir (proctab s1 0) = 0x80300000" "\<forall>a. PTE_ADDR a \<noteq> 0x80302000 \<longrightarrow> PTE_ADDR a \<noteq> PTE_ADDR 0x80301000 \<longrightarrow> ram s1 a = swap_ram a"
    by (auto simp: proc0_def)
  have "ld32 (ram s1) 0x80300000 = ld32 swap_ram 0x80300000"
    using f(5) by (intro ld32_cong) (auto simp: w_aligned_def PTE_ADDR_def)
  then have "walkpgdir0 (p_pgdir (proctab s1 0)) (PGROUNDDOWN 0) (ram s1) = 0x80301000"
    using swap_walk(1) by (simp add: f(4) walkpgdir0_def PDX_def PTX_def PGROUNDDOWN_def swap_ram_ld)
  with r(4) [rule_format, OF r(3,2)] f(1-3) obtain t' where
    "handle_fage_fault 0x80200000 0 s1 = Inr t'" "ld32 (ram t') 0x80301000 = back_pte 0x80302000 ?fl" "mread (ram t') 0x80302000 4096 = ?bs"
    by (auto simp: PTE_ADDR_def NPROC_def)
  moreover have "back_pte 0x80302000 ?fl = 0x302025" by (simp add: back_pte_def V2P_def PTE_ADDR_def PTE_FLAGS_def)
  moreover have "ld32 (ram s1) 0x80301000 AND PTE_P = 0" using r(3) slot_pte_absent [of idx] by (simp add: swapped_def)
  ultimately show ?thesis using r(1) by metis
qed

text \<open>C31. \<open>kalloc\<close> never returns a null pointer, and it fails only when the free list is empty and the page replacement
  fails, with the panic of the page replacement. When memory is full, the victim's page has one owner, a swap slot is free,
  every free slot is without recorded sharers and the buffer cache is idle,
  \<open>kalloc\<close> succeeds: it returns the page of the victim, an allocatable page, which is not on the free list any more, and the
  victim's bytes and flags are in the slot that its entry now names.\<close>

theorem kalloc_returns_page:
  shows "(\<forall>s'. kalloc kend s \<noteq> Inr (0, s')) \<and>
    (\<forall>e. kalloc kend s = Inl e \<longrightarrow> freelist s = 0 \<and> find_new_page_after_swapping kend (s\<lparr>global_var := global_var s + 1\<rparr>) = Inl e) \<and>
    (\<forall>pte s0 p me. freelist s = 0 \<longrightarrow> select_a_victim (s\<lparr>global_var := global_var s + 1\<rparr>) = Inr (pte, s0) \<longrightarrow> sole_page kend s0 [] p pte \<longrightarrow>
       (\<exists>i < NSLOTS. is_free (swaparray s0 i)) \<longrightarrow> (\<forall>i < NSLOTS. is_free (swaparray s0 i) \<longrightarrow> fresh_slot (swaparray s0 i)) \<longrightarrow>
       curproc s0 = Some me \<longrightarrow> bio_idle (bcache s0) \<longrightarrow>
       (\<exists>s' idx. kalloc kend s = Inr (pte_page s0 pte, s') \<and> kpage kend (pte_page s0 pte) \<and> free_ok kend s' [] \<and>
          swapped s' p pte idx (PTE_FLAGS (ld32 (ram s0) pte)) (mread (ram s0) (pte_page s0 pte) 4096)))"
proof (intro conjI allI impI)
  show "kalloc kend s \<noteq> Inr (0, s')" for s' using kalloc_nonzero [of kend s 0 s'] by auto
  fix e assume "kalloc kend s = Inl e"
  then show "freelist s = 0" "find_new_page_after_swapping kend (s\<lparr>global_var := global_var s + 1\<rparr>) = Inl e"
    using kalloc_fails by simp_all
next
  fix pte s0 p me
  assume a: "freelist s = 0" "select_a_victim (s\<lparr>global_var := global_var s + 1\<rparr>) = Inr (pte, s0)" "sole_page kend s0 [] p pte"
    "\<exists>i < NSLOTS. is_free (swaparray s0 i)" "\<forall>i < NSLOTS. is_free (swaparray s0 i) \<longrightarrow> fresh_slot (swaparray s0 i)"
    "curproc s0 = Some me" "bio_idle (bcache s0)"
  have "\<exists>i \<in> set [0..<NSLOTS]. is_free (swaparray s0 i)" using a(4) by auto
  from first_index_ex [OF this] obtain idx where
    idx: "first_index (\<lambda>i. is_free (swaparray s0 i)) [0..<NSLOTS] = Some idx" ..
  then have "fresh_slot (swaparray s0 idx)" using first_index_SomeD [OF idx] a(5) by auto
  from swap_out_run [OF a(2,3) idx this a(6,7)] obtain s1 where
    s1: "find_new_page_after_swapping kend (s\<lparr>global_var := global_var s + 1\<rparr>) = Inr s1" "free_ok kend s1 [pte_page s0 pte]"
      "swapped s1 p pte idx (PTE_FLAGS (ld32 (ram s0) pte)) (mread (ram s0) (pte_page s0 pte) 4096)" by blast
  from kalloc_ok [OF s1(2)] obtain s' where s': "kalloc kend s1 = Inr (pte_page s0 pte, s')" "free_ok kend s' []"
    "s' = s1\<lparr>freelist := freelist s', num_free_pages := num_free_pages s1 - 1, global_var := global_var s1 + 1\<rparr>" by blast
  show "\<exists>s' idx. kalloc kend s = Inr (pte_page s0 pte, s') \<and> kpage kend (pte_page s0 pte) \<and> free_ok kend s' [] \<and>
          swapped s' p pte idx (PTE_FLAGS (ld32 (ram s0) pte)) (mread (ram s0) (pte_page s0 pte) 4096)"
    using kalloc_via_swap [OF a(1) s1(1)] s'(1,2) swapped_take [OF s1(3) s'(3)] sole_pageD(4) [OF a(3)] by auto
qed

text \<open>Witness: the only page of the only process, with an empty free list.\<close>

lemma demo_sole_counted: "sole_page 0x80200000 ((demo_swap False)\<lparr>global_var := g\<rparr>) [] 0 0x80301000"
  using demo_sole by (simp add: sole_page_def maps_at_def maps_none_def pte_page_def free_ok_def)

theorem kalloc_returns_page_witness:
  "\<exists>s' idx. freelist (demo_swap False) = 0 \<and> kalloc 0x80200000 (demo_swap False) = Inr (0x80302000, s') \<and>
    ld32 (ram s') 0x80301000 = slot_pte idx \<and> slot_bytes s' idx = mread swap_ram 0x80302000 4096"
proof -
  let ?s = "(demo_swap False)\<lparr>global_var := global_var (demo_swap False) + 1\<rparr>"
  have h: "freelist (demo_swap False) = 0" "\<exists>i < NSLOTS. is_free (swaparray ?s i)"
    "\<forall>i < NSLOTS. is_free (swaparray ?s i) \<longrightarrow> fresh_slot (swaparray ?s i)" "curproc ?s = Some 0" "bio_idle (bcache ?s)"
    using demo_slots [where two = False] NSLOTS_pos by (auto simp: bio_boot_idle)
  have pg: "pte_page ?s 0x80301000 = 0x80302000" by (simp add: pte_page_def swap_ram_ld PTE_ADDR_def P2V_def)
  from kalloc_returns_page [THEN conjunct2, THEN conjunct2, rule_format, OF h(1) demo_victim_counted demo_sole_counted h(2) _ h(4,5)] h(3)
  show ?thesis unfolding pg using h(1) by (auto simp: swapped_def)
qed

lemma swap_out_inv:
  assumes "select_a_victim s = Inr (pte, s0)" and "find_new_page_after_swapping kend s = Inr s1"
  shows "\<exists>idx s2 s3. ram s2 = ram s0 \<and> kfree kend (pte_page s0 pte) s2 = Inr s3 \<and> s1 = swap_out_end idx pte s3"
proof -
  from assms obtain idx me b s2 where
    r: "first_index (\<lambda>i. is_free (swaparray s0 i)) [0..<NSLOTS] = Some idx" "pte \<noteq> 0" "curproc s0 = Some me"
      "write_pag_to_disk (p_pid (proctab s0 me)) (ram s0) (P2V (PTE_ADDR (ld32 (ram s0) pte))) (2 + 8 * of_nat idx) (bcache s0) = Inr b"
      "make_other_pte_swapped_out pte idx (s0\<lparr>bcache := b\<rparr>) = Inr s2"
    by (auto simp: find_new_page_after_swapping_def mypid_def myproc_def split: option.splits if_splits)
  have "ram s2 = ram s0" using make_other_frame [OF r(5) [unfolded make_other_pte_swapped_out_def]] by (simp add: same_mem_def)
  then show ?thesis using assms(2) unfolding swap_out_eq [OF assms(1) r]
    by (auto simp: pte_page_def) (metis upd_slot_simps(13))
qed

text \<open>C32. Swapping out a page that another process maps leaves that process with a dangling mapping:
  only the entry of the victim changes, so the other entry still maps the page, present,
  although the page is at the head of the free list and overwritten.\<close>

theorem swap_out_leaves_sharer:
  assumes "select_a_victim s = Inr (pte, s0)" and "find_new_page_after_swapping kend s = Inr s1"
    and "w_aligned pte" and "w_aligned pte'" and "pte' \<noteq> pte" and "ld32 (ram s0) pte' = ld32 (ram s0) pte"
    and "PTE_ADDR pte \<noteq> pte_page s0 pte" and "PTE_ADDR pte' \<noteq> pte_page s0 pte"
  shows "ld32 (ram s1) pte' = ld32 (ram s0) pte' \<and> pte_page s1 pte' = freelist s1 \<and>
    (\<forall>i. 4 \<le> i \<and> i < 4096 \<longrightarrow> ram s1 (pte_page s1 pte' + of_nat i) = 1) \<and> (\<exists>idx. ld32 (ram s1) pte = slot_pte idx)"
proof -
  let ?pg = "pte_page s0 pte"
  from swap_out_inv [OF assms(1,2)] obtain idx s2 s3 where
    r: "ram s2 = ram s0" "kfree kend ?pg s2 = Inr s3" "s1 = swap_out_end idx pte s3" by blast
  have k: "kpage kend ?pg" using r(2) kfree_bad [of kend ?pg s2] by fastforce
  then have ram3: "ram s3 = st32 (memset (ram s0) ?pg 1 4096) ?pg (freelist s2)" "freelist s3 = ?pg"
    using r(1,2) by (auto simp: kfree_def Let_def split: if_splits)
  have ram1: "ram s1 = st32 (st32 (ram s3) pte (slot_pte idx)) pte (slot_pte idx)" by (simp add: r(3) swap_out_end_def)
  have "ld32 (ram s3) pte' = ld32 (ram s0) pte'"
    using assms(4,8) k by (intro ld32_cong) (auto simp: ram3 st32_other_page memset_page PTE_ADDR_of_aligned)
  then have e: "ld32 (ram s1) pte' = ld32 (ram s0) pte'" using assms(3,4,5) by (simp add: ram1 ld32_st32_other)
  then have pg: "pte_page s1 pte' = ?pg" using assms(6) by (simp add: pte_page_def)
  moreover have "ram s1 (?pg + of_nat i) = 1" if i: "4 \<le> i" "i < 4096" for i
  proof -
    have u: "unat (of_nat i :: u32) = i" using i by (simp add: unat_of_nat)
    then have a: "PTE_ADDR (?pg + of_nat i) = ?pg" using PTE_ADDR_add [of ?pg "of_nat i"] k i by (simp add: word_less_nat_alt)
    then have "ram s1 (?pg + of_nat i) = ram s3 (?pg + of_nat i)" using assms(3,7) by (simp add: ram1 st32_other_page)
    moreover have "(of_nat i :: u32) \<noteq> of_nat j" if "j < 4" for j
    proof
      assume "(of_nat i :: u32) = of_nat j"
      then have "i = unat (of_nat j :: u32)" using u by simp
      then show False using i that by (simp add: unat_of_nat)
    qed
    from this [of 0] this [of 1] this [of 2] this [of 3] have "ram s3 (?pg + of_nat i) = memset (ram s0) ?pg 1 4096 (?pg + of_nat i)"
      by (simp add: ram3 st32_def)
    ultimately show ?thesis using k a by (simp add: memset_page)
  qed
  moreover have "freelist s1 = ?pg" using ram3(2) by (simp add: r(3) swap_out_end_def)
  moreover have "ld32 (ram s1) pte = slot_pte idx" by (simp add: ram1)
  ultimately show ?thesis using e by auto
qed

lemma record_out_ex:
  assumes "idx < NSLOTS" "unat (cnt (swaparray s idx)) < NPROC" "PTE_ADDR (ld32 (ram s) w) div PGSIZE = n" "n < NPAGES"
    "rmap_ok (rmap s n)" "w \<in># rmap_refs (rmap s n)"
  shows "\<exists>t. record_out idx p w s = Inr t \<and> ram t = ram s \<and> cnt (swaparray t idx) = cnt (swaparray s idx) + 1 \<and>
    rmap_ok (rmap t n) \<and> rmap_refs (rmap t n) = rmap_refs (rmap s n) - {#w#} \<and>
    proctab t = (proctab s)(p := (proctab s p)\<lparr>p_rss := p_rss (proctab s p) - PGSIZE\<rparr>)"
  using record_out_run [of idx s w p, unfolded assms(3), OF assms(1,2,4-6)] by auto

lemma demo_shared_out: "\<exists>s1. find_new_page_after_swapping 0x80200000 (demo_swap True) = Inr s1"
proof -
  have "\<exists>i \<in> set [0..<NSLOTS]. is_free (swaparray (demo_swap True) i)" using demo_slots [of 0 True] NSLOTS_pos by auto
  from first_index_ex [OF this] obtain idx where idx: "first_index (\<lambda>i. is_free (swaparray (demo_swap True) i)) [0..<NSLOTS] = Some idx" ..
  then have i: "idx < NSLOTS" "fresh_slot (swaparray (demo_swap True) idx)" using first_index_SomeD [OF idx] demo_slots [of idx True] by auto
  from swap_write [of bio_boot idx 1 swap_ram "0x80302000"] i(1) bio_boot_idle obtain b where
    b: "write_pag_to_disk 1 swap_ram 0x80302000 (2 + 8 * of_nat idx) bio_boot = Inr b" by blast
  obtain s where s: "s = demo_swap True\<lparr>bcache := b\<rparr>" by blast
  have "size (rmap_refs (inc_entry 0x80301000 (rmap_empty 0x302))) < NPROC" by (simp add: demo_rmap NPROC_def)
  note R = rmap.invar_inc [OF demo_rmap(1) this, of "0x80304000"] rmap.refs_inc [OF demo_rmap(1) this, of "0x80304000"]
  have h0: "maps_at s (ld32 (ram s) 0x80301000) 0 0x80301000"
    by (simp add: maps_at_def s one_page swap_walk)
  have c: "cnt (swaparray s idx) = 0" using i(2) by (simp add: s fresh_slot_def)
  have r: "rmap_ok (rmap s 0x302)" "rmap_refs (rmap s 0x302) = {#0x80301000, 0x80304000#}" using R by (simp_all add: s demo_rmap add_mset_commute)
  obtain t where t: "record_out idx 0 0x80301000 s = Inr t" "ram t = swap_ram" "cnt (swaparray t idx) = 1"
      "rmap_ok (rmap t 0x302)" "rmap_refs (rmap t 0x302) = {#0x80304000#}"
      "proctab t = (proctab s)(0 := (proctab s 0)\<lparr>p_rss := p_rss (proctab s 0) - PGSIZE\<rparr>)"
    using record_out_ex [OF i(1), of s "0x80301000" "0x302" 0] c r by (auto simp: s swap_ram_ld PTE_ADDR_def NPROC_def)
  have h1: "maps_at t (ld32 (ram t) 0x80301000) 1 0x80304000"
    by (simp add: maps_at_def t s demo_proctab one_page swap_walk swap_ram_ld)
  obtain u where u: "record_out idx 1 0x80304000 t = Inr u" "ram u = swap_ram"
      "proctab u = (proctab t)(1 := (proctab t 1)\<lparr>p_rss := p_rss (proctab t 1) - PGSIZE\<rparr>)"
    using record_out_ex [OF i(1), of t "0x80304000" "0x302" 1] t by (auto simp: swap_ram_ld PTE_ADDR_def NPROC_def)
  have "make_other_pte_swapped_out_loop 0x80301000 idx [2..<NPROC] u = Inr u"
    by (intro make_other_none) (auto simp: maps_none_def u t s demo_proctab proc0_def)
  moreover have "[0..<NPROC] = 0 # 1 # [2..<NPROC]" by (simp add: NPROC_def upt_rec)
  ultimately have o: "make_other_pte_swapped_out 0x80301000 idx s = Inr u"
    unfolding make_other_pte_swapped_out_def using make_other_hit [OF h0, of idx] make_other_hit [OF h1, of idx] t(1) u(1) by simp
  have "kpage 0x80200000 0x80302000" by (simp add: kpage_def pg_aligned_def V2P_def)
  then have "\<exists>s3. kfree 0x80200000 0x80302000 x = Inr s3" for x
    by (simp add: kfree_def kpage_def pg_aligned_mod not_less not_le Let_def)
  then show ?thesis
    using swap_out_eq [OF demo_victim idx _ demo_swap_simps(2), of b u "0x80200000"] b o
    by (simp add: swap_ram_ld PTE_ADDR_def P2V_def s proc0_def)
qed

theorem swap_out_leaves_sharer_witness:
  "\<exists>s1. find_new_page_after_swapping 0x80200000 (demo_swap True) = Inr s1 \<and> ld32 (ram s1) 0x80304000 = 0x302005 \<and>
    freelist s1 = 0x80302000 \<and> ram s1 0x80302004 = 1"
proof -
  from demo_shared_out obtain s1 where s1: "find_new_page_after_swapping 0x80200000 (demo_swap True) = Inr s1" ..
  have h: "w_aligned 0x80301000" "w_aligned 0x80304000" "(0x80304000 :: u32) \<noteq> 0x80301000"
    "ld32 (ram (demo_swap True)) 0x80304000 = ld32 (ram (demo_swap True)) 0x80301000"
    "PTE_ADDR 0x80301000 \<noteq> pte_page (demo_swap True) 0x80301000" "PTE_ADDR 0x80304000 \<noteq> pte_page (demo_swap True) 0x80301000"
    by (simp_all add: w_aligned_def swap_ram_ld pte_page_def PTE_ADDR_def P2V_def)
  from swap_out_leaves_sharer [OF demo_victim s1 h]
  have "ld32 (ram s1) 0x80304000 = 0x302005" "pte_page s1 0x80304000 = freelist s1" "ram s1 (pte_page s1 0x80304000 + of_nat 4) = 1"
    by (auto simp: swap_ram_ld)
  then show ?thesis using s1 by (simp add: pte_page_def PTE_ADDR_def P2V_def)
qed

end
