(* ===== verification/Xv6_Cache.thy ===== *)
theory Xv6_Cache
  imports Xv6_Bio
begin

text \<open>
  The buffer cache as its clients see it. A state is described by the block contents that
  readers see (\<open>content\<close>), the contents of the root disk, the blocks that the log pins in the
  cache (\<open>pinned\<close>) and the buffers the caller holds, a map from buffer numbers to blocks. Each
  operation of \<open>bio.c\<close> has one law in these terms.
\<close>

section \<open>Held buffers\<close>

definition bview :: "u32 \<Rightarrow> (nat \<rightharpoonup> u32) \<Rightarrow> bstate \<Rightarrow> bool" where
  "bview me H s \<longleftrightarrow> bio_ok s \<and> dom H \<subseteq> {..<NBUF} \<and>
     (\<forall>i < NBUF. case H i of None \<Rightarrow> refcnt (bufs s i) = 0 | Some bn \<Rightarrow> owns me i bn s \<and> valid (bufs s i))"

lemma bviewD:
  assumes "bview me H s"
  shows "bio_ok s" "H i = Some bn \<Longrightarrow> i < NBUF" "H i = Some bn \<Longrightarrow> owns me i bn s"
    "H i = Some bn \<Longrightarrow> valid (bufs s i)" "i < NBUF \<Longrightarrow> H i = None \<Longrightarrow> refcnt (bufs s i) = 0"
  using assms by (auto simp: bview_def dest!: spec [of _ i])

lemma bview_data:
  assumes v: "bview me H s" and h: "H i = Some bn"
  shows "data (bufs s i) = content s bn"
  using content_cached [OF bviewD(1) [OF v] bviewD(2) [OF v h]] bviewD(3,4) [OF v h] by (auto simp: owns_def)

lemma bview_inj: "bview me H s \<Longrightarrow> H i = Some bn \<Longrightarrow> H j = Some bn \<Longrightarrow> i = j"
  using bio_okD(8) [of s i j] bviewD(1-3) [of me H s] by (metis owns_def)

lemma bview_unheld:
  assumes v: "bview me H s" and n: "bn \<notin> ran H"
  shows "\<not> held s bn"
proof
  assume "held s bn"
  then obtain i where i: "i < NBUF" "dev (bufs s i) = 1" "blockno (bufs s i) = bn" "refcnt (bufs s i) \<noteq> 0"
    by (auto simp: held_def)
  then obtain c where "H i = Some c" using bviewD(5) [OF v] by (cases "H i") auto
  with bviewD(3) [OF v this] i(3) n show False by (auto simp: owns_def ran_def)
qed

text \<open>A block that is neither pinned nor held agrees with the disk.\<close>

lemma content_disk:
  assumes v: "bview me H s" and n: "bn \<notin> ran H" "bn \<notin> pinned s"
  shows "content s bn = disk s 1 bn"
proof (cases "cached s bn")
  case True
  then obtain i where i: "i < NBUF" "dev (bufs s i) = 1" "blockno (bufs s i) = bn" by (auto simp: cached_def)
  then have "refcnt (bufs s i) = 0" using bview_unheld [OF v n(1)] by (auto simp: held_def)
  moreover have "\<not> dirty (bufs s i)" using n(2) i by (auto simp: pinned_def)
  ultimately show ?thesis
    using content_cached [OF bviewD(1) [OF v] i] bio_okD(7) [OF bviewD(1) [OF v] i(1)] i by (auto simp: buf_ok_def)
next
  case False
  then show ?thesis using content_uncached [OF bviewD(1) [OF v], of bn] by (auto simp: cached_def)
qed

lemma pinned_cached: "bn \<in> pinned s \<Longrightarrow> cached s bn"
  by (auto simp: pinned_def cached_def)

text \<open>A buffer is free when the pinned blocks and the held buffers leave one.\<close>

lemma finite_pinned [simp]: "finite (pinned s)"
proof (rule finite_subset)
  show "pinned s \<subseteq> (\<lambda>i. blockno (bufs s i)) ` {..<NBUF}" by (auto simp: pinned_def)
qed simp

lemma bview_avail:
  assumes v: "bview me H s" and room: "card (pinned s) + card (dom H) < NBUF"
  shows "bio_avail s"
proof (rule ccontr)
  assume none: "\<not> bio_avail s"
  let ?D = "{i. i < NBUF \<and> dirty (bufs s i)}"
  have fin: "finite (dom H)" using v by (auto simp: bview_def intro: finite_subset)
  have d: "dev (bufs s i) = 1" if "i \<in> ?D" for i
    using bio_okD(7) [OF bviewD(1) [OF v], of i] that by (simp add: buf_ok_def)
  have "inj_on (\<lambda>i. blockno (bufs s i)) ?D"
    using bio_okD(8) [OF bviewD(1) [OF v]] d by (intro inj_onI) auto
  moreover have "(\<lambda>i. blockno (bufs s i)) ` ?D \<subseteq> pinned s" using d by (auto simp: pinned_def)
  ultimately have D: "card ?D \<le> card (pinned s)" by (intro card_inj_on_le) simp_all
  have fin': "finite (dom H \<union> ?D)" using fin by simp
  have "{..<NBUF} \<subseteq> dom H \<union> ?D" using none bviewD(5) [OF v] by (auto simp: bio_avail_def)
  from card_mono [OF fin' this] have "NBUF \<le> card (dom H \<union> ?D)" by simp
  also have "\<dots> \<le> card (dom H) + card ?D" by (rule card_Un_le)
  finally show False using D room by simp
qed

section \<open>The operations\<close>

definition room :: "(nat \<rightharpoonup> u32) \<Rightarrow> bstate \<Rightarrow> u32 \<Rightarrow> bool" where
  "room H s bn \<longleftrightarrow> bn \<in> pinned s \<or> card (pinned s) + card (dom H) < NBUF"

lemma bread_view:
  assumes v: "bview me H s" and n: "bn \<notin> ran H" and room: "room H s bn" and lim: "bn < blimit"
  shows "\<exists>i s'. bread me 1 bn s = Inr (i, s') \<and> bview me (H(i \<mapsto> bn)) s' \<and> H i = None \<and> i < NBUF \<and>
    content s' = content s \<and> disk s' = disk s \<and> pinned s' = pinned s \<and> crashes s' = crashes s \<and>
    data (bufs s' i) = content s bn"
proof -
  have av: "cached s bn \<or> bio_avail s" using room pinned_cached bview_avail [OF v] by (auto simp: room_def)
  from bread_spec [OF bviewD(1) [OF v] bview_unheld [OF v n] av lim, where mypid = me] obtain i b where
    r: "bread me 1 bn s = Inr (i, s\<lparr>bufs := (bufs s)(i := b)\<rparr>)"
      "owns me i bn (s\<lparr>bufs := (bufs s)(i := b)\<rparr>)" "bio_ok (s\<lparr>bufs := (bufs s)(i := b)\<rparr>)"
      "content (s\<lparr>bufs := (bufs s)(i := b)\<rparr>) = content s" "refcnt (bufs s i) = 0" "valid b" "data b = content s bn"
      "pinned (s\<lparr>bufs := (bufs s)(i := b)\<rparr>) = pinned s" by blast
  let ?s = "s\<lparr>bufs := (bufs s)(i := b)\<rparr>"
  have i: "i < NBUF" using r(2) by (simp add: owns_def)
  have none: "H i = None"
  proof (cases "H i")
    case (Some c)
    then show ?thesis using bviewD(3) [OF v Some] r(5) by (simp add: owns_def)
  qed
  have "bview me (H(i \<mapsto> bn)) ?s"
    unfolding bview_def
  proof (intro conjI allI impI)
    show "dom (H(i \<mapsto> bn)) \<subseteq> {..<NBUF}" using v i by (auto simp: bview_def)
    show "case (H(i \<mapsto> bn)) j of None \<Rightarrow> refcnt (bufs ?s j) = 0 | Some bn \<Rightarrow> owns me j bn ?s \<and> valid (bufs ?s j)"
      if "j < NBUF" for j
      using that r(2,6) v by (cases "j = i") (auto simp: bview_def owns_def split: option.splits)
  qed (rule r(3))
  then show ?thesis using r none i by (intro exI [of _ i] exI [of _ ?s]) simp
qed

text \<open>Writing into a held buffer.\<close>

lemma set_view:
  assumes v: "bview me H s" and h: "H i = Some bn" and len: "length d = BSIZE"
  defines "s' \<equiv> upd_buf i (\<lambda>b. b\<lparr>data := d\<rparr>) s"
  shows "bview me H s'" "content s' = (content s)(bn := d)" "disk s' = disk s" "pinned s' = pinned s"
    "crashes s' = crashes s"
proof -
  let ?b = "(bufs s i)\<lparr>data := d\<rparr>"
  have own: "owns me i bn s" and i: "i < NBUF" and va: "valid (bufs s i)"
    using bviewD(2-4) [OF v h] by blast+
  have s': "s' = s\<lparr>bufs := (bufs s)(i := ?b), disk := (disk s)(1 := (disk s 1)(bn := disk s 1 bn))\<rparr>"
    by (simp add: s'_def upd_buf_def)
  have R: "bio_ok s'" "content s' = (content s)(bn := d)"
    using owned_replace [OF bviewD(1) [OF v] own _ _ _ _ _ _ _ s'] own va len bio_okD(6) [OF bviewD(1) [OF v]]
    by (auto simp: owns_def holdingsleep_def)
  show "content s' = (content s)(bn := d)" by (rule R(2))
  show "disk s' = disk s" "crashes s' = crashes s" by (simp_all add: s'_def)
  show "pinned s' = pinned s" by (rule pinned_same [OF i, where b = ?b]) (simp_all add: s')
  show "bview me H s'"
    using v R(1) h by (auto simp: bview_def s'_def owns_def split: option.splits)
qed

text \<open>Pinning a held buffer, as \<open>log_write\<close> does.\<close>

lemma pin_view:
  assumes v: "bview me H s" and h: "H i = Some bn"
  defines "s' \<equiv> upd_buf i (\<lambda>b. b\<lparr>flags := flags b OR B_DIRTY\<rparr>) s"
  shows "bview me H s'" "content s' = content s" "disk s' = disk s" "pinned s' = insert bn (pinned s)"
    "crashes s' = crashes s"
proof -
  let ?b = "(bufs s i)\<lparr>flags := flags (bufs s i) OR B_DIRTY\<rparr>"
  have own: "owns me i bn s" and i: "i < NBUF" and va: "valid (bufs s i)"
    using bviewD(2-4) [OF v h] by blast+
  have s': "s' = s\<lparr>bufs := (bufs s)(i := ?b), disk := (disk s)(1 := (disk s 1)(bn := disk s 1 bn))\<rparr>"
    by (simp add: s'_def upd_buf_def)
  have bok: "buf_ok (disk s) (bufs s i)" by (rule bio_okD(7) [OF bviewD(1) [OF v] i])
  have R: "bio_ok s'" "content s' = (content s)(bn := data (bufs s i))"
    using owned_replace [OF bviewD(1) [OF v] own _ _ _ _ _ _ _ s'] own va bok bio_okD(6) [OF bviewD(1) [OF v]]
    by (auto simp: owns_def holdingsleep_def buf_ok_def)
  show "content s' = content s" using R(2) bview_data [OF v h] by auto
  show "disk s' = disk s" "crashes s' = crashes s" by (simp_all add: s'_def)
  show "pinned s' = insert bn (pinned s)"
    using pinned_replace [OF i, of s' s ?b] pinned_replace [OF i, of s s "bufs s i"] own s'
    by (auto simp: owns_def)
  show "bview me H s'"
    using v R(1) h by (auto simp: bview_def s'_def owns_def split: option.splits)
qed

lemma bwrite_view:
  assumes v: "bview me H s" and h: "H i = Some bn" and lim: "bn < blimit"
  shows "\<exists>s'. bwrite me i s = Inr s' \<and> bview me H s' \<and> content s' = content s \<and>
    disk s' = (disk s)(1 := (disk s 1)(bn := content s bn)) \<and> pinned s' = pinned s - {bn} \<and>
    crashes s' = insert (disk s) (crashes s)"
proof -
  have own: "owns me i bn s" and i: "i < NBUF" using bviewD(2,3) [OF v h] by blast+
  from bwrite_spec [OF bviewD(1) [OF v] own lim] obtain b s' where
    w: "bwrite me i s = Inr s'" "bufs s' = (bufs s)(i := b)"
      "disk s' = (disk s)(1 := (disk s 1)(bn := data (bufs s i)))" "crashes s' = insert (disk s) (crashes s)"
      "owns me i bn s'" "bio_ok s'" "content s' = (content s)(bn := data (bufs s i))" "valid b" "\<not> dirty b" by blast
  have sole: "\<not> (dev (bufs s j) = 1 \<and> blockno (bufs s j) = bn)" if "j < NBUF" "j \<noteq> i" for j
    using owns_sole [OF bviewD(1) [OF v] own that] .
  have "pinned s' = pinned s - {bn}"
    using pinned_replace [OF i w(2)] pinned_replace [OF i, of s s "bufs s i"] own sole w(9)
    by (auto simp: owns_def)
  moreover have "bview me H s'"
    unfolding bview_def
  proof (intro conjI allI impI)
    show "dom H \<subseteq> {..<NBUF}" using v by (simp add: bview_def)
    show "case H j of None \<Rightarrow> refcnt (bufs s' j) = 0 | Some bn \<Rightarrow> owns me j bn s' \<and> valid (bufs s' j)" if "j < NBUF" for j
      using that v w(2,5,8) h by (cases "j = i") (auto simp: bview_def owns_def split: option.splits)
  qed (rule w(6))
  ultimately show ?thesis using w bview_data [OF v h] by (auto simp: fun_eq_iff)
qed

lemma brelse_view:
  assumes v: "bview me H s" and h: "H i = Some bn" and ok: "bn \<in> pinned s \<or> content s bn = disk s 1 bn"
  shows "\<exists>s'. brelse me i s = Inr s' \<and> bview me (H(i := None)) s' \<and> content s' = content s \<and>
    disk s' = disk s \<and> pinned s' = pinned s \<and> crashes s' = crashes s"
proof -
  have own: "owns me i bn s" and i: "i < NBUF" using bviewD(2,3) [OF v h] by blast+
  have "data (bufs s i) = disk s 1 bn" if "\<not> dirty (bufs s i)"
  proof -
    have "bn \<notin> pinned s"
      using that bio_okD(8) [OF bviewD(1) [OF v] _ i] own by (auto simp: pinned_def owns_def)
    then show ?thesis using ok bview_data [OF v h] by simp
  qed
  from brelse_spec [OF bviewD(1) [OF v] own this] obtain b s' where
    r: "brelse me i s = Inr s'" "bufs s' = (bufs s)(i := b)" "disk s' = disk s" "crashes s' = crashes s"
      "bio_ok s'" "content s' = content s" "refcnt b = 0" "flags b = flags (bufs s i)"
      "dev b = dev (bufs s i)" "blockno b = blockno (bufs s i)" by blast
  have "pinned s' = pinned s" by (rule pinned_same [OF i r(2)]) (use r(8-10) in simp_all)
  moreover have "bview me (H(i := None)) s'"
    unfolding bview_def
  proof (intro conjI allI impI)
    show "dom (H(i := None)) \<subseteq> {..<NBUF}" using v by (auto simp: bview_def)
    show "case (H(i := None)) j of None \<Rightarrow> refcnt (bufs s' j) = 0 | Some bn \<Rightarrow> owns me j bn s' \<and> valid (bufs s' j)"
      if "j < NBUF" for j
      using that v r(2,7) by (cases "j = i") (auto simp: bview_def owns_def split: option.splits)
  qed (rule r(5))
  ultimately show ?thesis using r by auto
qed

end
