(* ===== verification/Xv6_Bytes.thy ===== *)
theory Xv6_Bytes
  imports Xv6_Cache
begin

text \<open>
  Structures inside disk blocks: little-endian 16-bit and 32-bit fields of a byte list, as
  the C code reads and writes them through a cast of \<open>b->data\<close>, and the store of a run of
  bytes.
\<close>

section \<open>Fields\<close>

definition get16 :: "u8 list \<Rightarrow> nat \<Rightarrow> u16" where
  "get16 d i = ucast (d ! i) OR push_bit 8 (ucast (d ! (i + 1)))"

definition get32 :: "u8 list \<Rightarrow> nat \<Rightarrow> u32" where
  "get32 d i = ucast (d ! i) OR push_bit 8 (ucast (d ! (i + 1)))
     OR push_bit 16 (ucast (d ! (i + 2))) OR push_bit 24 (ucast (d ! (i + 3)))"

definition put16 :: "nat \<Rightarrow> u16 \<Rightarrow> u8 list \<Rightarrow> u8 list" where
  "put16 i v d = d[i := ucast v, i + 1 := ucast (drop_bit 8 v)]"

definition put32 :: "nat \<Rightarrow> u32 \<Rightarrow> u8 list \<Rightarrow> u8 list" where
  "put32 i v d = d[i := ucast v, i + 1 := ucast (drop_bit 8 v),
     i + 2 := ucast (drop_bit 16 v), i + 3 := ucast (drop_bit 24 v)]"

text \<open>\<open>memmove(d + i, bs, n)\<close> inside a block.\<close>

definition put_bytes :: "nat \<Rightarrow> u8 list \<Rightarrow> u8 list \<Rightarrow> u8 list" where
  "put_bytes i bs d = take i d @ bs @ drop (i + length bs) d"

section \<open>Laws\<close>

lemma length_put [simp]:
  "length (put16 i w d) = length d" "length (put32 i v d) = length d"
  by (simp_all add: put16_def put32_def)

lemma length_put_bytes [simp]: "i + length bs \<le> length d \<Longrightarrow> length (put_bytes i bs d) = length d"
  by (simp add: put_bytes_def)

lemma get16_put16 [simp]: "i + 2 \<le> length d \<Longrightarrow> get16 (put16 i v d) i = v"
proof (rule bit_word_eqI)
  fix n
  assume i: "i + 2 \<le> length d" and "n < LENGTH(16)"
  then consider "n < 8" | "8 \<le> n" "n < 16" by fastforce
  then show "bit (get16 (put16 i v d) i) n = bit v n"
    using i by cases (auto simp: get16_def put16_def bit_simps)
qed

lemma get32_put32 [simp]: "i + 4 \<le> length d \<Longrightarrow> get32 (put32 i v d) i = v"
proof (rule bit_word_eqI)
  fix n
  assume i: "i + 4 \<le> length d" and "n < LENGTH(32)"
  then consider "n < 8" | "8 \<le> n" "n < 16" | "16 \<le> n" "n < 24" | "24 \<le> n" "n < 32" by fastforce
  then show "bit (get32 (put32 i v d) i) n = bit v n"
    using i by cases (auto simp: get32_def put32_def bit_simps)
qed

lemma nth_put32: "j < i \<or> i + 4 \<le> j \<Longrightarrow> put32 i v d ! j = d ! j"
  by (auto simp: put32_def)

lemma nth_put16: "j < i \<or> i + 2 \<le> j \<Longrightarrow> put16 i v d ! j = d ! j"
  by (auto simp: put16_def)

lemma get_put_other [simp]:
  "j + 4 \<le> i \<or> i + 4 \<le> j \<Longrightarrow> get32 (put32 i v d) j = get32 d j"
  "j + 4 \<le> i \<or> i + 2 \<le> j \<Longrightarrow> get32 (put16 i w d) j = get32 d j"
  "j + 2 \<le> i \<or> i + 4 \<le> j \<Longrightarrow> get16 (put32 i v d) j = get16 d j"
  "j + 2 \<le> i \<or> i + 2 \<le> j \<Longrightarrow> get16 (put16 i w d) j = get16 d j"
  by (auto simp: get32_def get16_def nth_put32 nth_put16)

lemma nth_put_bytes:
  assumes "i + length bs \<le> length d" and "j < length d"
  shows "put_bytes i bs d ! j = (if i \<le> j \<and> j < i + length bs then bs ! (j - i) else d ! j)"
  using assms by (auto simp: put_bytes_def nth_append min_def not_less)

lemma put_bytes_same: "i + n \<le> length d \<Longrightarrow> take n (drop i (put_bytes i bs d)) = bs" if "length bs = n"
  using that by (simp add: put_bytes_def)

text \<open>An array of 32-bit entries.\<close>

fun put_array :: "nat \<Rightarrow> u32 list \<Rightarrow> u8 list \<Rightarrow> u8 list" where
  "put_array i [] d = d"
| "put_array i (v # vs) d = put_array (i + 4) vs (put32 i v d)"

definition get_array :: "u8 list \<Rightarrow> nat \<Rightarrow> nat \<Rightarrow> u32 list" where
  "get_array d i n = map (\<lambda>k. get32 d (i + 4 * k)) [0..<n]"

lemma length_put_array [simp]: "length (put_array i vs d) = length d"
  by (induction vs arbitrary: i d) simp_all

lemma get_put_array_other [simp]:
  "j + 4 \<le> i \<or> i + 4 * length vs \<le> j \<Longrightarrow> get32 (put_array i vs d) j = get32 d j"
  "j + 2 \<le> i \<or> i + 4 * length vs \<le> j \<Longrightarrow> get16 (put_array i vs d) j = get16 d j"
  by (induction vs arbitrary: i d) auto

lemma get_put_array:
  "i + 4 * length vs \<le> length d \<Longrightarrow> k < length vs \<Longrightarrow> get32 (put_array i vs d) (i + 4 * k) = vs ! k"
proof (induction vs arbitrary: i d k)
  case (Cons v vs)
  show ?case
  proof (cases k)
    case 0
    then show ?thesis using Cons.prems by simp
  next
    case (Suc j)
    then show ?thesis using Cons.IH [of "i + 4" "put32 i v d" j] Cons.prems by (simp add: add.assoc)
  qed
qed simp

lemma get_array_put_array [simp]:
  "i + 4 * length vs \<le> length d \<Longrightarrow> n = length vs \<Longrightarrow> get_array (put_array i vs d) i n = vs"
  by (auto simp: get_array_def get_put_array intro!: nth_equalityI)

lemma length_get_array [simp]: "length (get_array d i n) = n"
  by (simp add: get_array_def)

end
