(* ===== verification/Xv6_Console.thy ===== *)
theory Xv6_Console
  imports Xv6_Mem
begin

text \<open>
  The console: formatted output (\<open>printint\<close>, \<open>cprintf\<close>), the CGA screen and the serial line,
  the line-edited input buffer of \<open>console.c\<close>, and the keyboard decoder of \<open>kbd.c\<close>. The
  screen memory and the cursor register of the display, the bytes sent to the serial port
  and the channels that were woken are part of the state. The inode locking around
  \<open>consoleread\<close> and \<open>consolewrite\<close> is with the file system.
\<close>

section \<open>State\<close>

definition BACKSPACE :: u32 where [simp]: "BACKSPACE = 0x100"
definition INPUT_BUF :: nat where "INPUT_BUF = 128"

record console =
  in_buf :: "u8 list"
  in_r :: u32
  in_w :: u32
  in_e :: u32
  crt :: "nat \<Rightarrow> u16"
  crt_pos :: int
  uart :: bool
  uart_out :: "u8 list"
  panicked :: bool
  cons_woken :: "chan list"

section \<open>Output\<close>

definition uartputc :: "u32 \<Rightarrow> console \<Rightarrow> console" where
  "uartputc c s = (if uart s then s\<lparr>uart_out := uart_out s @ [ucast c]\<rparr> else s)"

definition cgaputc :: "u32 \<Rightarrow> console \<Rightarrow> console res" where
  "cgaputc c s =
     (let pos = crt_pos s;
          (pos, scr) =
            (if c = 0x0A then (pos + (80 - pos mod 80), crt s)
             else if c = BACKSPACE then (if pos > 0 then pos - 1 else pos, crt s)
             else (pos + 1, (crt s)(nat pos := ucast (c AND 0xFF) OR 0x0700)))
      in if pos < 0 \<or> pos > 25 * 80 then Inl (Panic ''pos under/overflow'')
      else
        let (pos, scr) =
              (if pos div 80 \<ge> 24
               then (pos - 80, \<lambda>i. if nat (pos - 80) \<le> i \<and> i < 24 * 80 then 0
                               else if i < 23 * 80 then scr (i + 80) else scr i)
               else (pos, scr))
        in Inr (s\<lparr>crt_pos := pos, crt := scr(nat pos := 0x20 OR 0x0700)\<rparr>))"

definition consputc :: "u32 \<Rightarrow> console \<Rightarrow> console res" where
  "consputc c s =
     (if panicked s then Inl (Sleeps ''panicked'')
      else if c = BACKSPACE then cgaputc c (uartputc 8 (uartputc 0x20 (uartputc 8 s)))
      else cgaputc c (uartputc c s))"

fun consputs :: "u8 list \<Rightarrow> console \<Rightarrow> console res" where
  "consputs [] s = Inr s"
| "consputs (c # cs) s = rbind (consputc (ucast c) s) (consputs cs)"

text \<open>The digits of \<open>x\<close>, last digit first, for the room left in the buffer.\<close>

definition digits :: "u32 \<Rightarrow> u8" where
  "digits d = (if d < 10 then 0x30 + ucast d else 0x61 + ucast (d - 10))"

fun printint_loop :: "nat \<Rightarrow> u32 \<Rightarrow> u32 \<Rightarrow> u8 list res" where
  "printint_loop 0 x base = Inl (Fault ''buf overflow'')"
| "printint_loop (Suc n) x base =
     (let c = digits (x mod base); x = x div base in
      if x \<noteq> 0 then rbind (printint_loop n x base) (\<lambda>cs. Inr (c # cs)) else Inr [c])"

definition printint :: "u32 \<Rightarrow> u32 \<Rightarrow> bool \<Rightarrow> u8 list res" where
  "printint xx base sign =
     (let neg = (sign \<and> sint xx < 0); x = (if neg then - xx else xx) in
      rbind (printint_loop 16 x base) (\<lambda>buf.
      if neg then if length buf < 16 then Inr (rev (buf @ [0x2D])) else Inl (Fault ''buf overflow'')
      else Inr (rev buf)))"

text \<open>Arguments of \<open>cprintf\<close>: words and strings; a null string pointer is \<open>PStr None\<close>.\<close>

datatype parg = PInt u32 | PStr "u8 list option"

definition null_str :: "u8 list" where
  "null_str = [0x28, 0x6E, 0x75, 0x6C, 0x6C, 0x29]"

fun cprintf :: "u8 list \<Rightarrow> parg list \<Rightarrow> console \<Rightarrow> console res" where
  "cprintf [] as s = Inr s"
| "cprintf [c] as s = (if c \<noteq> 0x25 then consputc (ucast c) s else Inr s)"
| "cprintf (c # d # fmt) as s =
     (if c \<noteq> 0x25 then rbind (consputc (ucast c) s) (cprintf (d # fmt) as)
      else if d = 0x64 then
        (case as of PInt v # as \<Rightarrow>
           rbind (printint v 10 True) (\<lambda>cs. rbind (consputs cs s) (cprintf fmt as))
         | _ \<Rightarrow> Inl (Fault ''cprintf argument''))
      else if d = 0x78 \<or> d = 0x70 then
        (case as of PInt v # as \<Rightarrow>
           rbind (printint v 16 False) (\<lambda>cs. rbind (consputs cs s) (cprintf fmt as))
         | _ \<Rightarrow> Inl (Fault ''cprintf argument''))
      else if d = 0x73 then
        (case as of PStr str # as \<Rightarrow>
           rbind (consputs (case str of None \<Rightarrow> null_str | Some cs \<Rightarrow> cs) s) (cprintf fmt as)
         | _ \<Rightarrow> Inl (Fault ''cprintf argument''))
      else if d = 0x25 then rbind (consputc 0x25 s) (cprintf fmt as)
      else rbind (consputc 0x25 s) (\<lambda>s. rbind (consputc (ucast d) s) (cprintf fmt as)))"

section \<open>Input\<close>

text \<open>Kill line: the loop of \<open>C('U')\<close>; \<open>n\<close> bounds its passes, the length of the line.\<close>

fun kill_line :: "nat \<Rightarrow> console \<Rightarrow> console res" where
  "kill_line 0 s = Inr s"
| "kill_line (Suc n) s =
     (if in_e s \<noteq> in_w s \<and> in_buf s ! (unat (in_e s - 1) mod INPUT_BUF) \<noteq> 0x0A
      then rbind (consputc BACKSPACE (s\<lparr>in_e := in_e s - 1\<rparr>)) (kill_line n)
      else Inr s)"

text \<open>One character from the keyboard or serial line; the flag asks for a process listing.\<close>

definition console_char :: "u8 \<Rightarrow> console \<Rightarrow> (bool \<times> console) res" where
  "console_char c s =
     (if c = 0x10 then Inr (True, s)
      else if c = 0x15 then rbind (kill_line (unat (in_e s - in_w s)) s) (\<lambda>s. Inr (False, s))
      else if c = 0x08 \<or> c = 0x7F then
        (if in_e s \<noteq> in_w s
         then rbind (consputc BACKSPACE (s\<lparr>in_e := in_e s - 1\<rparr>)) (\<lambda>s. Inr (False, s))
         else Inr (False, s))
      else if c \<noteq> 0 \<and> unat (in_e s - in_r s) < INPUT_BUF then
        let c = (if c = 0x0D then 0x0A else c);
            s = s\<lparr>in_buf := (in_buf s)[unat (in_e s) mod INPUT_BUF := c], in_e := in_e s + 1\<rparr>
        in rbind (consputc (ucast c) s) (\<lambda>s.
           Inr (False,
             if c = 0x0A \<or> c = 0x04 \<or> in_e s = in_r s + of_nat INPUT_BUF
             then s\<lparr>in_w := in_e s, cons_woken := cons_woken s @ [Ch_input]\<rparr> else s))
      else Inr (False, s))"

text \<open>\<open>consoleintr\<close> for the characters \<open>cs\<close> that \<open>getc\<close> delivers before it returns a negative
  value.\<close>

fun consoleintr :: "u8 list \<Rightarrow> console \<Rightarrow> (bool \<times> console) res" where
  "consoleintr [] s = Inr (False, s)"
| "consoleintr (c # cs) s =
     rbind (console_char c s) (\<lambda>(dump, s).
     rbind (consoleintr cs s) (\<lambda>(dump', s). Inr (dump \<or> dump', s)))"

text \<open>The loop of \<open>consoleread\<close> under the console lock: \<open>n\<close> characters are still wanted of
  \<open>target\<close>. It gives the characters read, or nothing if the process is killed while it
  waits.\<close>

fun consoleread_loop :: "bool \<Rightarrow> nat \<Rightarrow> nat \<Rightarrow> console \<Rightarrow> (u8 list option \<times> console) res" where
  "consoleread_loop killed target 0 s = Inr (Some [], s)"
| "consoleread_loop killed target (Suc n) s =
     (if in_r s = in_w s then
        if killed then Inr (None, s) else Inl (Sleeps ''consoleread'')
      else
        let c = in_buf s ! (unat (in_r s) mod INPUT_BUF); s = s\<lparr>in_r := in_r s + 1\<rparr> in
        if c = 0x04 then Inr (Some [], if Suc n < target then s\<lparr>in_r := in_r s - 1\<rparr> else s)
        else if c = 0x0A then Inr (Some [c], s)
        else rbind (consoleread_loop killed target n s) (\<lambda>(r, s).
             Inr (map_option ((#) c) r, s)))"

section \<open>The keyboard (\<open>kbd.c\<close>, \<open>kbd.h\<close>)\<close>

definition K_SHIFT :: u32 where [simp]: "K_SHIFT = 1"
definition K_CTL :: u32 where [simp]: "K_CTL = 2"
definition K_ALT :: u32 where [simp]: "K_ALT = 4"
definition CAPSLOCK :: u32 where [simp]: "CAPSLOCK = 8"
definition NUMLOCK :: u32 where [simp]: "NUMLOCK = 16"
definition SCROLLLOCK :: u32 where [simp]: "SCROLLLOCK = 32"
definition E0ESC :: u32 where [simp]: "E0ESC = 64"

definition shiftcode :: "u8 \<Rightarrow> u32" where
  "shiftcode = (\<lambda>_. 0)(0x1D := K_CTL, 0x2A := K_SHIFT, 0x36 := K_SHIFT, 0x38 := K_ALT, 0x9D := K_CTL, 0xB8 := K_ALT)"

definition togglecode :: "u8 \<Rightarrow> u32" where
  "togglecode = (\<lambda>_. 0)(0x3A := CAPSLOCK, 0x45 := NUMLOCK, 0x46 := SCROLLLOCK)"

definition normalmap :: "u8 \<Rightarrow> u8" where
  "normalmap = (\<lambda>k. if unat k < 88 then [
     0x00, 0x1B, 0x31, 0x32, 0x33, 0x34, 0x35, 0x36, 0x37, 0x38, 0x39, 0x30, 0x2D, 0x3D, 0x08, 0x09,
     0x71, 0x77, 0x65, 0x72, 0x74, 0x79, 0x75, 0x69, 0x6F, 0x70, 0x5B, 0x5D, 0x0A, 0x00, 0x61, 0x73,
     0x64, 0x66, 0x67, 0x68, 0x6A, 0x6B, 0x6C, 0x3B, 0x27, 0x60, 0x00, 0x5C, 0x7A, 0x78, 0x63, 0x76,
     0x62, 0x6E, 0x6D, 0x2C, 0x2E, 0x2F, 0x00, 0x2A, 0x00, 0x20, 0x00, 0x00, 0x00, 0x00, 0x00, 0x00,
     0x00, 0x00, 0x00, 0x00, 0x00, 0x00, 0x00, 0x37, 0x38, 0x39, 0x2D, 0x34, 0x35, 0x36, 0x2B, 0x31,
     0x32, 0x33, 0x30, 0x2E, 0x00, 0x00, 0x00, 0x00] ! unat k else 0)(
     0x97 := 0xE0, 0x9C := 0x0A, 0xB5 := 0x2F, 0xC8 := 0xE2, 0xC9 := 0xE6, 0xCB := 0xE4, 0xCD := 0xE5, 0xCF := 0xE1, 0xD0 := 0xE3, 0xD1 := 0xE7, 0xD2 := 0xE8, 0xD3 := 0xE9)"

definition shiftmap :: "u8 \<Rightarrow> u8" where
  "shiftmap = (\<lambda>k. if unat k < 88 then [
     0x00, 0x1B, 0x21, 0x40, 0x23, 0x24, 0x25, 0x5E, 0x26, 0x2A, 0x28, 0x29, 0x5F, 0x2B, 0x08, 0x09,
     0x51, 0x57, 0x45, 0x52, 0x54, 0x59, 0x55, 0x49, 0x4F, 0x50, 0x7B, 0x7D, 0x0A, 0x00, 0x41, 0x53,
     0x44, 0x46, 0x47, 0x48, 0x4A, 0x4B, 0x4C, 0x3A, 0x22, 0x7E, 0x00, 0x7C, 0x5A, 0x58, 0x43, 0x56,
     0x42, 0x4E, 0x4D, 0x3C, 0x3E, 0x3F, 0x00, 0x2A, 0x00, 0x20, 0x00, 0x00, 0x00, 0x00, 0x00, 0x00,
     0x00, 0x00, 0x00, 0x00, 0x00, 0x00, 0x00, 0x37, 0x38, 0x39, 0x2D, 0x34, 0x35, 0x36, 0x2B, 0x31,
     0x32, 0x33, 0x30, 0x2E, 0x00, 0x00, 0x00, 0x00] ! unat k else 0)(
     0x97 := 0xE0, 0x9C := 0x0A, 0xB5 := 0x2F, 0xC8 := 0xE2, 0xC9 := 0xE6, 0xCB := 0xE4, 0xCD := 0xE5, 0xCF := 0xE1, 0xD0 := 0xE3, 0xD1 := 0xE7, 0xD2 := 0xE8, 0xD3 := 0xE9)"

definition ctlmap :: "u8 \<Rightarrow> u8" where
  "ctlmap = (\<lambda>k. if unat k < 56 then [
     0x00, 0x00, 0x00, 0x00, 0x00, 0x00, 0x00, 0x00, 0x00, 0x00, 0x00, 0x00, 0x00, 0x00, 0x00, 0x00,
     0x11, 0x17, 0x05, 0x12, 0x14, 0x19, 0x15, 0x09, 0x0F, 0x10, 0x00, 0x00, 0x0D, 0x00, 0x01, 0x13,
     0x04, 0x06, 0x07, 0x08, 0x0A, 0x0B, 0x0C, 0x00, 0x00, 0x00, 0x00, 0x1C, 0x1A, 0x18, 0x03, 0x16,
     0x02, 0x0E, 0x0D, 0x00, 0x00, 0xEF, 0x00, 0x00] ! unat k else 0)(
     0x97 := 0xE0, 0x9C := 0x0D, 0xB5 := 0xEF, 0xC8 := 0xE2, 0xC9 := 0xE6, 0xCB := 0xE4, 0xCD := 0xE5, 0xCF := 0xE1, 0xD0 := 0xE3, 0xD1 := 0xE7, 0xD2 := 0xE8, 0xD3 := 0xE9)"

text \<open>\<open>kbdgetc\<close> when the controller has the scan code \<open>data\<close> (without one it returns -1); the
  static variable \<open>shift\<close> is passed along.\<close>

definition kbdgetc :: "u8 \<Rightarrow> u32 \<Rightarrow> u8 \<times> u32" where
  "kbdgetc data shift =
     (if data = 0xE0 then (0, shift OR E0ESC)
      else if data AND 0x80 \<noteq> 0 then
        let data = (if shift AND E0ESC \<noteq> 0 then data else data AND 0x7F) in
        (0, shift AND NOT (shiftcode data OR E0ESC))
      else
        let (data, shift) =
              (if shift AND E0ESC \<noteq> 0 then (data OR 0x80, shift AND NOT E0ESC) else (data, shift));
            shift = (shift OR shiftcode data) XOR togglecode data;
            m = shift AND (K_CTL OR K_SHIFT);
            c = (if m = 0 then normalmap data else if m = 1 then shiftmap data else ctlmap data);
            c = (if shift AND CAPSLOCK \<noteq> 0 then
                   if 0x61 \<le> c \<and> c \<le> 0x7A then c + (0x41 - 0x61)
                   else if 0x41 \<le> c \<and> c \<le> 0x5A then c + (0x61 - 0x41) else c
                 else c)
        in (c, shift))"

text \<open>\<open>kbdintr\<close> for the scan codes in the controller.\<close>

fun kbd_chars :: "u8 list \<Rightarrow> u32 \<Rightarrow> u8 list \<times> u32" where
  "kbd_chars [] shift = ([], shift)"
| "kbd_chars (d # ds) shift =
     (let (c, shift) = kbdgetc d shift; (cs, shift) = kbd_chars ds shift in (c # cs, shift))"

definition kbdintr :: "u8 list \<Rightarrow> u32 \<Rightarrow> console \<Rightarrow> (bool \<times> u32 \<times> console) res" where
  "kbdintr ds shift s =
     (let (cs, shift) = kbd_chars ds shift in
      rbind (consoleintr cs s) (\<lambda>(dump, s). Inr (dump, shift, s)))"

section \<open>The screen\<close>

text \<open>The cursor stays on the first 24 rows, so output never panics; it leaves the input alone.\<close>

lemma cgaputc_ok:
  assumes "0 \<le> crt_pos s" "crt_pos s < 1920"
  shows "\<exists>p scr. cgaputc c s = Inr (s\<lparr>crt_pos := p, crt := scr\<rparr>) \<and> 0 \<le> p \<and> p < 1920"
proof -
  obtain pos scr where ps: "(pos, scr) =
      (if c = 0x0A then (crt_pos s + (80 - crt_pos s mod 80), crt s)
       else if c = BACKSPACE then (if crt_pos s > 0 then crt_pos s - 1 else crt_pos s, crt s)
       else (crt_pos s + 1, (crt s)(nat (crt_pos s) := ucast (c AND 0xFF) OR 0x0700)))" by (metis surj_pair)
  have "0 \<le> crt_pos s mod 80" "crt_pos s mod 80 < 80" by simp_all
  then have b: "0 \<le> pos" "pos < 2000" using ps assms by (auto split: if_splits)
  have d: "24 \<le> pos div 80 \<longleftrightarrow> 1920 \<le> pos" by arith
  show ?thesis
    unfolding cgaputc_def Let_def ps [symmetric] split d using b by (cases "1920 \<le> pos") auto
qed

lemma uartputc_eq: "uartputc c s = s\<lparr>uart_out := uart_out s @ (if uart s then [ucast c] else [])\<rparr>"
  by (simp add: uartputc_def)

lemma consputc_ok:
  assumes "0 \<le> crt_pos s" "crt_pos s < 1920" "\<not> panicked s"
  shows "\<exists>p scr out. consputc c s = Inr (s\<lparr>uart_out := out, crt_pos := p, crt := scr\<rparr>) \<and> 0 \<le> p \<and> p < 1920"
proof -
  have "\<exists>out. consputc c s = cgaputc c (s\<lparr>uart_out := out\<rparr>)"
    using assms(3) by (cases "c = BACKSPACE")
      (auto simp: consputc_def uartputc_eq simp del: BACKSPACE_def intro: exI [of _ "uart_out s"])
  then obtain out where "consputc c s = cgaputc c (s\<lparr>uart_out := out\<rparr>)" by blast
  then show ?thesis using cgaputc_ok [of "s\<lparr>uart_out := out\<rparr>" c] assms by (simp add: exI [of _ out]) blast
qed

section \<open>The input buffer\<close>

text \<open>Input that was completed by a newline and not read yet.\<close>

definition pending :: "console \<Rightarrow> u8 list" where
  "pending s = map (\<lambda>k. in_buf s ! ((unat (in_r s) + k) mod INPUT_BUF)) [0..<unat (in_w s - in_r s)]"

definition cons_ok :: "console \<Rightarrow> bool" where
  "cons_ok s \<longleftrightarrow> length (in_buf s) = INPUT_BUF \<and> unat (in_w s - in_r s) \<le> unat (in_e s - in_r s) \<and>
     unat (in_e s - in_r s) \<le> INPUT_BUF \<and> 0 \<le> crt_pos s \<and> crt_pos s < 1920 \<and> \<not> panicked s"

lemma slot_add: "unat (r + of_nat k :: u32) mod INPUT_BUF = (unat r + k) mod INPUT_BUF"
proof -
  have "unat (r + of_nat k) = (unat r + k) mod 4294967296"
    by (simp add: unat_word_ariths unat_of_nat mod_add_right_eq)
  moreover have "(x :: nat) mod 4294967296 mod 128 = x mod 128" for x
    by (rule mod_mod_cancel) simp
  ultimately show ?thesis by (simp add: INPUT_BUF_def)
qed

lemma ring_distinct:
  assumes "j < INPUT_BUF" "k < INPUT_BUF" "(a + j) mod INPUT_BUF = (a + k) mod INPUT_BUF"
  shows "j = k"
proof -
  have main: "(a + j) mod INPUT_BUF = (a + k) mod INPUT_BUF \<Longrightarrow> j \<le> k \<Longrightarrow> k < INPUT_BUF \<Longrightarrow> j = k" for j k
    using mod_eq_dvd_iff_nat [of "a + j" "a + k" INPUT_BUF] by (auto dest: dvd_imp_le)
  show ?thesis
  proof (cases "j \<le> k")
    case True
    then show ?thesis using main [of j k] assms by blast
  next
    case False
    then show ?thesis using main [of k j] assms by simp
  qed
qed

text \<open>Editing and echoing one character keeps the unread input, and can only add to it.\<close>

definition appends :: "console \<Rightarrow> console \<Rightarrow> bool" where
  "appends s s' \<longleftrightarrow> cons_ok s' \<and> (\<exists>cs. pending s' = pending s @ cs)"

lemma appendsI: "cons_ok s' \<Longrightarrow> pending s' = pending s \<Longrightarrow> appends s s'"
  by (simp add: appends_def)

lemma appends_trans: "appends s t \<Longrightarrow> appends t u \<Longrightarrow> appends s u"
  by (auto simp: appends_def)

lemma cons_ok_consputc:
  assumes "cons_ok s"
  shows "\<exists>s'. consputc c s = Inr s' \<and> cons_ok s' \<and> pending s' = pending s \<and> in_e s' = in_e s \<and> in_w s' = in_w s \<and>
    in_r s' = in_r s \<and> in_buf s' = in_buf s"
  using consputc_ok [of s c] assms by (auto simp: cons_ok_def pending_def)

text \<open>Taking back a character that is not complete yet.\<close>

lemma unput_ok:
  assumes ok: "cons_ok s" and ne: "in_e s \<noteq> in_w s"
  shows "cons_ok (s\<lparr>in_e := in_e s - 1\<rparr>)" "pending (s\<lparr>in_e := in_e s - 1\<rparr>) = pending s"
proof -
  have "in_e s - in_r s \<noteq> in_w s - in_r s" using ne by simp
  then have lt: "unat (in_w s - in_r s) < unat (in_e s - in_r s)"
    using ok by (metis cons_ok_def le_neq_implies_less word_unat_eq_iff)
  have "in_e s - 1 - in_r s = (in_e s - in_r s) - 1" by simp
  then have "unat (in_e s - 1 - in_r s) = unat (in_e s - in_r s) - 1"
    using lt by (metis One_nat_def gr_implies_not0 unat_0_iff unat_minus_one)
  then show "cons_ok (s\<lparr>in_e := in_e s - 1\<rparr>)" using ok lt by (auto simp: cons_ok_def)
  show "pending (s\<lparr>in_e := in_e s - 1\<rparr>) = pending s" by (simp add: pending_def)
qed

lemma unput_echo:
  assumes "cons_ok s" "in_e s \<noteq> in_w s"
  shows "\<exists>s'. consputc BACKSPACE (s\<lparr>in_e := in_e s - 1\<rparr>) = Inr s' \<and> appends s s'"
  using cons_ok_consputc [OF unput_ok(1) [OF assms], of BACKSPACE] unput_ok(2) [OF assms] by (auto intro: appendsI)

lemma kill_line_ok: "cons_ok s \<Longrightarrow> \<exists>s'. kill_line n s = Inr s' \<and> appends s s'"
proof (induction n arbitrary: s)
  case 0
  then show ?case by (simp add: appendsI)
next
  case (Suc n)
  show ?case
  proof (cases "in_e s \<noteq> in_w s \<and> in_buf s ! (unat (in_e s - 1) mod INPUT_BUF) \<noteq> 0x0A")
    case True
    with unput_echo [OF Suc.prems] obtain t where t: "consputc BACKSPACE (s\<lparr>in_e := in_e s - 1\<rparr>) = Inr t" "appends s t" by blast
    then obtain u where "kill_line n t = Inr u" "appends t u" using Suc.IH [of t] by (auto simp: appends_def)
    then show ?thesis using True t appends_trans by auto
  next
    case False
    then show ?thesis using Suc.prems by (auto simp: appendsI)
  qed
qed

lemma unat_incr: "unat (k :: u32) < INPUT_BUF \<Longrightarrow> unat (k + 1) = unat k + 1"
  by (simp add: unat_word_ariths INPUT_BUF_def)

lemma put_ok:
  fixes c :: u8
  assumes ok: "cons_ok s" and room: "unat (in_e s - in_r s) < INPUT_BUF"
  defines "s' \<equiv> s\<lparr>in_buf := (in_buf s)[unat (in_e s) mod INPUT_BUF := c], in_e := in_e s + 1\<rparr>"
  shows "cons_ok s'" "pending s' = pending s"
proof -
  have "in_e s + 1 - in_r s = (in_e s - in_r s) + 1" by simp
  then have e: "unat (in_e s + 1 - in_r s) = unat (in_e s - in_r s) + 1"
    using unat_incr [OF room] by metis
  show "cons_ok s'" using ok room e by (auto simp: cons_ok_def s'_def)
  have le: "unat (in_w s - in_r s) \<le> unat (in_e s - in_r s)" using ok by (simp add: cons_ok_def)
  have "in_r s + of_nat (unat (in_e s - in_r s)) = in_e s" by simp
  then have pos: "unat (in_e s) mod INPUT_BUF = (unat (in_r s) + unat (in_e s - in_r s)) mod INPUT_BUF"
    using slot_add [of "in_r s" "unat (in_e s - in_r s)"] by simp
  have "unat (in_e s) mod INPUT_BUF \<noteq> (unat (in_r s) + k) mod INPUT_BUF" if "k < unat (in_w s - in_r s)" for k
    unfolding pos using ring_distinct [of k "unat (in_e s - in_r s)" "unat (in_r s)"] that le room by auto
  then show "pending s' = pending s" by (auto simp: pending_def s'_def)
qed

lemma commit_ok:
  assumes ok: "cons_ok s"
  shows "appends s (s\<lparr>in_w := in_e s, cons_woken := x\<rparr>)"
proof -
  have le: "unat (in_w s - in_r s) \<le> unat (in_e s - in_r s)" using ok by (simp add: cons_ok_def)
  have "[0..<unat (in_e s - in_r s)] = [0..<unat (in_w s - in_r s)] @ [unat (in_w s - in_r s)..<unat (in_e s - in_r s)]"
    using upt_add_eq_append [of 0 "unat (in_w s - in_r s)" "unat (in_e s - in_r s) - unat (in_w s - in_r s)"] le by simp
  then have "pending (s\<lparr>in_w := in_e s, cons_woken := x\<rparr>) = pending s @
      map (\<lambda>k. in_buf s ! ((unat (in_r s) + k) mod INPUT_BUF)) [unat (in_w s - in_r s)..<unat (in_e s - in_r s)]"
    by (simp add: pending_def)
  moreover have "cons_ok (s\<lparr>in_w := in_e s, cons_woken := x\<rparr>)" using ok by (simp add: cons_ok_def)
  ultimately show ?thesis by (auto simp: appends_def)
qed

lemma console_char_ok:
  assumes ok: "cons_ok s"
  shows "\<exists>d s'. console_char c s = Inr (d, s') \<and> appends s s'"
proof -
  have refl: "appends s s" using ok by (simp add: appendsI)
  consider "c = 0x10" | "c \<noteq> 0x10" "c = 0x15" | "c \<noteq> 0x10" "c \<noteq> 0x15" "c = 0x08 \<or> c = 0x7F"
    | (put) "c \<noteq> 0x10" "c \<noteq> 0x15" "\<not> (c = 0x08 \<or> c = 0x7F)" "c \<noteq> 0" "unat (in_e s - in_r s) < INPUT_BUF"
    | "c \<noteq> 0x10" "c \<noteq> 0x15" "\<not> (c = 0x08 \<or> c = 0x7F)" "\<not> (c \<noteq> 0 \<and> unat (in_e s - in_r s) < INPUT_BUF)" by blast
  then show ?thesis
  proof cases
    case put
    let ?c = "if c = 0x0D then 0x0A else c"
    obtain t where t: "t = s\<lparr>in_buf := (in_buf s)[unat (in_e s) mod INPUT_BUF := ?c], in_e := in_e s + 1\<rparr>" by blast
    have ok1: "cons_ok t" "pending t = pending s" using put_ok [OF ok put(5), where c = ?c] unfolding t by blast+
    obtain u where u: "consputc (ucast ?c) t = Inr u" "cons_ok u" "pending u = pending t"
      using cons_ok_consputc [OF ok1(1)] by blast
    have "appends s u" using u ok1 by (simp add: appendsI)
    then have "appends s (if ?c = 0x0A \<or> ?c = 0x04 \<or> in_e u = in_r u + of_nat INPUT_BUF
        then u\<lparr>in_w := in_e u, cons_woken := cons_woken u @ [Ch_input]\<rparr> else u)"
      using appends_trans commit_ok [OF u(2)] by auto
    then show ?thesis using put u(1) unfolding console_char_def Let_def t [symmetric] by auto
  qed (use ok refl kill_line_ok [OF ok, of "unat (in_e s - in_w s)"] unput_echo [OF ok] in \<open>auto simp: console_char_def Let_def simp del: BACKSPACE_def\<close>)
qed

lemma consoleintr_ok: "cons_ok s \<Longrightarrow> \<exists>d s'. consoleintr cs s = Inr (d, s') \<and> appends s s'"
proof (induction cs arbitrary: s)
  case Nil
  then show ?case by (auto simp: appendsI)
next
  case (Cons c cs)
  from console_char_ok [OF Cons.prems] obtain d t where t: "console_char c s = Inr (d, t)" "appends s t" by blast
  then obtain d' u where "consoleintr cs t = Inr (d', u)" "appends t u" using Cons.IH [of t] by (auto simp: appends_def)
  then show ?case using t appends_trans by auto
qed

text \<open>Reading takes characters from the front.\<close>

lemma take_char:
  assumes ok: "cons_ok s" and ne: "in_r s \<noteq> in_w s"
  defines "s' \<equiv> s\<lparr>in_r := in_r s + 1\<rparr>"
  shows "cons_ok s'" "pending s = in_buf s ! (unat (in_r s) mod INPUT_BUF) # pending s'"
proof -
  have pred: "unat (x - (in_r s + 1)) = unat (x - in_r s) - 1" if "x - in_r s \<noteq> 0" for x
  proof -
    have "x - (in_r s + 1) = (x - in_r s) - 1" by simp
    then show ?thesis using unat_minus_one [OF that] by metis
  qed
  have w: "in_w s - in_r s \<noteq> 0" using ne by simp
  have le: "unat (in_w s - in_r s) \<le> unat (in_e s - in_r s)" using ok by (simp add: cons_ok_def)
  have e: "in_e s - in_r s \<noteq> 0"
  proof
    assume "in_e s - in_r s = 0"
    then have "unat (in_w s - in_r s) = 0" using le by (metis le_zero_eq unat_0)
    then show False using w by (simp add: unat_eq_0)
  qed
  show "cons_ok s'" using ok le pred [OF w] pred [OF e] by (auto simp: cons_ok_def s'_def)
  obtain n where n: "unat (in_w s - in_r s) = Suc n" using w by (metis not0_implies_Suc unat_eq_0)
  have n': "unat (in_w s - (in_r s + 1)) = n" using pred [OF w] n by simp
  have sh: "(unat (in_r s + 1) + k) mod INPUT_BUF = (unat (in_r s) + Suc k) mod INPUT_BUF" for k
    using slot_add [of "in_r s" 1] by (metis One_nat_def add.assoc mod_add_left_eq of_nat_1 plus_1_eq_Suc)
  have "[0..<Suc n] = 0 # map Suc [0..<n]" by (simp add: map_Suc_upt upt_conv_Cons)
  then show "pending s = in_buf s ! (unat (in_r s) mod INPUT_BUF) # pending s'"
    unfolding pending_def s'_def n using n' sh by (simp add: comp_def)
qed

lemma consoleread_loop_ok:
  assumes "cons_ok s" and "consoleread_loop killed target n s = Inr (Some cs, s')"
  shows "cons_ok s' \<and> length cs \<le> n \<and> (\<exists>eof. pending s = cs @ eof @ pending s' \<and> (eof = [] \<or> eof = [4]))"
  using assms
proof (induction n arbitrary: s cs)
  case 0
  then show ?case by simp
next
  case (Suc n)
  have ne: "in_r s \<noteq> in_w s" using Suc.prems(2) by (auto split: if_splits)
  let ?c = "in_buf s ! (unat (in_r s) mod INPUT_BUF)" and ?t = "s\<lparr>in_r := in_r s + 1\<rparr>"
  note T = take_char [OF Suc.prems(1) ne]
  consider (eof) "?c = 4" | (nl) "?c \<noteq> 4" "?c = 0x0A" | (more) "?c \<noteq> 4" "?c \<noteq> 0x0A" by blast
  then show ?case
  proof cases
    case eof
    then have "cs = []" "s' = (if Suc n < target then ?t\<lparr>in_r := in_r ?t - 1\<rparr> else ?t)"
      using Suc.prems(2) ne by (auto simp: Let_def)
    then show ?thesis using T Suc.prems(1) eof by auto
  next
    case nl
    then have "cs = [?c]" "s' = ?t" using Suc.prems(2) ne by (auto simp: Let_def)
    then show ?thesis using T by auto
  next
    case more
    then obtain ds where d: "consoleread_loop killed target n ?t = Inr (Some ds, s')" "cs = ?c # ds"
      using Suc.prems(2) ne by (auto simp: Let_def)
    show ?thesis using Suc.IH [OF T(1) d(1)] T(2) d(2) by auto
  qed
qed

section \<open>Numbers\<close>

text \<open>Reading a numeral back.\<close>

definition digit_val :: "u8 \<Rightarrow> nat" where
  "digit_val c = (if c < 0x61 then unat (c - 0x30) else unat (c - 0x61) + 10)"

fun undigits :: "nat \<Rightarrow> u8 list \<Rightarrow> nat" where
  "undigits b [] = 0"
| "undigits b (c # cs) = digit_val c + b * undigits b cs"

definition numval :: "nat \<Rightarrow> u8 list \<Rightarrow> int" where
  "numval b cs = (case cs of c # ds \<Rightarrow> if c = 0x2D then - int (undigits b (rev ds)) else int (undigits b (rev cs)) | [] \<Rightarrow> 0)"

lemma digit_val_digits: "d < 16 \<Longrightarrow> digit_val (digits d) = unat d" "d < 16 \<Longrightarrow> digits d \<noteq> 0x2D"
proof -
  assume "d < 16"
  then have "unat d < 16" by (simp add: word_less_nat_alt)
  moreover have "d = of_nat (unat d)" by simp
  ultimately have "d \<in> set (map of_nat [0..<16])" by (metis atLeastLessThan_iff image_eqI le0 list.set_map set_upt)
  moreover have "\<forall>d \<in> set (map of_nat [0..<16]). digit_val (digits d) = unat d \<and> digits d \<noteq> 0x2D" by code_simp
  ultimately show "digit_val (digits d) = unat d" "digits d \<noteq> 0x2D" by blast+
qed

lemma printint_loop_ok:
  assumes "2 \<le> unat base" "base \<le> 16" "unat x < unat base ^ k" "k \<noteq> 0" "k \<le> n"
  shows "\<exists>cs. printint_loop n x base = Inr cs \<and> undigits (unat base) cs = unat x \<and> length cs \<le> k \<and> cs \<noteq> [] \<and>
    last cs \<noteq> 0x2D"
  using assms(3-5)
proof (induction n arbitrary: x k)
  case (Suc n)
  have b: "base \<noteq> 0" using assms(1) by auto
  have "x mod base < base" using b by (simp add: word_mod_less_divisor word_neq_0_conv)
  then have m: "x mod base < 16" using assms(2) by simp
  note D = digit_val_digits [OF m]
  obtain j where k: "k = Suc j" using Suc.prems(2) by (cases k) auto
  have split: "unat x = unat (x mod base) + unat base * unat (x div base)"
    by (simp add: unat_mod_distrib unat_div_distrib)
  show ?case
  proof (cases "x div base = 0")
    case True
    then show ?thesis using D split k by (simp add: Let_def)
  next
    case False
    have lt: "unat (x div base) < unat base ^ j"
      using Suc.prems(1) assms(1) k by (simp add: unat_div_distrib div_less_iff_less_mult mult.commute)
    have "unat (x div base) \<noteq> 0" using False by (simp add: unat_eq_0)
    then have "j \<noteq> 0" using lt by (cases j) auto
    then obtain cs where "printint_loop n (x div base) base = Inr cs"
      "undigits (unat base) cs = unat (x div base)" "length cs \<le> j" "cs \<noteq> []" "last cs \<noteq> 0x2D"
      using Suc.IH [OF lt] Suc.prems(3) k by auto
    then show ?thesis using False D(1) split k by (auto simp: Let_def)
  qed
qed simp

lemma sint_neg:
  fixes x :: u32
  assumes "sint x < 0"
  shows "int (unat (- x)) = - sint x"
proof -
  have r: "- 2147483648 \<le> sint x" using sint_ge [of x] by simp
  have "uint x = sint x mod 4294967296" using uint_sint [of x] by (simp add: take_bit_eq_mod)
  also have "\<dots> = (sint x + 4294967296) mod 4294967296" by simp
  also have "\<dots> = sint x + 4294967296" using r assms by (intro mod_pos_pos_trivial) simp_all
  finally have u: "uint x = sint x + 4294967296" .
  have "uint (- x) = (- uint x) mod 4294967296" using uint_word_ariths(4) [of x] by simp
  also have "\<dots> = (- uint x + 4294967296) mod 4294967296" by simp
  also have "\<dots> = - uint x + 4294967296" using u r assms by (intro mod_pos_pos_trivial) simp_all
  finally show ?thesis using u by simp
qed

lemma sint_nonneg:
  fixes x :: u32
  assumes "\<not> sint x < 0"
  shows "int (unat x) = sint x"
proof -
  have "sint x < 2147483648" using sint_lt [of x] by simp
  then have "uint x = sint x" using uint_sint [of x] assms by (simp add: take_bit_eq_mod)
  then show ?thesis by simp
qed

lemma numval_rev: "cs \<noteq> [] \<Longrightarrow> last cs \<noteq> 0x2D \<Longrightarrow> numval b (rev cs) = int (undigits b cs)"
  by (cases cs rule: rev_cases) (auto simp: numval_def)

lemma numval_minus: "numval b (rev (cs @ [0x2D])) = - int (undigits b cs)"
  by (simp add: numval_def)

section \<open>Properties\<close>

text \<open>C26. Console input is never lost or reordered: whatever is typed, and however it is edited,
  the interrupt handler does not fail, keeps the completed lines that were not read yet, and
  only adds to their end.\<close>

theorem consoleintr_keeps_input:
  assumes "cons_ok s"
  shows "\<exists>d s' cs'. consoleintr cs s = Inr (d, s') \<and> cons_ok s' \<and> pending s' = pending s @ cs'"
  using consoleintr_ok [OF assms, of cs] by (auto simp: appends_def)

definition console0 :: console where
  "console0 = \<lparr>in_buf = replicate INPUT_BUF 0, in_r = 0, in_w = 0, in_e = 0, crt = (\<lambda>_. 0x0720), crt_pos = 0,
     uart = True, uart_out = [], panicked = False, cons_woken = []\<rparr>"

lemma console0_ok: "cons_ok console0"
  by (simp add: cons_ok_def console0_def)

theorem consoleintr_keeps_input_witness:
  "\<exists>d s' cs'. consoleintr [0x6C, 0x78, 0x08, 0x73, 0x0D] console0 = Inr (d, s') \<and> cons_ok s' \<and>
     pending s' = pending console0 @ cs'"
  by (rule consoleintr_keeps_input [OF console0_ok])

text \<open>C27. A read returns the oldest unread input, at most as much as asked for, and removes it (and
  an end-of-file mark it stopped at) from the buffer.\<close>

theorem consoleread_fifo:
  assumes "cons_ok s" and "consoleread_loop killed target n s = Inr (Some cs, s')"
  shows "cons_ok s' \<and> length cs \<le> n \<and> (\<exists>eof. pending s = cs @ eof @ pending s' \<and> (eof = [] \<or> eof = [4]))"
  using consoleread_loop_ok [OF assms] .

theorem consoleread_fifo_witness:
  "\<exists>s'. pending (console0\<lparr>in_buf := (in_buf console0)[0 := 0x6C, 1 := 0x0A, 2 := 0x78], in_w := 3, in_e := 3\<rparr>) = [0x6C, 0x0A] @ [] @ pending s' \<and>
     cons_ok s'"
proof -
  let ?s = "console0\<lparr>in_buf := (in_buf console0)[0 := 0x6C, 1 := 0x0A, 2 := 0x78], in_w := 3, in_e := 3\<rparr>"
  have ok: "cons_ok ?s" by (simp add: cons_ok_def console0_def INPUT_BUF_def)
  have r: "consoleread_loop False 2 (Suc (Suc 0)) ?s = Inr (Some [0x6C, 0x0A], ?s\<lparr>in_r := 2\<rparr>)"
    by (simp add: console0_def INPUT_BUF_def Let_def)
  have "length (pending ?s) = 3" "length (pending (?s\<lparr>in_r := 2\<rparr>)) = 1" by (simp_all add: pending_def console0_def)
  with consoleread_fifo [OF ok r] show ?thesis by auto
qed

text \<open>C28. \<open>printint\<close> prints every 32-bit integer without overflowing its buffer, and the printed
  decimal numeral reads back as the integer.\<close>

theorem printint_decimal: "\<exists>cs. printint x 10 True = Inr cs \<and> numval 10 cs = sint x \<and> length cs \<le> 11"
proof -
  have L: "\<exists>ds. printint_loop 16 y 10 = Inr ds \<and> undigits 10 ds = unat y \<and> length ds \<le> 10 \<and> ds \<noteq> [] \<and> last ds \<noteq> 0x2D"
    for y :: u32 using printint_loop_ok [of 10 y 10 16] u32_less [of y] by simp
  show ?thesis
  proof (cases "sint x < 0")
    case True
    from L [of "- x"] obtain ds where "printint_loop 16 (- x) 10 = Inr ds" "undigits 10 ds = unat (- x)" "length ds \<le> 10" by blast
    then show ?thesis using True numval_minus [of 10 ds] sint_neg [OF True] by (simp add: printint_def)
  next
    case False
    from L [of x] obtain ds where d: "printint_loop 16 x 10 = Inr ds" "undigits 10 ds = unat x" "length ds \<le> 10" "ds \<noteq> []" "last ds \<noteq> 0x2D" by blast
    have "printint x 10 True = Inr (rev ds)" using d(1) False unfolding printint_def Let_def by simp
    moreover have "numval 10 (rev ds) = sint x" using numval_rev [OF d(4,5), of 10] sint_nonneg [OF False] d(2) by simp
    ultimately show ?thesis using d(3) by simp
  qed
qed

end
