(* ===== verification/Xv6_Fstate.thy ===== *)
theory Xv6_Fstate
  imports Xv6_Bytes Xv6_Console
begin

text \<open>
  The state of the file system: the on-disk layout constants of \<open>fs.h\<close>, the in-memory
  superblock, log header and inode cache, the buffer cache, the console behind the device
  switch, and the sleep channels that were woken. A pointer to a cached inode is its index
  in \<open>icache.inode\<close>. The operations of the buffer cache are lifted to this state.
\<close>

section \<open>On-disk format (\<open>fs.h\<close>)\<close>

definition ROOTINO :: u32 where "ROOTINO = 1"
definition NDIRECT :: nat where "NDIRECT = 12"
definition NINDIRECT :: nat where "NINDIRECT = BSIZE div 4"
definition MAXFILE :: nat where "MAXFILE = NDIRECT + NINDIRECT"
definition DINODE :: nat where "DINODE = 64"
definition IPB :: nat where "IPB = BSIZE div DINODE"
definition BPB :: nat where "BPB = BSIZE * 8"
definition DIRSIZ :: nat where "DIRSIZ = 14"
definition DIRENT :: nat where "DIRENT = 16"

definition T_DIR :: u16 where "T_DIR = 1"
definition T_FILE :: u16 where "T_FILE = 2"
definition T_DEV :: u16 where "T_DEV = 3"

record superblock =
  sb_size :: u32
  nblocks :: u32
  ninodes :: u32
  nlog :: u32
  logstart :: u32
  inodestart :: u32
  bmapstart :: u32
  swapblockstart :: u32
  nswapblocks :: u32

definition IBLOCK :: "u32 \<Rightarrow> superblock \<Rightarrow> u32" where
  "IBLOCK i sb = i div of_nat IPB + inodestart sb"

definition BBLOCK :: "u32 \<Rightarrow> superblock \<Rightarrow> u32" where
  "BBLOCK b sb = b div of_nat BPB + bmapstart sb"

text \<open>The superblock as \<open>readsb\<close> copies it out of block 1.\<close>

definition sb_of :: "u8 list \<Rightarrow> superblock" where
  "sb_of d = \<lparr>sb_size = get32 d 0, nblocks = get32 d 4, ninodes = get32 d 8, nlog = get32 d 12, logstart = get32 d 16,
     inodestart = get32 d 20, bmapstart = get32 d 24, swapblockstart = get32 d 28, nswapblocks = get32 d 32\<rparr>"

section \<open>In memory\<close>

record inode =
  i_dev :: u32
  i_inum :: u32
  i_ref :: int
  i_lock :: sleeplock
  i_valid :: bool
  i_type :: u16
  i_major :: u16
  i_minor :: u16
  i_nlink :: u16
  i_size :: u32
  i_addrs :: "u32 list"

record log =
  l_start :: u32
  l_size :: int
  l_outstanding :: int
  l_committing :: bool
  l_dev :: u32
  lh_n :: int
  lh_block :: "u32 list"

record fsys =
  fb :: bstate
  flog :: log
  fsb :: superblock
  icache :: "nat \<Rightarrow> inode"
  fcons :: console
  fdevsw :: "nat \<Rightarrow> bool"
  fwoken :: "chan list"

text \<open>What file system code uses of the calling process: its pid, whether it was killed, and its
  current directory.\<close>

record caller =
  c_pid :: u32
  c_killed :: bool
  c_cwd :: nat

section \<open>Buffers\<close>

definition f_bread :: "u32 \<Rightarrow> u32 \<Rightarrow> u32 \<Rightarrow> fsys \<Rightarrow> (nat \<times> fsys) res" where
  "f_bread me dv bn s = rbind (bread me dv bn (fb s)) (\<lambda>(i, b). Inr (i, s\<lparr>fb := b\<rparr>))"

definition f_bwrite :: "u32 \<Rightarrow> nat \<Rightarrow> fsys \<Rightarrow> fsys res" where
  "f_bwrite me i s = rbind (bwrite me i (fb s)) (\<lambda>b. Inr (s\<lparr>fb := b\<rparr>))"

definition f_brelse :: "u32 \<Rightarrow> nat \<Rightarrow> fsys \<Rightarrow> fsys res" where
  "f_brelse me i s = rbind (brelse me i (fb s)) (\<lambda>b. Inr (s\<lparr>fb := b\<rparr>))"

definition bdata :: "nat \<Rightarrow> fsys \<Rightarrow> u8 list" where
  "bdata i s = data (bufs (fb s) i)"

definition set_bdata :: "nat \<Rightarrow> u8 list \<Rightarrow> fsys \<Rightarrow> fsys" where
  "set_bdata i d s = s\<lparr>fb := upd_buf i (\<lambda>b. b\<lparr>data := d\<rparr>) (fb s)\<rparr>"

definition upd_log :: "(log \<Rightarrow> log) \<Rightarrow> fsys \<Rightarrow> fsys" where
  "upd_log f s = s\<lparr>flog := f (flog s)\<rparr>"

definition upd_inode :: "nat \<Rightarrow> (inode \<Rightarrow> inode) \<Rightarrow> fsys \<Rightarrow> fsys" where
  "upd_inode i f s = s\<lparr>icache := (icache s)(i := f (icache s i))\<rparr>"

definition f_wakeup :: "chan \<Rightarrow> fsys \<Rightarrow> fsys" where
  "f_wakeup ch s = s\<lparr>fwoken := fwoken s @ [ch]\<rparr>"

end
