(* ===== verification/Xv6_Log.thy ===== *)
theory Xv6_Log
  imports Xv6_Fstate
begin

text \<open>
  The write-ahead log (\<open>log.c\<close>). The operations run one at a time on the file system state;
  \<open>begin_op\<close> ends in \<open>Sleeps\<close> where the code waits for space or for a commit. Theory
  \<open>Xv6_Crash\<close> proves the transactions atomic across power failures.
\<close>

section \<open>Definitions\<close>

definition readsb :: "u32 \<Rightarrow> u32 \<Rightarrow> fsys \<Rightarrow> (superblock \<times> fsys) res" where
  "readsb me dv s =
     rbind (f_bread me dv 1 s) (\<lambda>(bp, s).
     let sb = sb_of (bdata bp s) in
     rbind (f_brelse me bp s) (\<lambda>s. Inr (sb, s)))"

text \<open>The loops run over the values of \<open>tail\<close> still to do.\<close>

fun install_loop :: "u32 \<Rightarrow> nat list \<Rightarrow> fsys \<Rightarrow> fsys res" where
  "install_loop me [] s = Inr s"
| "install_loop me (tail # ts) s =
     rbind (f_bread me (l_dev (flog s)) (l_start (flog s) + of_nat tail + 1) s) (\<lambda>(lbuf, s).
     if tail < length (lh_block (flog s)) then
       rbind (f_bread me (l_dev (flog s)) (lh_block (flog s) ! tail) s) (\<lambda>(dbuf, s).
       rbind (f_bwrite me dbuf (set_bdata dbuf (bdata lbuf s) s)) (\<lambda>s.
       rbind (f_brelse me lbuf s) (\<lambda>s.
       rbind (f_brelse me dbuf s) (\<lambda>s.
       install_loop me ts s))))
     else Inl (Fault ''log.lh.block''))"

definition install_trans :: "u32 \<Rightarrow> fsys \<Rightarrow> fsys res" where
  "install_trans me s = install_loop me [0..<nat (lh_n (flog s))] s"

definition read_head :: "u32 \<Rightarrow> fsys \<Rightarrow> fsys res" where
  "read_head me s =
     rbind (f_bread me (l_dev (flog s)) (l_start (flog s)) s) (\<lambda>(buf, s).
     let n = sint (get32 (bdata buf s) 0) in
     if n > int LOGSIZE then Inl (Fault ''log.lh.block'')
     else
       let s = upd_log (\<lambda>l. l\<lparr>lh_n := n,
             lh_block := get_array (bdata buf s) 4 (nat n) @ drop (nat n) (lh_block l)\<rparr>) s
       in f_brelse me buf s)"

definition write_head :: "u32 \<Rightarrow> fsys \<Rightarrow> fsys res" where
  "write_head me s =
     rbind (f_bread me (l_dev (flog s)) (l_start (flog s)) s) (\<lambda>(buf, s).
     let n = lh_n (flog s) in
     if n > int LOGSIZE then Inl (Fault ''log.lh.block'')
     else
       let d = put_array 4 (take (nat n) (lh_block (flog s))) (put32 0 (word_of_int n) (bdata buf s)) in
       rbind (f_bwrite me buf (set_bdata buf d s)) (\<lambda>s. f_brelse me buf s))"

definition recover_from_log :: "u32 \<Rightarrow> fsys \<Rightarrow> fsys res" where
  "recover_from_log me s =
     rbind (read_head me s) (\<lambda>s.
     rbind (install_trans me s) (\<lambda>s.
     write_head me (upd_log (\<lambda>l. l\<lparr>lh_n := 0\<rparr>) s)))"

definition initlog :: "u32 \<Rightarrow> u32 \<Rightarrow> fsys \<Rightarrow> fsys res" where
  "initlog me dv s =
     (if 4 + 4 * LOGSIZE \<ge> BSIZE then Inl (Panic ''initlog: too big logheader'')
      else
        rbind (readsb me dv s) (\<lambda>(sb, s).
        recover_from_log me
          (upd_log (\<lambda>l. l\<lparr>l_start := logstart sb, l_size := sint (nlog sb), l_dev := dv\<rparr>) s)))"

definition begin_op :: "fsys \<Rightarrow> fsys res" where
  "begin_op s =
     (let l = flog s in
      if l_committing l then Inl (Sleeps ''begin_op'')
      else if lh_n l + (l_outstanding l + 1) * int MAXOPBLOCKS > int LOGSIZE then Inl (Sleeps ''begin_op'')
      else Inr (upd_log (\<lambda>l. l\<lparr>l_outstanding := l_outstanding l + 1\<rparr>) s))"

fun write_log_loop :: "u32 \<Rightarrow> nat list \<Rightarrow> fsys \<Rightarrow> fsys res" where
  "write_log_loop me [] s = Inr s"
| "write_log_loop me (tail # ts) s =
     rbind (f_bread me (l_dev (flog s)) (l_start (flog s) + of_nat tail + 1) s) (\<lambda>(to, s).
     if tail < length (lh_block (flog s)) then
       rbind (f_bread me (l_dev (flog s)) (lh_block (flog s) ! tail) s) (\<lambda>(from, s).
       rbind (f_bwrite me to (set_bdata to (bdata from s) s)) (\<lambda>s.
       rbind (f_brelse me from s) (\<lambda>s.
       rbind (f_brelse me to s) (\<lambda>s.
       write_log_loop me ts s))))
     else Inl (Fault ''log.lh.block''))"

definition write_log :: "u32 \<Rightarrow> fsys \<Rightarrow> fsys res" where
  "write_log me s = write_log_loop me [0..<nat (lh_n (flog s))] s"

definition commit :: "u32 \<Rightarrow> fsys \<Rightarrow> fsys res" where
  "commit me s =
     (if lh_n (flog s) > 0 then
        rbind (write_log me s) (\<lambda>s.
        rbind (write_head me s) (\<lambda>s.
        rbind (install_trans me s) (\<lambda>s.
        write_head me (upd_log (\<lambda>l. l\<lparr>lh_n := 0\<rparr>) s))))
      else Inr s)"

definition end_op :: "u32 \<Rightarrow> fsys \<Rightarrow> fsys res" where
  "end_op me s =
     (let s = upd_log (\<lambda>l. l\<lparr>l_outstanding := l_outstanding l - 1\<rparr>) s in
      if l_committing (flog s) then Inl (Panic ''log.committing'')
      else if l_outstanding (flog s) = 0 then
        rbind (commit me (upd_log (\<lambda>l. l\<lparr>l_committing := True\<rparr>) s)) (\<lambda>s.
        Inr (f_wakeup Ch_log (upd_log (\<lambda>l. l\<lparr>l_committing := False\<rparr>) s)))
      else Inr (f_wakeup Ch_log s))"

definition log_write :: "nat \<Rightarrow> fsys \<Rightarrow> fsys res" where
  "log_write b s =
     (let l = flog s; n = lh_n l in
      if n \<ge> int LOGSIZE \<or> n \<ge> l_size l - 1 then Inl (Panic ''too big a transaction'')
      else if l_outstanding l < 1 then Inl (Panic ''log_write outside of trans'')
      else
        let bn = blockno (bufs (fb s) b);
            i = (case first_index (\<lambda>x. x = bn) (take (nat n) (lh_block l)) of Some i \<Rightarrow> i | None \<Rightarrow> nat n);
            s = upd_log (\<lambda>l. l\<lparr>lh_block := (lh_block l)[i := bn], lh_n := (if int i = n then n + 1 else n)\<rparr>) s
        in Inr (s\<lparr>fb := upd_buf b (\<lambda>x. x\<lparr>flags := flags x OR B_DIRTY\<rparr>) (fb s)\<rparr>))"

end
