(* ===== verification/Xv6_Fs.thy ===== *)
theory Xv6_Fs
  imports Xv6_Log
begin

text \<open>
  The file system (\<open>fs.c\<close>) with the console device behind it. Inode pointers are indices of
  the inode cache. \<open>me\<close> is the pid of the running process; operations that also look at its
  \<open>killed\<close> flag or working directory take the \<open>caller\<close>. \<open>readi\<close> returns the bytes it copies out,
  \<open>writei\<close> takes its source as a function from positions to bytes; \<open>None\<close> stands for \<open>-1\<close>.
\<close>

section \<open>Blocks\<close>

definition bzero :: "u32 \<Rightarrow> u32 \<Rightarrow> u32 \<Rightarrow> fsys \<Rightarrow> fsys res" where
  "bzero me dv bno s =
     rbind (f_bread me dv bno s) (\<lambda>(bp, s).
     rbind (log_write bp (set_bdata bp (replicate BSIZE 0) s)) (\<lambda>s.
     f_brelse me bp s))"

text \<open>The bit of block \<open>bi\<close> in a bitmap block.\<close>

definition bit_set :: "u8 list \<Rightarrow> nat \<Rightarrow> bool" where
  "bit_set d bi \<longleftrightarrow> d ! (bi div 8) AND push_bit (bi mod 8) 1 \<noteq> 0"

fun balloc_loop :: "u32 \<Rightarrow> u32 \<Rightarrow> nat list \<Rightarrow> fsys \<Rightarrow> (u32 \<times> fsys) res" where
  "balloc_loop me dv [] s = Inl (Panic ''balloc: out of blocks'')"
| "balloc_loop me dv (b # bs) s =
     rbind (f_bread me dv (BBLOCK (of_nat b) (fsb s)) s) (\<lambda>(bp, s).
     case first_index (\<lambda>bi. \<not> bit_set (bdata bp s) bi) [0..<min BPB (unat (sb_size (fsb s)) - b)] of
       Some bi \<Rightarrow>
         let d = bdata bp s; s = set_bdata bp (d[bi div 8 := d ! (bi div 8) OR push_bit (bi mod 8) 1]) s in
         rbind (log_write bp s) (\<lambda>s.
         rbind (f_brelse me bp s) (\<lambda>s.
         rbind (bzero me dv (of_nat (b + bi)) s) (\<lambda>s.
         Inr (of_nat (b + bi), s))))
     | None \<Rightarrow> rbind (f_brelse me bp s) (balloc_loop me dv bs))"

text \<open>The values of \<open>b\<close>: the multiples of \<open>BPB\<close> below the size of the file system.\<close>

definition balloc :: "u32 \<Rightarrow> u32 \<Rightarrow> fsys \<Rightarrow> (u32 \<times> fsys) res" where
  "balloc me dv s = balloc_loop me dv (map ((*) BPB) [0..<(unat (sb_size (fsb s)) + BPB - 1) div BPB]) s"

definition bfree :: "u32 \<Rightarrow> u32 \<Rightarrow> u32 \<Rightarrow> fsys \<Rightarrow> fsys res" where
  "bfree me dv b s =
     rbind (f_bread me dv (BBLOCK b (fsb s)) s) (\<lambda>(bp, s).
     let bi = unat b mod BPB; d = bdata bp s in
     if \<not> bit_set d bi then Inl (Panic ''freeing free block'')
     else
       rbind (log_write bp (set_bdata bp (d[bi div 8 := d ! (bi div 8) AND NOT (push_bit (bi mod 8) 1)]) s)) (\<lambda>s.
       f_brelse me bp s))"

section \<open>Inodes\<close>

text \<open>The part of \<open>iinit\<close> before its call of \<open>initswap\<close>, on the file system's own state; the whole of it is
  \<open>k_iinit\<close> of \<open>Xv6_Proc\<close>. The message it prints is not modelled.\<close>

definition iinit :: "u32 \<Rightarrow> u32 \<Rightarrow> fsys \<Rightarrow> fsys res" where
  "iinit me dv s =
     (let s = s\<lparr>icache := (\<lambda>i. if i < NINODE then (icache s i)\<lparr>i_lock := initsleeplock\<rparr> else icache s i)\<rparr> in
      rbind (readsb me dv s) (\<lambda>(sb, s).
      Inr (s\<lparr>fsb := sb\<rparr>)))"

definition iget :: "u32 \<Rightarrow> u32 \<Rightarrow> fsys \<Rightarrow> (nat \<times> fsys) res" where
  "iget dv inum s =
     (case first_index (\<lambda>i. i_ref (icache s i) > 0 \<and> i_dev (icache s i) = dv \<and> i_inum (icache s i) = inum) [0..<NINODE] of
        Some ip \<Rightarrow> Inr (ip, upd_inode ip (\<lambda>x. x\<lparr>i_ref := i_ref x + 1\<rparr>) s)
      | None \<Rightarrow>
          case first_index (\<lambda>i. i_ref (icache s i) = 0) [0..<NINODE] of
            None \<Rightarrow> Inl (Panic ''iget: no inodes'')
          | Some ip \<Rightarrow> Inr (ip, upd_inode ip (\<lambda>x. x\<lparr>i_dev := dv, i_inum := inum, i_ref := 1, i_valid := False\<rparr>) s))"

text \<open>Where inode \<open>inum\<close> starts in its block, and the fields there.\<close>

definition dinode_off :: "u32 \<Rightarrow> nat" where
  "dinode_off inum = unat inum mod IPB * DINODE"

definition put_dinode :: "nat \<Rightarrow> inode \<Rightarrow> u8 list \<Rightarrow> u8 list" where
  "put_dinode o' ip d =
     put_array (o' + 12) (i_addrs ip) (put32 (o' + 8) (i_size ip) (put16 (o' + 6) (i_nlink ip)
       (put16 (o' + 4) (i_minor ip) (put16 (o' + 2) (i_major ip) (put16 o' (i_type ip) d)))))"

definition get_dinode :: "nat \<Rightarrow> u8 list \<Rightarrow> inode \<Rightarrow> inode" where
  "get_dinode o' d ip = ip\<lparr>i_type := get16 d o', i_major := get16 d (o' + 2), i_minor := get16 d (o' + 4),
     i_nlink := get16 d (o' + 6), i_size := get32 d (o' + 8), i_addrs := get_array d (o' + 12) (NDIRECT + 1)\<rparr>"

fun ialloc_loop :: "u32 \<Rightarrow> u32 \<Rightarrow> u16 \<Rightarrow> nat list \<Rightarrow> fsys \<Rightarrow> (nat \<times> fsys) res" where
  "ialloc_loop me dv ty [] s = Inl (Panic ''ialloc: no inodes'')"
| "ialloc_loop me dv ty (inum # is) s =
     rbind (f_bread me dv (IBLOCK (of_nat inum) (fsb s)) s) (\<lambda>(bp, s).
     let o' = dinode_off (of_nat inum); d = bdata bp s in
     if get16 d o' = 0 then
       rbind (log_write bp (set_bdata bp (put16 o' ty (put_bytes o' (replicate DINODE 0) d)) s)) (\<lambda>s.
       rbind (f_brelse me bp s) (\<lambda>s.
       iget dv (of_nat inum) s))
     else rbind (f_brelse me bp s) (ialloc_loop me dv ty is))"

definition ialloc :: "u32 \<Rightarrow> u32 \<Rightarrow> u16 \<Rightarrow> fsys \<Rightarrow> (nat \<times> fsys) res" where
  "ialloc me dv ty s = ialloc_loop me dv ty [1..<unat (ninodes (fsb s))] s"

definition iupdate :: "u32 \<Rightarrow> nat \<Rightarrow> fsys \<Rightarrow> fsys res" where
  "iupdate me ip s =
     (let i = icache s ip in
      rbind (f_bread me (i_dev i) (IBLOCK (i_inum i) (fsb s)) s) (\<lambda>(bp, s).
      rbind (log_write bp (set_bdata bp (put_dinode (dinode_off (i_inum i)) i (bdata bp s)) s)) (\<lambda>s.
      f_brelse me bp s)))"

definition idup :: "nat \<Rightarrow> fsys \<Rightarrow> nat \<times> fsys" where
  "idup ip s = (ip, upd_inode ip (\<lambda>x. x\<lparr>i_ref := i_ref x + 1\<rparr>) s)"

definition ilock :: "u32 \<Rightarrow> nat \<Rightarrow> fsys \<Rightarrow> fsys res" where
  "ilock me ip s =
     (if i_ref (icache s ip) < 1 then Inl (Panic ''ilock'')
      else
        rbind (acquiresleep me (i_lock (icache s ip))) (\<lambda>lk.
        let s = upd_inode ip (\<lambda>x. x\<lparr>i_lock := lk\<rparr>) s; i = icache s ip in
        if i_valid i then Inr s
        else
          rbind (f_bread me (i_dev i) (IBLOCK (i_inum i) (fsb s)) s) (\<lambda>(bp, s).
          let s = upd_inode ip (get_dinode (dinode_off (i_inum i)) (bdata bp s)) s in
          rbind (f_brelse me bp s) (\<lambda>s.
          let s = upd_inode ip (\<lambda>x. x\<lparr>i_valid := True\<rparr>) s in
          if i_type (icache s ip) = 0 then Inl (Panic ''ilock: no type'') else Inr s))))"

definition isleep_release :: "nat \<Rightarrow> fsys \<Rightarrow> fsys" where
  "isleep_release ip s = f_wakeup (Ch_inode ip) (upd_inode ip (\<lambda>x. x\<lparr>i_lock := releasesleep (i_lock x)\<rparr>) s)"

definition iunlock :: "u32 \<Rightarrow> nat \<Rightarrow> fsys \<Rightarrow> fsys res" where
  "iunlock me ip s =
     (if \<not> holdingsleep me (i_lock (icache s ip)) \<or> i_ref (icache s ip) < 1 then Inl (Panic ''iunlock'')
      else Inr (isleep_release ip s))"

section \<open>Inode content\<close>

definition bmap :: "u32 \<Rightarrow> nat \<Rightarrow> nat \<Rightarrow> fsys \<Rightarrow> (u32 \<times> fsys) res" where
  "bmap me ip bn s =
     (let dv = i_dev (icache s ip) in
      if bn < NDIRECT then
        let addr = i_addrs (icache s ip) ! bn in
        if addr = 0 then
          rbind (balloc me dv s) (\<lambda>(addr, s).
          Inr (addr, upd_inode ip (\<lambda>x. x\<lparr>i_addrs := (i_addrs x)[bn := addr]\<rparr>) s))
        else Inr (addr, s)
      else if bn - NDIRECT < NINDIRECT then
        let bn = bn - NDIRECT; addr = i_addrs (icache s ip) ! NDIRECT in
        rbind (if addr = 0 then
                 rbind (balloc me dv s) (\<lambda>(addr, s).
                 Inr (addr, upd_inode ip (\<lambda>x. x\<lparr>i_addrs := (i_addrs x)[NDIRECT := addr]\<rparr>) s))
               else Inr (addr, s)) (\<lambda>(addr, s).
        rbind (f_bread me dv addr s) (\<lambda>(bp, s).
        let addr = get32 (bdata bp s) (4 * bn) in
        rbind (if addr = 0 then
                 rbind (balloc me dv s) (\<lambda>(addr, s).
                 rbind (log_write bp (set_bdata bp (put32 (4 * bn) addr (bdata bp s)) s)) (\<lambda>s.
                 Inr (addr, s)))
               else Inr (addr, s)) (\<lambda>(addr, s).
        rbind (f_brelse me bp s) (\<lambda>s. Inr (addr, s)))))
      else Inl (Panic ''bmap: out of range''))"

fun itrunc_direct :: "u32 \<Rightarrow> nat \<Rightarrow> nat list \<Rightarrow> fsys \<Rightarrow> fsys res" where
  "itrunc_direct me ip [] s = Inr s"
| "itrunc_direct me ip (i # is) s =
     (let addr = i_addrs (icache s ip) ! i in
      if addr \<noteq> 0 then
        rbind (bfree me (i_dev (icache s ip)) addr s) (\<lambda>s.
        itrunc_direct me ip is (upd_inode ip (\<lambda>x. x\<lparr>i_addrs := (i_addrs x)[i := 0]\<rparr>) s))
      else itrunc_direct me ip is s)"

fun itrunc_indirect :: "u32 \<Rightarrow> u32 \<Rightarrow> nat \<Rightarrow> nat list \<Rightarrow> fsys \<Rightarrow> fsys res" where
  "itrunc_indirect me dv bp [] s = Inr s"
| "itrunc_indirect me dv bp (j # js) s =
     (let a = get32 (bdata bp s) (4 * j) in
      rbind (if a \<noteq> 0 then bfree me dv a s else Inr s) (itrunc_indirect me dv bp js))"

definition itrunc :: "u32 \<Rightarrow> nat \<Rightarrow> fsys \<Rightarrow> fsys res" where
  "itrunc me ip s =
     rbind (itrunc_direct me ip [0..<NDIRECT] s) (\<lambda>s.
     let dv = i_dev (icache s ip); addr = i_addrs (icache s ip) ! NDIRECT in
     rbind (if addr \<noteq> 0 then
              rbind (f_bread me dv addr s) (\<lambda>(bp, s).
              rbind (itrunc_indirect me dv bp [0..<NINDIRECT] s) (\<lambda>s.
              rbind (f_brelse me bp s) (\<lambda>s.
              rbind (bfree me dv addr s) (\<lambda>s.
              Inr (upd_inode ip (\<lambda>x. x\<lparr>i_addrs := (i_addrs x)[NDIRECT := 0]\<rparr>) s)))))
            else Inr s) (\<lambda>s.
     iupdate me ip (upd_inode ip (\<lambda>x. x\<lparr>i_size := 0\<rparr>) s)))"

definition iput :: "u32 \<Rightarrow> nat \<Rightarrow> fsys \<Rightarrow> fsys res" where
  "iput me ip s =
     rbind (acquiresleep me (i_lock (icache s ip))) (\<lambda>lk.
     let s = upd_inode ip (\<lambda>x. x\<lparr>i_lock := lk\<rparr>) s; i = icache s ip in
     rbind (if i_valid i \<and> i_nlink i = 0 \<and> i_ref i = 1 then
              rbind (itrunc me ip s) (\<lambda>s.
              rbind (iupdate me ip (upd_inode ip (\<lambda>x. x\<lparr>i_type := 0\<rparr>) s)) (\<lambda>s.
              Inr (upd_inode ip (\<lambda>x. x\<lparr>i_valid := False\<rparr>) s)))
            else Inr s) (\<lambda>s.
     Inr (upd_inode ip (\<lambda>x. x\<lparr>i_ref := i_ref x - 1\<rparr>) (isleep_release ip s))))"

definition iunlockput :: "u32 \<Rightarrow> nat \<Rightarrow> fsys \<Rightarrow> fsys res" where
  "iunlockput me ip s = rbind (iunlock me ip s) (iput me ip)"

record stat =
  st_type :: u16
  st_dev :: u32
  st_ino :: u32
  st_nlink :: u16
  st_size :: u32

definition stati :: "nat \<Rightarrow> fsys \<Rightarrow> stat" where
  "stati ip s = (let i = icache s ip in
     \<lparr>st_type = i_type i, st_dev = i_dev i, st_ino = i_inum i, st_nlink = i_nlink i, st_size = i_size i\<rparr>)"

section \<open>Reading and writing\<close>

text \<open>The console behind the device switch; both drop the inode's lock while they run.\<close>

definition consoleread :: "caller \<Rightarrow> nat \<Rightarrow> u32 \<Rightarrow> fsys \<Rightarrow> (u8 list option \<times> fsys) res" where
  "consoleread c ip n s =
     rbind (iunlock (c_pid c) ip s) (\<lambda>s.
     rbind (consoleread_loop (c_killed c) (unat n) (nat (sint n)) (fcons s)) (\<lambda>(r, co).
     rbind (ilock (c_pid c) ip (s\<lparr>fcons := co\<rparr>)) (\<lambda>s.
     Inr (r, s))))"

definition consolewrite :: "caller \<Rightarrow> nat \<Rightarrow> (nat \<Rightarrow> u8) \<Rightarrow> u32 \<Rightarrow> fsys \<Rightarrow> (u32 option \<times> fsys) res" where
  "consolewrite c ip src n s =
     rbind (iunlock (c_pid c) ip s) (\<lambda>s.
     rbind (consputs (map src [0..<nat (sint n)]) (fcons s)) (\<lambda>co.
     rbind (ilock (c_pid c) ip (s\<lparr>fcons := co\<rparr>)) (\<lambda>s.
     Inr (Some n, s))))"

text \<open>Whether the device of \<open>ip\<close> has entries in \<open>devsw\<close>.\<close>

definition has_dev :: "nat \<Rightarrow> fsys \<Rightarrow> bool" where
  "has_dev ip s = (let m = sint (i_major (icache s ip)) in 0 \<le> m \<and> m < int NDEV \<and> fdevsw s (nat m))"

lemma chunk_pos: "0 < n \<Longrightarrow> 0 < min n (BSIZE - off mod BSIZE)"
  by (simp add: BSIZE_def)

text \<open>The copy loop, with \<open>n\<close> bytes left.\<close>

function readi_loop :: "u32 \<Rightarrow> nat \<Rightarrow> nat \<Rightarrow> nat \<Rightarrow> fsys \<Rightarrow> (u8 list \<times> fsys) res" where
  "readi_loop me ip off n s =
     (if n = 0 then Inr ([], s)
      else
        rbind (bmap me ip (off div BSIZE) s) (\<lambda>(a, s).
        rbind (f_bread me (i_dev (icache s ip)) a s) (\<lambda>(bp, s).
        let m = min n (BSIZE - off mod BSIZE); bs = take m (drop (off mod BSIZE) (bdata bp s)) in
        rbind (f_brelse me bp s) (\<lambda>s.
        rbind (readi_loop me ip (off + m) (n - m) s) (\<lambda>(rest, s).
        Inr (bs @ rest, s))))))"
  by pat_completeness auto
termination
  by (relation "measure (\<lambda>(me, ip, off, n, s). n)") (use chunk_pos in auto)

definition readi :: "caller \<Rightarrow> nat \<Rightarrow> u32 \<Rightarrow> u32 \<Rightarrow> fsys \<Rightarrow> (u8 list option \<times> fsys) res" where
  "readi c ip off n s =
     (let i = icache s ip in
      if i_type i = T_DEV then
        if \<not> has_dev ip s then Inr (None, s) else consoleread c ip n s
      else if off > i_size i \<or> off + n < off then Inr (None, s)
      else
        let n = (if off + n > i_size i then i_size i - off else n) in
        rbind (readi_loop (c_pid c) ip (unat off) (unat n) s) (\<lambda>(bs, s). Inr (Some bs, s)))"

function writei_loop :: "u32 \<Rightarrow> nat \<Rightarrow> (nat \<Rightarrow> u8) \<Rightarrow> nat \<Rightarrow> nat \<Rightarrow> fsys \<Rightarrow> fsys res" where
  "writei_loop me ip src off n s =
     (if n = 0 then Inr s
      else
        rbind (bmap me ip (off div BSIZE) s) (\<lambda>(a, s).
        rbind (f_bread me (i_dev (icache s ip)) a s) (\<lambda>(bp, s).
        let m = min n (BSIZE - off mod BSIZE) in
        rbind (log_write bp (set_bdata bp (put_bytes (off mod BSIZE) (map src [0..<m]) (bdata bp s)) s)) (\<lambda>s.
        rbind (f_brelse me bp s) (\<lambda>s.
        writei_loop me ip (\<lambda>k. src (k + m)) (off + m) (n - m) s)))))"
  by pat_completeness auto
termination
  by (relation "measure (\<lambda>(me, ip, src, off, n, s). n)") (use chunk_pos in auto)

definition writei :: "caller \<Rightarrow> nat \<Rightarrow> (nat \<Rightarrow> u8) \<Rightarrow> u32 \<Rightarrow> u32 \<Rightarrow> fsys \<Rightarrow> (u32 option \<times> fsys) res" where
  "writei c ip src off n s =
     (let i = icache s ip in
      if i_type i = T_DEV then
        if \<not> has_dev ip s then Inr (None, s) else consolewrite c ip src n s
      else if off > i_size i \<or> off + n < off then Inr (None, s)
      else if off + n > of_nat (MAXFILE * BSIZE) then Inr (None, s)
      else
        rbind (writei_loop (c_pid c) ip src (unat off) (unat n) s) (\<lambda>s.
        if n > 0 \<and> off + n > i_size (icache s ip) then
          rbind (iupdate (c_pid c) ip (upd_inode ip (\<lambda>x. x\<lparr>i_size := off + n\<rparr>) s)) (\<lambda>s.
          Inr (Some n, s))
        else Inr (Some n, s)))"

section \<open>Directories\<close>

definition namecmp :: "u8 list \<Rightarrow> u8 list \<Rightarrow> int" where
  "namecmp s t = strncmp ((!) s) ((!) t) DIRSIZ"

text \<open>The offsets of the entries of a directory of the given size.\<close>

definition dir_offs :: "u32 \<Rightarrow> nat list" where
  "dir_offs sz = map ((*) DIRENT) [0..<(unat sz + DIRENT - 1) div DIRENT]"

fun dirlookup_loop :: "caller \<Rightarrow> nat \<Rightarrow> u8 list \<Rightarrow> nat list \<Rightarrow> fsys \<Rightarrow> ((nat \<times> nat) option \<times> fsys) res" where
  "dirlookup_loop c dp name [] s = Inr (None, s)"
| "dirlookup_loop c dp name (off # offs) s =
     rbind (readi c dp (of_nat off) (of_nat DIRENT) s) (\<lambda>(r, s).
     case r of
       None \<Rightarrow> Inl (Panic ''dirlookup read'')
     | Some de \<Rightarrow>
         if length de \<noteq> DIRENT then Inl (Panic ''dirlookup read'')
         else if get16 de 0 = 0 then dirlookup_loop c dp name offs s
         else if namecmp name (drop 2 de) = 0 then
           rbind (iget (i_dev (icache s dp)) (ucast (get16 de 0)) s) (\<lambda>(ip, s).
           Inr (Some (ip, off), s))
         else dirlookup_loop c dp name offs s)"

text \<open>The found inode and the offset of its entry.\<close>

definition dirlookup :: "caller \<Rightarrow> nat \<Rightarrow> u8 list \<Rightarrow> fsys \<Rightarrow> ((nat \<times> nat) option \<times> fsys) res" where
  "dirlookup c dp name s =
     (if i_type (icache s dp) \<noteq> T_DIR then Inl (Panic ''dirlookup not DIR'')
      else dirlookup_loop c dp name (dir_offs (i_size (icache s dp))) s)"

text \<open>The offset of an empty entry, or the first offset past the last entry.\<close>

fun empty_dirent :: "caller \<Rightarrow> nat \<Rightarrow> nat list \<Rightarrow> nat \<Rightarrow> fsys \<Rightarrow> (nat \<times> fsys) res" where
  "empty_dirent c dp [] off s = Inr (off, s)"
| "empty_dirent c dp (o' # offs) off s =
     rbind (readi c dp (of_nat o') (of_nat DIRENT) s) (\<lambda>(r, s).
     case r of
       None \<Rightarrow> Inl (Panic ''dirlink read'')
     | Some de \<Rightarrow>
         if length de \<noteq> DIRENT then Inl (Panic ''dirlink read'')
         else if get16 de 0 = 0 then Inr (o', s)
         else empty_dirent c dp offs (o' + DIRENT) s)"

text \<open>\<open>strncpy(de.name, name, DIRSIZ)\<close>, with \<open>name\<close> at address 256 and the entry's name at 0.\<close>

definition dirent_name :: "u8 list \<Rightarrow> u8 list" where
  "dirent_name name = mread (strncpy (mwrite (\<lambda>_. 0) 256 name) 0 256 DIRSIZ) 0 DIRSIZ"

definition dirlink :: "caller \<Rightarrow> nat \<Rightarrow> u8 list \<Rightarrow> u32 \<Rightarrow> fsys \<Rightarrow> (bool \<times> fsys) res" where
  "dirlink c dp name inum s =
     rbind (dirlookup c dp name s) (\<lambda>(r, s).
     case r of
       Some (ip, off) \<Rightarrow> rbind (iput (c_pid c) ip s) (\<lambda>s. Inr (False, s))
     | None \<Rightarrow>
         rbind (empty_dirent c dp (dir_offs (i_size (icache s dp))) 0 s) (\<lambda>(off, s).
         let de = put16 0 (ucast inum) (replicate 2 0) @ dirent_name name in
         rbind (writei c dp ((!) de) (of_nat off) (of_nat DIRENT) s) (\<lambda>(r, s).
         if r \<noteq> Some (of_nat DIRENT) then Inl (Panic ''dirlink'') else Inr (True, s))))"

section \<open>Paths\<close>

text \<open>A path is its bytes before the NUL. The result is the rest of the path, unless there is no
  further element, and the name buffer.\<close>

definition skipelem :: "u8 list \<Rightarrow> u8 list \<Rightarrow> u8 list option \<times> u8 list" where
  "skipelem path name =
     (let p = dropWhile (\<lambda>ch. ch = 0x2F) path in
      if p = [] then (None, name)
      else
        let e = takeWhile (\<lambda>ch. ch \<noteq> 0x2F) p; p = dropWhile (\<lambda>ch. ch \<noteq> 0x2F) p;
            name = (if length e \<ge> DIRSIZ then put_bytes 0 (take DIRSIZ e) name else put_bytes 0 (e @ [0]) name)
        in (Some (dropWhile (\<lambda>ch. ch = 0x2F) p), name))"

lemma skipelem_shorter: "skipelem path name = (Some path', name') \<Longrightarrow> length path' < length path"
proof -
  assume r: "skipelem path name = (Some path', name')"
  let ?p = "dropWhile (\<lambda>ch. ch = 0x2F) path"
  have ne: "?p \<noteq> []"
  proof
    assume "?p = []"
    then show False using r unfolding skipelem_def Let_def by simp
  qed
  then have "hd ?p \<noteq> 0x2F" by (rule hd_dropWhile)
  with ne have lt: "length (dropWhile (\<lambda>ch. ch \<noteq> 0x2F) ?p) < length ?p"
    by (cases ?p) (auto simp: less_Suc_eq_le length_dropWhile_le)
  have "path' = dropWhile (\<lambda>ch. ch = 0x2F) (dropWhile (\<lambda>ch. ch \<noteq> 0x2F) ?p)"
    using r unfolding skipelem_def Let_def by (simp split: if_splits)
  then have "length path' \<le> length (dropWhile (\<lambda>ch. ch \<noteq> 0x2F) ?p)" by (simp add: length_dropWhile_le)
  with lt show ?thesis using length_dropWhile_le [of "\<lambda>ch. ch = 0x2F" path] by linarith
qed

function namex_loop :: "caller \<Rightarrow> bool \<Rightarrow> nat \<Rightarrow> u8 list \<Rightarrow> u8 list \<Rightarrow> fsys \<Rightarrow> ((nat option \<times> u8 list) \<times> fsys) res" where
  "namex_loop c parent ip path name s =
     (case skipelem path name of
        (None, name) \<Rightarrow>
          if parent then rbind (iput (c_pid c) ip s) (\<lambda>s. Inr ((None, name), s)) else Inr ((Some ip, name), s)
      | (Some path, name) \<Rightarrow>
          rbind (ilock (c_pid c) ip s) (\<lambda>s.
          if i_type (icache s ip) \<noteq> T_DIR then
            rbind (iunlockput (c_pid c) ip s) (\<lambda>s. Inr ((None, name), s))
          else if parent \<and> path = [] then
            rbind (iunlock (c_pid c) ip s) (\<lambda>s. Inr ((Some ip, name), s))
          else
            rbind (dirlookup c ip name s) (\<lambda>(r, s).
            rbind (iunlockput (c_pid c) ip s) (\<lambda>s.
            case r of
              None \<Rightarrow> Inr ((None, name), s)
            | Some (next, off) \<Rightarrow> namex_loop c parent next path name s))))"
  by pat_completeness auto
termination
  by (relation "measure (\<lambda>(c, parent, ip, path, name, s). length path)") (auto dest!: skipelem_shorter [OF sym])

definition namex :: "caller \<Rightarrow> u8 list \<Rightarrow> bool \<Rightarrow> u8 list \<Rightarrow> fsys \<Rightarrow> ((nat option \<times> u8 list) \<times> fsys) res" where
  "namex c path parent name s =
     rbind (if path \<noteq> [] \<and> hd path = 0x2F then iget ROOTDEV ROOTINO s else Inr (idup (c_cwd c) s)) (\<lambda>(ip, s).
     namex_loop c parent ip path name s)"

definition namei :: "caller \<Rightarrow> u8 list \<Rightarrow> fsys \<Rightarrow> (nat option \<times> fsys) res" where
  "namei c path s = rbind (namex c path False (replicate DIRSIZ 0) s) (\<lambda>((r, name), s). Inr (r, s))"

definition nameiparent :: "caller \<Rightarrow> u8 list \<Rightarrow> u8 list \<Rightarrow> fsys \<Rightarrow> ((nat option \<times> u8 list) \<times> fsys) res" where
  "nameiparent c path name s = namex c path True name s"

lemmas [simp del] = readi_loop.simps writei_loop.simps namex_loop.simps

end
