(* ===== verification/Xv6_Pipe.thy ===== *)
theory Xv6_Pipe
  imports Xv6_Prelude
begin

text \<open>
  Pipes (\<open>pipe.c\<close>). A call of \<open>pipewrite\<close> or \<open>piperead\<close> runs under the pipe's lock until it
  returns or sleeps, so the model is one function per stretch of code between those points and a
  step relation that interleaves any number of writers and readers. The counters \<open>nread\<close> and
  \<open>nwrite\<close> are 32-bit and wrap; the index into the buffer stays right because \<open>PIPESIZE\<close>
  divides \<open>2 ^ 32\<close>. \<open>pipealloc\<close> and the freeing of the page are in \<open>Xv6_File\<close>.
\<close>

section \<open>Definitions\<close>

definition PIPESIZE :: nat where "PIPESIZE = 512"

record pipe =
  pi_data :: "u8 list"
  nread :: u32
  nwrite :: u32
  readopen :: bool
  writeopen :: bool

definition pipe_full :: "pipe \<Rightarrow> bool" where
  "pipe_full p \<longleftrightarrow> nwrite p = nread p + of_nat PIPESIZE"

text \<open>How a stretch of \<open>pipewrite\<close> ends: all bytes written, \<open>-1\<close>, or asleep with bytes left.\<close>

datatype wres = W_done | W_fail | W_wait "u8 list"

fun pipewrite :: "bool \<Rightarrow> u8 list \<Rightarrow> pipe \<Rightarrow> wres \<times> pipe" where
  "pipewrite killed [] p = (W_done, p)"
| "pipewrite killed (b # bs) p =
     (if pipe_full p then
        if \<not> readopen p \<or> killed then (W_fail, p) else (W_wait (b # bs), p)
      else pipewrite killed bs (p\<lparr>pi_data := (pi_data p)[unat (nwrite p) mod PIPESIZE := b], nwrite := nwrite p + 1\<rparr>))"

datatype rres = R_done "u8 list" | R_fail | R_wait

fun piperead_copy :: "nat \<Rightarrow> pipe \<Rightarrow> u8 list \<times> pipe" where
  "piperead_copy 0 p = ([], p)"
| "piperead_copy (Suc n) p =
     (if nread p = nwrite p then ([], p)
      else
        let c = pi_data p ! (unat (nread p) mod PIPESIZE);
            (bs, p') = piperead_copy n (p\<lparr>nread := nread p + 1\<rparr>)
        in (c # bs, p'))"

definition piperead :: "bool \<Rightarrow> nat \<Rightarrow> pipe \<Rightarrow> rres \<times> pipe" where
  "piperead killed n p =
     (if nread p = nwrite p \<and> writeopen p then (if killed then R_fail else R_wait, p)
      else let (bs, p') = piperead_copy n p in (R_done bs, p'))"

text \<open>Whether the page of the pipe is to be freed, and the pipe.\<close>

definition pipeclose :: "bool \<Rightarrow> pipe \<Rightarrow> bool \<times> pipe" where
  "pipeclose writable p =
     (let p = (if writable then p\<lparr>writeopen := False\<rparr> else p\<lparr>readopen := False\<rparr>)
      in (\<not> readopen p \<and> \<not> writeopen p, p))"

section \<open>The queue a pipe holds\<close>

definition buffered :: "pipe \<Rightarrow> u8 list" where
  "buffered p = map (\<lambda>i. pi_data p ! (unat (nread p + of_nat i) mod PIPESIZE)) [0..<unat (nwrite p - nread p)]"

definition pipe_ok :: "pipe \<Rightarrow> bool" where
  "pipe_ok p \<longleftrightarrow> length (pi_data p) = PIPESIZE \<and> unat (nwrite p - nread p) \<le> PIPESIZE"

lemma length_buffered [simp]: "length (buffered p) = unat (nwrite p - nread p)"
  by (simp add: buffered_def)

lemma buffered_empty: "buffered p = [] \<longleftrightarrow> nread p = nwrite p"
  using length_buffered [of p] by (metis length_0_conv right_minus_eq unat_eq_0)

lemma pipe_full_iff: "pipe_full p \<longleftrightarrow> length (buffered p) = PIPESIZE"
proof
  assume "pipe_full p"
  then have "nwrite p - nread p = of_nat PIPESIZE" by (simp add: pipe_full_def)
  then show "length (buffered p) = PIPESIZE" by (simp add: PIPESIZE_def)
next
  assume "length (buffered p) = PIPESIZE"
  then have "nwrite p - nread p = of_nat PIPESIZE" by (metis length_buffered of_nat_unat ucast_id)
  then show "pipe_full p" by (simp add: pipe_full_def algebra_simps)
qed

text \<open>Positions fewer than \<open>PIPESIZE\<close> apart use different slots of the buffer.\<close>

lemma pipe_slot_add: "unat (a + of_nat i :: u32) mod PIPESIZE = (unat a + i) mod PIPESIZE"
proof -
  have "(512 :: nat) dvd 4294967296" by simp
  then have "(x mod 4294967296) mod 512 = x mod 512" for x :: nat by (rule mod_mod_cancel)
  then show ?thesis by (simp add: PIPESIZE_def unat_word_ariths unat_of_nat mod_simps)
qed

lemma pipe_slot_neq:
  assumes "i < j" "j < i + PIPESIZE"
  shows "unat (a + of_nat i :: u32) mod PIPESIZE \<noteq> unat (a + of_nat j :: u32) mod PIPESIZE"
proof
  assume "unat (a + of_nat i :: u32) mod PIPESIZE = unat (a + of_nat j :: u32) mod PIPESIZE"
  then have "(unat a + i) mod PIPESIZE = (unat a + j) mod PIPESIZE" by (simp only: pipe_slot_add)
  then have "PIPESIZE dvd (unat a + j) - (unat a + i)" using assms(1) by (metis mod_eq_dvd_iff_nat add_le_cancel_left less_imp_le)
  then have "PIPESIZE dvd j - i" by simp
  with assms show False by (auto dest!: dvd_imp_le)
qed

lemma buffered_put:
  fixes b :: u8
  assumes ok: "pipe_ok p" and nf: "\<not> pipe_full p"
  defines "p' \<equiv> p\<lparr>pi_data := (pi_data p)[unat (nwrite p) mod PIPESIZE := b], nwrite := nwrite p + 1\<rparr>"
  shows "pipe_ok p'" "buffered p' = buffered p @ [b]"
proof -
  let ?k = "unat (nwrite p - nread p)"
  have k: "?k < PIPESIZE" using ok nf by (simp add: pipe_ok_def pipe_full_iff)
  have "unat ((nwrite p - nread p) + 1) = ?k + 1"
  proof -
    have "?k + 1 < 4294967296" using k by (simp add: PIPESIZE_def)
    then show ?thesis by (simp add: unat_word_ariths)
  qed
  then have n: "unat (nwrite p' - nread p') = ?k + 1" by (simp add: p'_def algebra_simps)
  then show "pipe_ok p'" using ok k by (simp add: pipe_ok_def p'_def)
  have len: "length (pi_data p) = PIPESIZE" using ok by (simp add: pipe_ok_def)
  have w: "nwrite p = nread p + of_nat ?k" by simp
  have "buffered p' ! i = (buffered p @ [b]) ! i" if i: "i < ?k + 1" for i
  proof (cases "i = ?k")
    case True
    have "unat (nwrite p) mod PIPESIZE < PIPESIZE" by (simp add: PIPESIZE_def)
    then show ?thesis using True n len by (simp add: buffered_def p'_def nth_append)
  next
    case False
    then have "unat (nread p + of_nat i) mod PIPESIZE \<noteq> unat (nwrite p) mod PIPESIZE"
      using pipe_slot_neq [of i ?k "nread p"] i k w by simp
    then show ?thesis using False i n by (simp add: buffered_def p'_def nth_append)
  qed
  then show "buffered p' = buffered p @ [b]" using n by (intro nth_equalityI) simp_all
qed

lemma buffered_get:
  assumes ok: "pipe_ok p" and ne: "nread p \<noteq> nwrite p"
  defines "p' \<equiv> p\<lparr>nread := nread p + 1\<rparr>"
  shows "pipe_ok p'" "buffered p = pi_data p ! (unat (nread p) mod PIPESIZE) # buffered p'"
proof -
  let ?k = "unat (nwrite p - nread p)"
  have "nwrite p - nread p \<noteq> 0" using ne by simp
  then have "unat (nwrite p - nread p - 1) = ?k - 1" and k: "0 < ?k"
    by (simp_all add: unat_gt_0 unat_minus_one)
  then have n: "unat (nwrite p' - nread p') = ?k - 1" by (simp add: p'_def algebra_simps)
  then show "pipe_ok p'" using ok by (auto simp: pipe_ok_def p'_def)
  obtain m where m: "?k = Suc m" using k by (metis Suc_pred)
  show "buffered p = pi_data p ! (unat (nread p) mod PIPESIZE) # buffered p'"
    using n m by (simp add: buffered_def p'_def upt_conv_Cons map_Suc_upt [symmetric] comp_def algebra_simps del: upt_Suc)
qed

text \<open>Writing appends a prefix of the bytes; reading removes one.\<close>

lemma pipewrite_spec:
  assumes "pipe_ok p" "pipewrite killed bs p = (r, p')"
  shows "pipe_ok p' \<and> readopen p' = readopen p \<and> writeopen p' = writeopen p \<and> nread p' = nread p \<and>
    (\<exists>k \<le> length bs. buffered p' = buffered p @ take k bs \<and> (r = W_done \<longrightarrow> k = length bs) \<and>
      (\<forall>rest. r = W_wait rest \<longrightarrow> rest = drop k bs \<and> pipe_full p' \<and> readopen p \<and> \<not> killed) \<and>
      (r = W_fail \<longrightarrow> pipe_full p' \<and> (\<not> readopen p \<or> killed)))"
  using assms
proof (induction bs arbitrary: p)
  case Nil
  then show ?case by auto
next
  case (Cons b bs)
  show ?case
  proof (cases "pipe_full p")
    case True
    then show ?thesis using Cons.prems by (auto intro!: exI [of _ 0] split: if_splits)
  next
    case False
    let ?p = "p\<lparr>pi_data := (pi_data p)[unat (nwrite p) mod PIPESIZE := b], nwrite := nwrite p + 1\<rparr>"
    note B = buffered_put [OF Cons.prems(1) False, of b]
    from Cons.IH [OF B(1)] Cons.prems(2) False obtain k where
      k: "pipe_ok p'" "readopen p' = readopen p" "writeopen p' = writeopen p" "nread p' = nread p" "k \<le> length bs"
        "buffered p' = buffered ?p @ take k bs" "r = W_done \<longrightarrow> k = length bs"
        "\<forall>rest. r = W_wait rest \<longrightarrow> rest = drop k bs \<and> pipe_full p' \<and> readopen p \<and> \<not> killed"
        "r = W_fail \<longrightarrow> pipe_full p' \<and> (\<not> readopen p \<or> killed)" by auto
    then show ?thesis using B(2) by (intro conjI exI [of _ "Suc k"]) simp_all
  qed
qed

lemma piperead_copy_spec:
  assumes "pipe_ok p" "piperead_copy n p = (bs, p')"
  shows "pipe_ok p' \<and> readopen p' = readopen p \<and> writeopen p' = writeopen p \<and> nwrite p' = nwrite p \<and>
    buffered p = bs @ buffered p' \<and> length bs \<le> n \<and> (length bs < n \<longrightarrow> buffered p' = [])"
  using assms
proof (induction n arbitrary: p bs)
  case 0
  then show ?case by auto
next
  case (Suc n)
  show ?case
  proof (cases "nread p = nwrite p")
    case True
    then show ?thesis using Suc.prems by (auto simp: buffered_empty)
  next
    case False
    obtain bs' where r: "piperead_copy n (p\<lparr>nread := nread p + 1\<rparr>) = (bs', p')"
      "bs = pi_data p ! (unat (nread p) mod PIPESIZE) # bs'"
      using Suc.prems(2) False by (auto simp: Let_def split: prod.splits)
    note B = buffered_get [OF Suc.prems(1) False]
    from Suc.IH [OF B(1) r(1)] B(2) r(2) show ?thesis by auto
  qed
qed

section \<open>Writers and readers\<close>

datatype wthread = W_idle | W_run "u8 list" | W_sleep "u8 list"

datatype rthread = R_idle | R_run nat | R_sleep nat

text \<open>The pipe with the processes using it, which of the writers were killed, and the bytes put in
  and taken out so far.\<close>

record psys =
  pp :: pipe
  wth :: "nat \<Rightarrow> wthread"
  rth :: "nat \<Rightarrow> rthread"
  wkilled :: "nat \<Rightarrow> bool"
  rkilled :: "nat \<Rightarrow> bool"
  sent :: "u8 list"
  recvd :: "u8 list"

text \<open>\<open>wakeup(&p->nread)\<close> and \<open>wakeup(&p->nwrite)\<close>.\<close>

definition wake_readers :: "psys \<Rightarrow> psys" where
  "wake_readers s = s\<lparr>rth := (\<lambda>i. case rth s i of R_sleep n \<Rightarrow> R_run n | t \<Rightarrow> t)\<rparr>"

definition wake_writers :: "psys \<Rightarrow> psys" where
  "wake_writers s = s\<lparr>wth := (\<lambda>i. case wth s i of W_sleep bs \<Rightarrow> W_run bs | t \<Rightarrow> t)\<rparr>"

definition put_pipe :: "pipe \<Rightarrow> u8 list \<Rightarrow> psys \<Rightarrow> psys" where
  "put_pipe p bs s = s\<lparr>pp := p, sent := sent s @ take (unat (nwrite p - nwrite (pp s))) bs\<rparr>"

definition get_pipe :: "pipe \<Rightarrow> u8 list \<Rightarrow> psys \<Rightarrow> psys" where
  "get_pipe p bs s = s\<lparr>pp := p, recvd := recvd s @ bs\<rparr>"

text \<open>An end of the pipe is closed by the last process that has it open, so no call is in progress
  on it then and none can begin later.\<close>

inductive pstep :: "psys \<Rightarrow> psys \<Rightarrow> bool" where
  write_call: "wth s i = W_idle \<Longrightarrow> writeopen (pp s) \<Longrightarrow> pstep s (s\<lparr>wth := (wth s)(i := W_run bs)\<rparr>)"
| write_done: "wth s i = W_run bs \<Longrightarrow> pipewrite (wkilled s i) bs (pp s) = (W_done, p) \<Longrightarrow>
    pstep s (wake_readers ((put_pipe p bs s)\<lparr>wth := (wth s)(i := W_idle)\<rparr>))"
| write_fail: "wth s i = W_run bs \<Longrightarrow> pipewrite (wkilled s i) bs (pp s) = (W_fail, p) \<Longrightarrow>
    pstep s ((put_pipe p bs s)\<lparr>wth := (wth s)(i := W_idle)\<rparr>)"
| write_wait: "wth s i = W_run bs \<Longrightarrow> pipewrite (wkilled s i) bs (pp s) = (W_wait rest, p) \<Longrightarrow>
    pstep s (wake_readers ((put_pipe p bs s)\<lparr>wth := (wth s)(i := W_sleep rest)\<rparr>))"
| read_call: "rth s i = R_idle \<Longrightarrow> readopen (pp s) \<Longrightarrow> pstep s (s\<lparr>rth := (rth s)(i := R_run n)\<rparr>)"
| read_done: "rth s i = R_run n \<Longrightarrow> piperead (rkilled s i) n (pp s) = (R_done bs, p) \<Longrightarrow>
    pstep s (wake_writers ((get_pipe p bs s)\<lparr>rth := (rth s)(i := R_idle)\<rparr>))"
| read_fail: "rth s i = R_run n \<Longrightarrow> piperead (rkilled s i) n (pp s) = (R_fail, p) \<Longrightarrow>
    pstep s (s\<lparr>rth := (rth s)(i := R_idle)\<rparr>)"
| read_wait: "rth s i = R_run n \<Longrightarrow> piperead (rkilled s i) n (pp s) = (R_wait, p) \<Longrightarrow>
    pstep s (s\<lparr>rth := (rth s)(i := R_sleep n)\<rparr>)"
| write_close: "\<forall>i. wth s i = W_idle \<Longrightarrow> pstep s (wake_readers (s\<lparr>pp := snd (pipeclose True (pp s))\<rparr>))"
| read_close: "\<forall>i. rth s i = R_idle \<Longrightarrow> pstep s (wake_writers (s\<lparr>pp := snd (pipeclose False (pp s))\<rparr>))"
| write_kill: "pstep s (s\<lparr>wkilled := (wkilled s)(i := True),
    wth := (wth s)(i := (case wth s i of W_sleep bs \<Rightarrow> W_run bs | t \<Rightarrow> t))\<rparr>)"
| read_kill: "pstep s (s\<lparr>rkilled := (rkilled s)(i := True),
    rth := (rth s)(i := (case rth s i of R_sleep n \<Rightarrow> R_run n | t \<Rightarrow> t))\<rparr>)"

text \<open>The pipe that \<open>pipealloc\<close> makes.\<close>

definition new_pipe :: "u8 list \<Rightarrow> pipe" where
  "new_pipe d = \<lparr>pi_data = d, nread = 0, nwrite = 0, readopen = True, writeopen = True\<rparr>"

definition psys_init :: "pipe \<Rightarrow> psys" where
  "psys_init p = \<lparr>pp = p, wth = (\<lambda>_. W_idle), rth = (\<lambda>_. R_idle), wkilled = (\<lambda>_. False), rkilled = (\<lambda>_. False),
     sent = [], recvd = []\<rparr>"

definition pipe_inv :: "psys \<Rightarrow> bool" where
  "pipe_inv s \<longleftrightarrow> pipe_ok (pp s) \<and> sent s = recvd s @ buffered (pp s) \<and>
     (\<forall>i bs. wth s i = W_sleep bs \<longrightarrow> pipe_full (pp s) \<and> readopen (pp s)) \<and>
     (\<forall>i n. rth s i = R_sleep n \<longrightarrow> writeopen (pp s) \<and> (buffered (pp s) = [] \<or> (\<exists>j. wkilled s j))) \<and>
     (\<forall>i. wth s i \<noteq> W_idle \<longrightarrow> writeopen (pp s)) \<and> (\<forall>i. rth s i \<noteq> R_idle \<longrightarrow> readopen (pp s))"

lemma pipe_invD:
  assumes "pipe_inv s"
  shows "pipe_ok (pp s)" "sent s = recvd s @ buffered (pp s)"
    "wth s i = W_sleep bs \<Longrightarrow> pipe_full (pp s) \<and> readopen (pp s)"
    "rth s i = R_sleep n \<Longrightarrow> writeopen (pp s) \<and> (buffered (pp s) = [] \<or> (\<exists>j. wkilled s j))"
    "wth s i \<noteq> W_idle \<Longrightarrow> writeopen (pp s)" "rth s i \<noteq> R_idle \<Longrightarrow> readopen (pp s)"
  using assms unfolding pipe_inv_def by blast+

lemma pipewrite_full: "pipe_full p \<Longrightarrow> snd (pipewrite killed bs p) = p"
  by (cases bs) auto

lemma take_sent:
  assumes ok: "pipe_ok p" and w: "pipewrite killed bs p = (r, p')"
  shows "buffered p' = buffered p @ take (unat (nwrite p' - nwrite p)) bs"
proof -
  from pipewrite_spec [OF ok w] obtain k where
    k: "pipe_ok p'" "nread p' = nread p" "k \<le> length bs" "buffered p' = buffered p @ take k bs" by blast
  then have len: "unat (nwrite p' - nread p) = unat (nwrite p - nread p) + k"
    using length_buffered [of p'] length_buffered [of p] by (metis length_append length_take min_absorb2)
  have "nwrite p' - nread p = (nwrite p - nread p) + of_nat k"
    using arg_cong [OF len, of "of_nat :: nat \<Rightarrow> u32"] by simp
  then have "nwrite p' - nwrite p = of_nat k" by (simp add: algebra_simps)
  moreover have "k \<le> PIPESIZE" using len k(1,2) by (simp add: pipe_ok_def)
  ultimately have "unat (nwrite p' - nwrite p) = k" by (simp add: PIPESIZE_def unat_of_nat)
  then show ?thesis using k(4) by simp
qed

text \<open>The threads after a stretch of \<open>pipewrite\<close>: the writer is \<open>t\<close>, and the readers are awake
  unless it failed.\<close>

lemma pipe_inv_write:
  assumes inv: "pipe_inv s" and i: "wth s i = W_run bs" and w: "pipewrite (wkilled s i) bs (pp s) = (r, p)"
    and t: "t = W_idle \<or> (\<exists>rest. r = W_wait rest \<and> t = W_sleep rest)"
    and rt: "rt = rth s \<and> r = W_fail \<or> (\<forall>i n. rt i \<noteq> R_sleep n) \<and> (\<forall>i. rt i = R_idle \<longleftrightarrow> rth s i = R_idle)"
  shows "pipe_inv ((put_pipe p bs s)\<lparr>wth := (wth s)(i := t), rth := rt\<rparr>)"
proof -
  have ok: "pipe_ok (pp s)" using inv by (simp add: pipe_inv_def)
  from pipewrite_spec [OF ok w] have S: "pipe_ok p" "readopen p = readopen (pp s)" "writeopen p = writeopen (pp s)"
    "\<And>rest. r = W_wait rest \<Longrightarrow> pipe_full p \<and> readopen (pp s)" "r = W_fail \<Longrightarrow> \<not> readopen (pp s) \<or> wkilled s i" by auto
  have full: "p = pp s" if "pipe_full (pp s)" using pipewrite_full [OF that, of "wkilled s i" bs] w by simp
  let ?wt = "(wth s)(i := t)"
  have ws: "pipe_full p \<and> readopen p" if j: "?wt j = W_sleep cs" for j cs
  proof (cases "j = i")
    case True
    then show ?thesis using j t S(2,4) by auto
  next
    case False
    then have "pipe_full (pp s) \<and> readopen (pp s)" using j pipe_invD(3) [OF inv] by simp
    then show ?thesis using full by simp
  qed
  have rs: "writeopen p \<and> (buffered p = [] \<or> (\<exists>j. wkilled s j))" if "rt j = R_sleep n" for j n
  proof -
    from that rt have r: "rth s j = R_sleep n" "r = W_fail" by auto
    then have "writeopen (pp s)" "readopen (pp s)" using pipe_invD(4,6) [OF inv, of j] by auto
    then show ?thesis using S(3,5) r(2) by blast
  qed
  have "writeopen p" using pipe_invD(5) [OF inv, of i] i S(3) by simp
  moreover have "readopen p" if "rt j \<noteq> R_idle" for j using that rt pipe_invD(6) [OF inv, of j] S(2) by auto
  moreover have "sent s @ take (unat (nwrite p - nwrite (pp s))) bs = recvd s @ buffered p"
    using pipe_invD(2) [OF inv] take_sent [OF ok w] by simp
  ultimately show ?thesis unfolding pipe_inv_def put_pipe_def using S(1) ws rs by (simp del: fun_upd_apply)
qed

lemma wake_writers_simps [simp]:
  "wth (wake_writers s) i \<noteq> W_sleep bs" "wth (wake_writers s) i = W_idle \<longleftrightarrow> wth s i = W_idle"
  "pp (wake_writers s) = pp s" "rth (wake_writers s) = rth s" "sent (wake_writers s) = sent s"
  "recvd (wake_writers s) = recvd s" "wkilled (wake_writers s) = wkilled s"
  by (simp_all add: wake_writers_def split: wthread.splits)

lemma wake_readers_simps [simp]:
  "rth (wake_readers s) i \<noteq> R_sleep n" "rth (wake_readers s) i = R_idle \<longleftrightarrow> rth s i = R_idle"
  "pp (wake_readers s) = pp s" "wth (wake_readers s) = wth s" "sent (wake_readers s) = sent s"
  "recvd (wake_readers s) = recvd s" "wkilled (wake_readers s) = wkilled s"
  by (simp_all add: wake_readers_def split: rthread.splits)

lemma pipe_inv_read:
  assumes inv: "pipe_inv s" and i: "rth s i = R_run n" and r: "piperead k n (pp s) = (R_done bs, p)"
  shows "pipe_inv (wake_writers ((get_pipe p bs s)\<lparr>rth := (rth s)(i := R_idle)\<rparr>))"
proof -
  have ok: "pipe_ok (pp s)" using inv by (simp add: pipe_inv_def)
  have "piperead_copy n (pp s) = (bs, p)" using r by (auto simp: piperead_def split: if_splits prod.splits)
  from piperead_copy_spec [OF ok this] have S: "pipe_ok p" "readopen p = readopen (pp s)" "writeopen p = writeopen (pp s)"
    "buffered (pp s) = bs @ buffered p" by blast+
  show ?thesis using inv i S by (simp add: pipe_inv_def get_pipe_def) blast
qed

lemma wake_readers_put: "wake_readers ((put_pipe p bs s)\<lparr>wth := w\<rparr>) =
    (put_pipe p bs s)\<lparr>wth := w, rth := (\<lambda>i. case rth s i of R_sleep n \<Rightarrow> R_run n | t \<Rightarrow> t)\<rparr>"
  by (simp add: wake_readers_def put_pipe_def)

lemma pstep_inv: "pstep s s' \<Longrightarrow> pipe_inv s \<Longrightarrow> pipe_inv s'"
proof (induction rule: pstep.induct)
  case (write_done s i bs p)
  show ?case unfolding wake_readers_put
    by (rule pipe_inv_write [OF write_done(3,1,2)]) (auto split: rthread.splits)
next
  case (write_fail s i bs p)
  have "pipe_inv ((put_pipe p bs s)\<lparr>wth := (wth s)(i := W_idle), rth := rth s\<rparr>)"
    by (rule pipe_inv_write [OF write_fail(3,1,2)]) auto
  then show ?case by (simp add: put_pipe_def)
next
  case (write_wait s i bs rest p)
  show ?case unfolding wake_readers_put
    by (rule pipe_inv_write [OF write_wait(3,1,2)]) (auto split: rthread.splits)
next
  case (read_done s i n bs p)
  then show ?case by (intro pipe_inv_read)
next
  case (read_wait s i n p)
  then show ?case by (auto simp: pipe_inv_def piperead_def buffered_empty split: if_splits prod.splits)
next
  case (write_close s)
  then show ?case by (simp add: pipe_inv_def pipeclose_def buffered_def pipe_ok_def pipe_full_def)
next
  case (read_close s)
  then show ?case by (simp add: pipe_inv_def pipeclose_def buffered_def pipe_ok_def pipe_full_def)
qed (auto simp: pipe_inv_def split: if_splits wthread.splits rthread.splits)

lemma pipe_reachable_inv: "pstep\<^sup>*\<^sup>* s s' \<Longrightarrow> pipe_inv s \<Longrightarrow> pipe_inv s'"
  by (induction rule: rtranclp_induct) (auto intro: pstep_inv)

lemma pipe_inv_init: "length d = PIPESIZE \<Longrightarrow> pipe_inv (psys_init (new_pipe d))"
  by (simp add: pipe_inv_def psys_init_def new_pipe_def pipe_ok_def buffered_def)

section \<open>Properties\<close>

text \<open>C6. A pipe is a queue: whatever writers and readers do, in any order and however often the
  counters wrap, the bytes read so far followed by the buffered bytes are the bytes written so far,
  and at most \<open>PIPESIZE\<close> bytes are buffered.\<close>

theorem pipe_fifo:
  assumes "length d = PIPESIZE" and "pstep\<^sup>*\<^sup>* (psys_init (new_pipe d)) s"
  shows "sent s = recvd s @ buffered (pp s) \<and> length (buffered (pp s)) \<le> PIPESIZE"
  using pipe_reachable_inv [OF assms(2) pipe_inv_init [OF assms(1)]] by (simp add: pipe_inv_def pipe_ok_def)

text \<open>A writer fills the pipe and sleeps, and a reader takes two bytes.\<close>

definition demo_pipe :: pipe where
  "demo_pipe = new_pipe (replicate PIPESIZE 0)"

definition demo_write :: psys where
  "demo_write = (psys_init demo_pipe)\<lparr>wth := (\<lambda>_. W_idle)(0 := W_run [1, 2, 3])\<rparr>"

lemma demo_write_reach: "pstep\<^sup>*\<^sup>* (psys_init demo_pipe) demo_write"
proof -
  have "pstep (psys_init demo_pipe) ((psys_init demo_pipe)\<lparr>wth := (wth (psys_init demo_pipe))(0 := W_run [1, 2, 3])\<rparr>)"
    by (rule write_call) (simp_all add: psys_init_def demo_pipe_def new_pipe_def)
  then show ?thesis by (simp add: demo_write_def psys_init_def)
qed

theorem pipe_fifo_witness:
  "\<exists>s. pstep\<^sup>*\<^sup>* (psys_init demo_pipe) s \<and> sent s = [1, 2, 3] \<and> recvd s = [] \<and> buffered (pp s) = [1, 2, 3]"
proof -
  define p where "p = snd (pipewrite False [1, 2, 3] demo_pipe)"
  have "fst (pipewrite False [1, 2, 3] (new_pipe d)) = W_done" "nwrite (snd (pipewrite False [1, 2, 3] (new_pipe d))) = 3" for d
    by (simp_all add: new_pipe_def pipe_full_def PIPESIZE_def)
  then have w: "pipewrite False [1, 2, 3] demo_pipe = (W_done, p)" and n: "nwrite p = 3"
    by (simp_all add: p_def demo_pipe_def prod_eq_iff)
  let ?s = "wake_readers ((put_pipe p [1, 2, 3] demo_write)\<lparr>wth := (wth demo_write)(0 := W_idle)\<rparr>)"
  have "pstep demo_write ?s"
    by (rule write_done) (use w in \<open>simp_all add: demo_write_def psys_init_def\<close>)
  with demo_write_reach have r: "pstep\<^sup>*\<^sup>* (psys_init demo_pipe) ?s" by (rule rtranclp.rtrancl_into_rtrancl)
  have "sent ?s = [1, 2, 3]" "recvd ?s = []"
    using n by (simp_all add: put_pipe_def demo_write_def psys_init_def demo_pipe_def new_pipe_def)
  moreover from pipe_fifo [OF _ r [unfolded demo_pipe_def]] have "sent ?s = recvd ?s @ buffered (pp ?s)" by simp
  ultimately show ?thesis using r by (intro exI [of _ ?s]) simp
qed

text \<open>C14. No wakeup is lost while no writer has been killed: a writer sleeps only while the pipe is
  full and can still be read, a reader sleeps only while it is empty and can still be written, so
  they never wait for each other; and a reader that runs while a writer sleeps reads at least one
  byte and wakes every sleeping writer.\<close>

theorem pipe_progress:
  assumes "length d = PIPESIZE" and "pstep\<^sup>*\<^sup>* (psys_init (new_pipe d)) s" and "\<forall>i. \<not> wkilled s i"
  shows "(wth s i = W_sleep bs \<longrightarrow> pipe_full (pp s) \<and> readopen (pp s)) \<and>
    (rth s j = R_sleep n \<longrightarrow> buffered (pp s) = [] \<and> writeopen (pp s)) \<and>
    \<not> (wth s i = W_sleep bs \<and> rth s j = R_sleep n) \<and>
    (wth s i = W_sleep bs \<and> rth s j = R_run (Suc n) \<longrightarrow>
      (\<exists>c cs p s'. piperead (rkilled s j) (Suc n) (pp s) = (R_done (c # cs), p) \<and> pstep s s' \<and>
         pp s' = p \<and> wth s' i = W_run bs \<and> rth s' j = R_idle))"
proof -
  have inv: "pipe_inv s" by (rule pipe_reachable_inv [OF assms(2) pipe_inv_init [OF assms(1)]])
  then have w: "wth s i = W_sleep bs \<Longrightarrow> pipe_full (pp s) \<and> readopen (pp s)"
    and r: "rth s j = R_sleep n \<Longrightarrow> buffered (pp s) = [] \<and> writeopen (pp s)"
    using assms(3) by (auto simp: pipe_inv_def)
  have run: "\<exists>c cs p s'. piperead (rkilled s j) (Suc n) (pp s) = (R_done (c # cs), p) \<and> pstep s s' \<and>
         pp s' = p \<and> wth s' i = W_run bs \<and> rth s' j = R_idle"
    if a: "wth s i = W_sleep bs" and b: "rth s j = R_run (Suc n)"
  proof -
    have "nread (pp s) \<noteq> nwrite (pp s)"
      using w [OF a] by (auto simp: pipe_full_iff buffered_empty [symmetric] PIPESIZE_def simp del: length_buffered)
    then obtain c cs p where rd: "piperead (rkilled s j) (Suc n) (pp s) = (R_done (c # cs), p)"
      by (cases "piperead_copy n ((pp s)\<lparr>nread := nread (pp s) + 1\<rparr>)") (auto simp: piperead_def)
    let ?s = "wake_writers ((get_pipe p (c # cs) s)\<lparr>rth := (rth s)(j := R_idle)\<rparr>)"
    have "pstep s ?s" by (rule read_done [OF b rd])
    moreover have "pp ?s = p" "wth ?s i = W_run bs" "rth ?s j = R_idle"
      using a by (simp_all add: get_pipe_def wake_writers_def)
    ultimately show ?thesis using rd by blast
  qed
  have "\<not> (wth s i = W_sleep bs \<and> rth s j = R_sleep n)"
    using w r by (auto simp: pipe_full_iff PIPESIZE_def simp del: length_buffered)
  then show ?thesis using w r run by blast
qed

text \<open>More bytes than the pipe holds.\<close>

lemma pipewrite_over:
  assumes ok: "pipe_ok p" and r: "readopen p" and n: "PIPESIZE < length bs"
  shows "\<exists>rest q. pipewrite False bs p = (W_wait rest, q)" "\<exists>q. pipewrite True bs p = (W_fail, q) \<and> pipe_full q"
proof -
  have nd: "fst (pipewrite k bs p) \<noteq> W_done" for k
  proof
    assume "fst (pipewrite k bs p) = W_done"
    then obtain q where q: "pipewrite k bs p = (W_done, q)" by (metis prod.collapse)
    from pipewrite_spec [OF ok q] have "pipe_ok q" "length (buffered q) = length (buffered p) + length bs" by auto
    then show False using n by (simp add: pipe_ok_def)
  qed
  obtain x q where q: "pipewrite False bs p = (x, q)" by fastforce
  then show "\<exists>rest q. pipewrite False bs p = (W_wait rest, q)"
    using nd [of False] pipewrite_spec [OF ok q] r by (cases x) auto
  obtain y q' where q': "pipewrite True bs p = (y, q')" by fastforce
  then show "\<exists>q. pipewrite True bs p = (W_fail, q) \<and> pipe_full q"
    using nd [of True] pipewrite_spec [OF ok q'] by (cases y) auto
qed

definition demo_big :: "u8 list" where
  "demo_big = replicate 600 7"

lemma demo_pipe_ok: "pipe_ok demo_pipe" "readopen demo_pipe" "writeopen demo_pipe" "nread demo_pipe = nwrite demo_pipe"
  "PIPESIZE < length demo_big"
  by (simp_all add: demo_pipe_def new_pipe_def pipe_ok_def PIPESIZE_def demo_big_def)

theorem pipe_progress_witness:
  "\<exists>s i rest c cs p s'. pstep\<^sup>*\<^sup>* (psys_init demo_pipe) s \<and> wth s i = W_sleep rest \<and> rth s 0 = R_run 2 \<and>
    piperead False 2 (pp s) = (R_done (c # cs), p) \<and> pstep s s' \<and> pp s' = p \<and> wth s' i = W_run rest \<and> rth s' 0 = R_idle"
proof -
  let ?s0 = "psys_init demo_pipe"
  obtain s1 where s1: "s1 = ?s0\<lparr>wth := (wth ?s0)(0 := W_run demo_big)\<rparr>" by blast
  have r1: "pstep ?s0 s1" unfolding s1 by (rule write_call) (simp_all add: psys_init_def demo_pipe_ok)
  obtain rest q where w: "pipewrite False demo_big demo_pipe = (W_wait rest, q)"
    using pipewrite_over(1) [OF demo_pipe_ok(1,2,5)] by blast
  obtain s2 where s2: "s2 = wake_readers ((put_pipe q demo_big s1)\<lparr>wth := (wth s1)(0 := W_sleep rest)\<rparr>)" by blast
  have r2: "pstep s1 s2" unfolding s2 by (rule write_wait) (use w in \<open>simp_all add: s1 psys_init_def\<close>)
  have q: "readopen q" using pipewrite_spec [OF demo_pipe_ok(1) w] demo_pipe_ok(2) by simp
  obtain s where s: "s = s2\<lparr>rth := (rth s2)(0 := R_run 2)\<rparr>" by blast
  have r3: "pstep s2 s" unfolding s
    by (rule read_call) (use q in \<open>simp_all add: s2 s1 psys_init_def put_pipe_def\<close>)
  have reach: "pstep\<^sup>*\<^sup>* ?s0 s" using r1 r2 r3 by (meson r_into_rtranclp rtranclp.rtrancl_into_rtrancl)
  have st: "wth s 0 = W_sleep rest" "rth s 0 = R_run (Suc 1)" "\<forall>i. \<not> wkilled s i" "rkilled s 0 = False"
    by (simp_all add: s s2 s1 psys_init_def put_pipe_def wake_readers_def)
  from pipe_progress [OF _ reach [unfolded demo_pipe_def] st(3), of 0 rest 0 1] st
  obtain c cs p s' where "piperead False (Suc 1) (pp s) = (R_done (c # cs), p)" "pstep s s'" "pp s' = p"
    "wth s' 0 = W_run rest" "rth s' 0 = R_idle" by auto
  then show ?thesis using reach st(1,2) by (intro exI [of _ s] exI [of _ 0]) (auto simp: numeral_2_eq_2)
qed

text \<open>C29. A killed writer can lose a wakeup: it fills the pipe in one call and returns \<open>-1\<close> without
  waking the reader, which stays asleep although the pipe is full.\<close>

theorem pipe_killed_writer:
  "\<exists>s. pstep\<^sup>*\<^sup>* (psys_init demo_pipe) s \<and> rth s 0 = R_sleep 1 \<and> pipe_full (pp s) \<and> (\<forall>i. wth s i = W_idle)"
proof -
  let ?s0 = "psys_init demo_pipe"
  obtain s1 where s1: "s1 = ?s0\<lparr>rth := (rth ?s0)(0 := R_run 1)\<rparr>" by blast
  have r1: "pstep ?s0 s1" unfolding s1 by (rule read_call) (simp_all add: psys_init_def demo_pipe_ok)
  obtain s2 where s2: "s2 = s1\<lparr>rth := (rth s1)(0 := R_sleep 1)\<rparr>" by blast
  have r2: "pstep s1 s2" unfolding s2
    by (rule read_wait) (simp_all add: s1 psys_init_def piperead_def demo_pipe_ok)
  obtain s3 where s3: "s3 = s2\<lparr>wth := (wth s2)(0 := W_run demo_big)\<rparr>" by blast
  have r3: "pstep s2 s3" unfolding s3 by (rule write_call) (simp_all add: s2 s1 psys_init_def demo_pipe_ok)
  obtain s4 where s4: "s4 = s3\<lparr>wkilled := (wkilled s3)(0 := True), wth := (wth s3)(0 := (case wth s3 0 of W_sleep bs \<Rightarrow> W_run bs | t \<Rightarrow> t))\<rparr>" by blast
  have r4: "pstep s3 s4" unfolding s4 by (rule write_kill)
  obtain q where w: "pipewrite True demo_big demo_pipe = (W_fail, q)" "pipe_full q"
    using pipewrite_over(2) [OF demo_pipe_ok(1,2,5)] by blast
  obtain s where s: "s = (put_pipe q demo_big s4)\<lparr>wth := (wth s4)(0 := W_idle)\<rparr>" by blast
  have r5: "pstep s4 s" unfolding s
    by (rule write_fail) (use w(1) in \<open>simp_all add: s4 s3 s2 s1 psys_init_def\<close>)
  have "pstep\<^sup>*\<^sup>* ?s0 s" using r1 r2 r3 r4 r5 by (meson r_into_rtranclp rtranclp.rtrancl_into_rtrancl)
  moreover have "rth s 0 = R_sleep 1" "pipe_full (pp s)" "\<forall>i. wth s i = W_idle"
    using w(2) by (simp_all add: s s4 s3 s2 s1 psys_init_def put_pipe_def)
  ultimately show ?thesis by blast
qed

end
