(* ===== verification/Xv6_Kern.thy ===== *)
theory Xv6_Kern
  imports Xv6_Fs Xv6_Cow Xv6_Pipe
begin

text \<open>
  The kernel as a whole: the memory subsystem and the processes (\<open>kstate\<close>), the file system
  (\<open>fsys\<close>), the open files, the pipes and the clock. There is one buffer cache, the one of the
  memory subsystem; a file system operation runs on it and the wakeups it made are applied to the
  process table. The theory also holds the accesses of the kernel to user memory, with the page
  faults they take, and the argument fetching of \<open>syscall.c\<close>.
\<close>

section \<open>State\<close>

datatype ftype = FD_NONE | FD_PIPE | FD_INODE

record kfile =
  f_type :: ftype
  f_ref :: int
  readable :: bool
  writable :: bool
  f_pipe :: u32
  f_ip :: nat
  f_off :: u32

record kern =
  ks :: kstate
  fsy :: fsys
  ftable :: "nat \<Rightarrow> kfile"
  pipes :: "u32 \<Rightarrow> pipe"
  ticks :: u32

text \<open>What the linker fixes: the end of the kernel image, the start of its data, and the addresses
  \<open>trapret\<close> and \<open>forkret\<close> that new processes start from.\<close>

record linker =
  kend :: u32
  kdata :: u32
  trapret :: u32
  forkret_addr :: u32

definition wakeup1 :: "chan \<Rightarrow> kstate \<Rightarrow> kstate" where
  "wakeup1 ch s = s\<lparr>proctab := (\<lambda>i.
     if i < NPROC \<and> p_state (proctab s i) = SLEEPING \<and> p_chan (proctab s i) = Some ch
     then (proctab s i)\<lparr>p_state := RUNNABLE\<rparr> else proctab s i)\<rparr>"

definition wakeup :: "chan \<Rightarrow> kern \<Rightarrow> kern" where
  "wakeup ch k = k\<lparr>ks := wakeup1 ch (ks k)\<rparr>"

text \<open>Running an operation of one part on the whole.\<close>

definition on_ks :: "(kstate \<Rightarrow> ('a \<times> kstate) res) \<Rightarrow> kern \<Rightarrow> ('a \<times> kern) res" where
  "on_ks f k = rbind (f (ks k)) (\<lambda>(x, s). Inr (x, k\<lparr>ks := s\<rparr>))"

definition do_ks :: "(kstate \<Rightarrow> kstate res) \<Rightarrow> kern \<Rightarrow> kern res" where
  "do_ks f k = rbind (f (ks k)) (\<lambda>s. Inr (k\<lparr>ks := s\<rparr>))"

definition fs_of :: "kern \<Rightarrow> fsys" where
  "fs_of k = (fsy k)\<lparr>fb := bcache (ks k), fwoken := []\<rparr>"

definition put_fs :: "fsys \<Rightarrow> kern \<Rightarrow> kern" where
  "put_fs s k = fold wakeup (fwoken s) (k\<lparr>fsy := s\<lparr>fwoken := []\<rparr>, ks := (ks k)\<lparr>bcache := fb s\<rparr>\<rparr>)"

definition on_fs :: "(fsys \<Rightarrow> ('a \<times> fsys) res) \<Rightarrow> kern \<Rightarrow> ('a \<times> kern) res" where
  "on_fs f k = rbind (f (fs_of k)) (\<lambda>(x, s). Inr (x, put_fs s k))"

definition do_fs :: "(fsys \<Rightarrow> fsys res) \<Rightarrow> kern \<Rightarrow> kern res" where
  "do_fs f k = rbind (f (fs_of k)) (\<lambda>s. Inr (put_fs s k))"

text \<open>The running process, its table entry, and what the file system sees of it.\<close>

definition cur :: "kern \<Rightarrow> nat res" where
  "cur k = myproc (ks k)"

definition procof :: "nat \<Rightarrow> kern \<Rightarrow> proc" where
  "procof i k = proctab (ks k) i"

definition set_proc :: "nat \<Rightarrow> (proc \<Rightarrow> proc) \<Rightarrow> kern \<Rightarrow> kern" where
  "set_proc i f k = k\<lparr>ks := upd_proc i f (ks k)\<rparr>"

definition caller_of :: "nat \<Rightarrow> kern \<Rightarrow> caller" where
  "caller_of i k = \<lparr>c_pid = p_pid (procof i k), c_killed = p_killed (procof i k),
     c_cwd = (case p_cwd (procof i k) of Some ip \<Rightarrow> ip | None \<Rightarrow> NINODE)\<rparr>"

section \<open>User memory from the kernel\<close>

text \<open>A load or store through the page directory of the running process. An access the page table
  refuses traps, the fault handler runs, and the instruction is tried again. The kernel may access
  pages without \<open>PTE_U\<close> but, with \<open>CR0_WP\<close> set, not write to pages without \<open>PTE_W\<close>.\<close>

definition uload :: "linker \<Rightarrow> u32 \<Rightarrow> kern \<Rightarrow> (u8 \<times> kern) res" where
  "uload ln va k =
     rbind (cur k) (\<lambda>i.
     let d = p_pgdir (procof i k) in
     case uview (ram (ks k)) d va of
       Some b \<Rightarrow> Inr (b, k)
     | None \<Rightarrow>
         rbind (do_ks (handle_fage_fault (kend ln) va) k) (\<lambda>k.
         case uview (ram (ks k)) d va of
           Some b \<Rightarrow> Inr (b, k)
         | None \<Rightarrow> Inl (Fault ''user memory'')))"

definition kstore :: "u32 \<Rightarrow> u32 \<Rightarrow> u8 \<Rightarrow> kern \<Rightarrow> kern option" where
  "kstore d va b k =
     (let m = ram (ks k) in
      if umap m d va \<and> pteval m d va AND PTE_W \<noteq> 0
      then Some (k\<lparr>ks := (ks k)\<lparr>ram := m(upage m d va + PTE_FLAGS va := b)\<rparr>\<rparr>) else None)"

definition ustore :: "linker \<Rightarrow> u32 \<Rightarrow> u8 \<Rightarrow> kern \<Rightarrow> kern res" where
  "ustore ln va b k =
     rbind (cur k) (\<lambda>i.
     let d = p_pgdir (procof i k) in
     case kstore d va b k of
       Some k \<Rightarrow> Inr k
     | None \<Rightarrow>
         rbind (do_ks (handle_fage_fault (kend ln) va) k) (\<lambda>k.
         case kstore d va b k of
           Some k \<Rightarrow> Inr k
         | None \<Rightarrow> Inl (Fault ''user memory'')))"

fun uloads :: "linker \<Rightarrow> u32 \<Rightarrow> nat \<Rightarrow> kern \<Rightarrow> (u8 list \<times> kern) res" where
  "uloads ln va 0 k = Inr ([], k)"
| "uloads ln va (Suc n) k =
     rbind (uload ln va k) (\<lambda>(b, k).
     rbind (uloads ln (va + 1) n k) (\<lambda>(bs, k).
     Inr (b # bs, k)))"

fun ustores :: "linker \<Rightarrow> u32 \<Rightarrow> u8 list \<Rightarrow> kern \<Rightarrow> kern res" where
  "ustores ln va [] k = Inr k"
| "ustores ln va (b # bs) k = rbind (ustore ln va b k) (ustores ln (va + 1) bs)"

section \<open>System call arguments (\<open>syscall.c\<close>)\<close>

text \<open>Offsets of \<open>struct trapframe\<close>.\<close>

definition TF_eax :: u32 where "TF_eax = 28"
definition TF_trapno :: u32 where "TF_trapno = 48"
definition TF_eip :: u32 where "TF_eip = 56"
definition TF_cs :: u32 where "TF_cs = 60"
definition TF_esp :: u32 where "TF_esp = 68"
definition TF_size :: nat where "TF_size = 76"

definition tf_get :: "nat \<Rightarrow> u32 \<Rightarrow> kern \<Rightarrow> u32" where
  "tf_get i off k = ld32 (ram (ks k)) (p_tf (procof i k) + off)"

definition tf_put :: "nat \<Rightarrow> u32 \<Rightarrow> u32 \<Rightarrow> kern \<Rightarrow> kern" where
  "tf_put i off v k = k\<lparr>ks := poke (p_tf (procof i k) + off) v (ks k)\<rparr>"

definition fetchint :: "linker \<Rightarrow> u32 \<Rightarrow> kern \<Rightarrow> (u32 option \<times> kern) res" where
  "fetchint ln addr k =
     rbind (cur k) (\<lambda>i.
     let sz = p_sz (procof i k) in
     if addr \<ge> sz \<or> addr + 4 > sz then Inr (None, k)
     else rbind (uloads ln addr 4 k) (\<lambda>(bs, k). Inr (Some (get32 bs 0), k)))"

text \<open>The search for the NUL, with \<open>n\<close> bytes left below the size of the process.\<close>

fun fetchstr_loop :: "linker \<Rightarrow> u32 \<Rightarrow> nat \<Rightarrow> kern \<Rightarrow> (u8 list option \<times> kern) res" where
  "fetchstr_loop ln s 0 k = Inr (None, k)"
| "fetchstr_loop ln s (Suc n) k =
     rbind (uload ln s k) (\<lambda>(b, k).
     if b = 0 then Inr (Some [], k)
     else rbind (fetchstr_loop ln (s + 1) n k) (\<lambda>(r, k). Inr (map_option ((#) b) r, k)))"

definition fetchstr :: "linker \<Rightarrow> u32 \<Rightarrow> kern \<Rightarrow> (u8 list option \<times> kern) res" where
  "fetchstr ln addr k =
     rbind (cur k) (\<lambda>i.
     let sz = p_sz (procof i k) in
     if addr \<ge> sz then Inr (None, k) else fetchstr_loop ln addr (unat (sz - addr)) k)"

definition argint :: "linker \<Rightarrow> nat \<Rightarrow> kern \<Rightarrow> (u32 option \<times> kern) res" where
  "argint ln n k =
     rbind (cur k) (\<lambda>i. fetchint ln (tf_get i TF_esp k + 4 + 4 * of_nat n) k)"

definition argptr :: "linker \<Rightarrow> nat \<Rightarrow> u32 \<Rightarrow> kern \<Rightarrow> (u32 option \<times> kern) res" where
  "argptr ln n sz k =
     rbind (cur k) (\<lambda>p.
     rbind (argint ln n k) (\<lambda>(r, k).
     case r of
       None \<Rightarrow> Inr (None, k)
     | Some i \<Rightarrow>
         let psz = p_sz (procof p k) in
         if sint sz < 0 \<or> i \<ge> psz \<or> i + sz > psz then Inr (None, k) else Inr (Some i, k)))"

definition argstr :: "linker \<Rightarrow> nat \<Rightarrow> kern \<Rightarrow> (u8 list option \<times> kern) res" where
  "argstr ln n k =
     rbind (argint ln n k) (\<lambda>(r, k).
     case r of None \<Rightarrow> Inr (None, k) | Some addr \<Rightarrow> fetchstr ln addr k)"

end
