(* ===== verification/Xv6_File.thy ===== *)
theory Xv6_File
  imports Xv6_Kern
begin

text \<open>
  Open files (\<open>file.c\<close>) and the rest of \<open>pipe.c\<close>. A file pointer is an index of \<open>ftable\<close>, a
  pipe is named by the address of its page. Reads return the bytes that the source copies to the
  user's buffer and writes take the bytes of that buffer; \<open>None\<close> stands for \<open>-1\<close>.
\<close>

section \<open>Files\<close>

definition upd_file :: "nat \<Rightarrow> (kfile \<Rightarrow> kfile) \<Rightarrow> kern \<Rightarrow> kern" where
  "upd_file f g k = k\<lparr>ftable := (ftable k)(f := g (ftable k f))\<rparr>"

definition upd_pipe :: "u32 \<Rightarrow> pipe \<Rightarrow> kern \<Rightarrow> kern" where
  "upd_pipe a p k = k\<lparr>pipes := (pipes k)(a := p)\<rparr>"

definition filealloc :: "kern \<Rightarrow> nat option \<times> kern" where
  "filealloc k =
     (case first_index (\<lambda>f. f_ref (ftable k f) = 0) [0..<NFILE] of
        Some f \<Rightarrow> (Some f, upd_file f (\<lambda>x. x\<lparr>f_ref := 1\<rparr>) k)
      | None \<Rightarrow> (None, k))"

definition filedup :: "nat \<Rightarrow> kern \<Rightarrow> kern res" where
  "filedup f k =
     (if f_ref (ftable k f) < 1 then Inl (Panic ''filedup'')
      else Inr (upd_file f (\<lambda>x. x\<lparr>f_ref := f_ref x + 1\<rparr>) k))"

text \<open>\<open>pipeclose\<close> with the wakeup and the freeing of the page.\<close>

definition close_pipe :: "linker \<Rightarrow> u32 \<Rightarrow> bool \<Rightarrow> kern \<Rightarrow> kern res" where
  "close_pipe ln a w k =
     (let (fin, p) = pipeclose w (pipes k a);
          k = wakeup (if w then Ch_nread (unat a) else Ch_nwrite (unat a)) (upd_pipe a p k)
      in if fin then do_ks (kfree (kend ln) a) k else Inr k)"

definition fileclose :: "linker \<Rightarrow> nat \<Rightarrow> kern \<Rightarrow> kern res" where
  "fileclose ln f k =
     (if f_ref (ftable k f) < 1 then Inl (Panic ''fileclose'')
      else
        let k = upd_file f (\<lambda>x. x\<lparr>f_ref := f_ref x - 1\<rparr>) k in
        if f_ref (ftable k f) > 0 then Inr k
        else
          let ff = ftable k f; k = upd_file f (\<lambda>x. x\<lparr>f_ref := 0, f_type := FD_NONE\<rparr>) k in
          case f_type ff of
            FD_PIPE \<Rightarrow> close_pipe ln (f_pipe ff) (writable ff) k
          | FD_INODE \<Rightarrow>
              rbind (cur k) (\<lambda>i.
              let me = p_pid (procof i k) in
              rbind (do_fs begin_op k) (\<lambda>k.
              rbind (do_fs (iput me (f_ip ff)) k) (\<lambda>k.
              do_fs (end_op me) k)))
          | FD_NONE \<Rightarrow> Inr k)"

definition filestat :: "nat \<Rightarrow> kern \<Rightarrow> (stat option \<times> kern) res" where
  "filestat f k =
     (if f_type (ftable k f) = FD_INODE then
        rbind (cur k) (\<lambda>i.
        let me = p_pid (procof i k); ip = f_ip (ftable k f) in
        rbind (do_fs (ilock me ip) k) (\<lambda>k.
        let st = stati ip (fs_of k) in
        rbind (do_fs (iunlock me ip) k) (\<lambda>k.
        Inr (Some st, k))))
      else Inr (None, k))"

text \<open>\<open>piperead\<close> and \<open>pipewrite\<close> with their wakeups; one that has to wait ends in \<open>Sleeps\<close>.\<close>

definition read_pipe :: "u32 \<Rightarrow> nat \<Rightarrow> kern \<Rightarrow> (u8 list option \<times> kern) res" where
  "read_pipe a n k =
     rbind (cur k) (\<lambda>i.
     case piperead (p_killed (procof i k)) n (pipes k a) of
       (R_done bs, p) \<Rightarrow> Inr (Some bs, wakeup (Ch_nwrite (unat a)) (upd_pipe a p k))
     | (R_fail, p) \<Rightarrow> Inr (None, k)
     | (R_wait, p) \<Rightarrow> Inl (Sleeps ''piperead''))"

definition write_pipe :: "u32 \<Rightarrow> u8 list \<Rightarrow> kern \<Rightarrow> (nat option \<times> kern) res" where
  "write_pipe a bs k =
     rbind (cur k) (\<lambda>i.
     case pipewrite (p_killed (procof i k)) bs (pipes k a) of
       (W_done, p) \<Rightarrow> Inr (Some (length bs), wakeup (Ch_nread (unat a)) (upd_pipe a p k))
     | (W_fail, p) \<Rightarrow> Inr (None, upd_pipe a p k)
     | (W_wait rest, p) \<Rightarrow> Inl (Sleeps ''pipewrite''))"

definition fileread :: "nat \<Rightarrow> u32 \<Rightarrow> kern \<Rightarrow> (u8 list option \<times> kern) res" where
  "fileread f n k =
     (let ff = ftable k f in
      if \<not> readable ff then Inr (None, k)
      else case f_type ff of
        FD_PIPE \<Rightarrow> read_pipe (f_pipe ff) (nat (sint n)) k
      | FD_INODE \<Rightarrow>
          rbind (cur k) (\<lambda>i.
          let c = caller_of i k; ip = f_ip ff in
          rbind (do_fs (ilock (c_pid c) ip) k) (\<lambda>k.
          rbind (on_fs (readi c ip (f_off ff) n) k) (\<lambda>(r, k).
          let k = (case r of Some bs \<Rightarrow> upd_file f (\<lambda>x. x\<lparr>f_off := f_off x + of_nat (length bs)\<rparr>) k | None \<Rightarrow> k) in
          rbind (do_fs (iunlock (c_pid c) ip) k) (\<lambda>k.
          Inr (r, k)))))
      | FD_NONE \<Rightarrow> Inl (Panic ''fileread''))"

text \<open>The bytes one transaction of \<open>filewrite\<close> writes at most.\<close>

definition WRITEMAX :: nat where "WRITEMAX = (MAXOPBLOCKS - 1 - 1 - 2) div 2 * 512"

text \<open>The loop, with the bytes still to write; the result says whether all were written.\<close>

function filewrite_loop :: "nat \<Rightarrow> u8 list \<Rightarrow> kern \<Rightarrow> (bool \<times> kern) res" where
  "filewrite_loop f bs k =
     (if bs = [] then Inr (True, k)
      else
        rbind (cur k) (\<lambda>i.
        let c = caller_of i k; ip = f_ip (ftable k f); n1 = min (length bs) WRITEMAX in
        rbind (do_fs begin_op k) (\<lambda>k.
        rbind (do_fs (ilock (c_pid c) ip) k) (\<lambda>k.
        rbind (on_fs (writei c ip ((!) bs) (f_off (ftable k f)) (of_nat n1)) k) (\<lambda>(r, k).
        let k = (case r of Some m \<Rightarrow> upd_file f (\<lambda>x. x\<lparr>f_off := f_off x + m\<rparr>) k | None \<Rightarrow> k) in
        rbind (do_fs (iunlock (c_pid c) ip) k) (\<lambda>k.
        rbind (do_fs (end_op (c_pid c)) k) (\<lambda>k.
        case r of
          None \<Rightarrow> Inr (False, k)
        | Some m \<Rightarrow>
            if m \<noteq> of_nat n1 then Inl (Panic ''short filewrite'')
            else filewrite_loop f (drop n1 bs) k)))))))"
  by pat_completeness auto
termination
  by (relation "measure (\<lambda>(f, bs, k). length bs)") (auto simp: WRITEMAX_def MAXOPBLOCKS_def)

definition filewrite :: "nat \<Rightarrow> u8 list \<Rightarrow> kern \<Rightarrow> (nat option \<times> kern) res" where
  "filewrite f bs k =
     (let ff = ftable k f in
      if \<not> writable ff then Inr (None, k)
      else case f_type ff of
        FD_PIPE \<Rightarrow> write_pipe (f_pipe ff) bs k
      | FD_INODE \<Rightarrow>
          rbind (filewrite_loop f bs k) (\<lambda>(ok, k).
          Inr (if ok then Some (length bs) else None, k))
      | FD_NONE \<Rightarrow> Inl (Panic ''filewrite''))"

lemmas [simp del] = filewrite_loop.simps

section \<open>Making a pipe\<close>

text \<open>The two ends, or \<open>None\<close> if a file or the page is missing; then what was allocated is given
  back. The data of the new pipe is what its page held.\<close>

definition pipealloc :: "linker \<Rightarrow> kern \<Rightarrow> ((nat \<times> nat) option \<times> kern) res" where
  "pipealloc ln k =
     (case filealloc k of
        (None, k) \<Rightarrow> Inr (None, k)
      | (Some f0, k) \<Rightarrow>
          (case filealloc k of
             (None, k) \<Rightarrow> rbind (fileclose ln f0 k) (\<lambda>k. Inr (None, k))
           | (Some f1, k) \<Rightarrow>
               rbind (on_ks (kalloc (kend ln)) k) (\<lambda>(p, k).
               if p = 0 then
                 rbind (fileclose ln f0 k) (\<lambda>k.
                 rbind (fileclose ln f1 k) (\<lambda>k. Inr (None, k)))
               else
                 let k = upd_pipe p (new_pipe (mread (ram (ks k)) (p + 52) PIPESIZE)) k;
                     k = upd_file f0 (\<lambda>x. x\<lparr>f_type := FD_PIPE, readable := True, writable := False, f_pipe := p\<rparr>) k;
                     k = upd_file f1 (\<lambda>x. x\<lparr>f_type := FD_PIPE, readable := False, writable := True, f_pipe := p\<rparr>) k
                 in Inr (Some (f0, f1), k))))"

end
