(* ===== verification/Xv6_Sysfile.thy ===== *)
theory Xv6_Sysfile
  imports Xv6_File
begin

text \<open>
  The file system calls (\<open>sysfile.c\<close>). Every call returns the value for \<open>%eax\<close>, with \<open>- 1\<close> for
  an error. Strings are fetched from user memory as their bytes when the argument is checked, the
  source of a write is read before the call and the result of a read is stored after it.
\<close>

section \<open>Descriptors\<close>

definition argfd :: "linker \<Rightarrow> nat \<Rightarrow> kern \<Rightarrow> ((nat \<times> nat) option \<times> kern) res" where
  "argfd ln n k =
     rbind (argint ln n k) (\<lambda>(r, k).
     case r of
       None \<Rightarrow> Inr (None, k)
     | Some fd \<Rightarrow>
         rbind (cur k) (\<lambda>i.
         if sint fd < 0 \<or> sint fd \<ge> int NOFILE then Inr (None, k)
         else case p_ofile (procof i k) ! unat fd of
           None \<Rightarrow> Inr (None, k)
         | Some f \<Rightarrow> Inr (Some (unat fd, f), k)))"

definition fdalloc :: "nat \<Rightarrow> kern \<Rightarrow> (nat option \<times> kern) res" where
  "fdalloc f k =
     rbind (cur k) (\<lambda>i.
     case first_index (\<lambda>fd. p_ofile (procof i k) ! fd = None) [0..<NOFILE] of
       Some fd \<Rightarrow> Inr (Some fd, set_proc i (\<lambda>p. p\<lparr>p_ofile := (p_ofile p)[fd := Some f]\<rparr>) k)
     | None \<Rightarrow> Inr (None, k))"

definition sys_dup :: "linker \<Rightarrow> kern \<Rightarrow> (u32 \<times> kern) res" where
  "sys_dup ln k =
     rbind (argfd ln 0 k) (\<lambda>(r, k).
     case r of
       None \<Rightarrow> Inr (- 1, k)
     | Some (_, f) \<Rightarrow>
         rbind (fdalloc f k) (\<lambda>(fd, k).
         case fd of
           None \<Rightarrow> Inr (- 1, k)
         | Some fd \<Rightarrow> rbind (filedup f k) (\<lambda>k. Inr (of_nat fd, k))))"

text \<open>The arguments that \<open>sys_read\<close> and \<open>sys_write\<close> share: the file, the buffer and its length.\<close>

definition arg_rw :: "linker \<Rightarrow> kern \<Rightarrow> ((nat \<times> u32 \<times> u32) option \<times> kern) res" where
  "arg_rw ln k =
     rbind (argfd ln 0 k) (\<lambda>(r, k).
     case r of
       None \<Rightarrow> Inr (None, k)
     | Some (_, f) \<Rightarrow>
         rbind (argint ln 2 k) (\<lambda>(r, k).
         case r of
           None \<Rightarrow> Inr (None, k)
         | Some n \<Rightarrow>
             rbind (argptr ln 1 n k) (\<lambda>(r, k).
             Inr (map_option (\<lambda>p. (f, p, n)) r, k))))"

definition sys_read :: "linker \<Rightarrow> kern \<Rightarrow> (u32 \<times> kern) res" where
  "sys_read ln k =
     rbind (arg_rw ln k) (\<lambda>(r, k).
     case r of
       None \<Rightarrow> Inr (- 1, k)
     | Some (f, p, n) \<Rightarrow>
         rbind (fileread f n k) (\<lambda>(r, k).
         case r of
           None \<Rightarrow> Inr (- 1, k)
         | Some bs \<Rightarrow> rbind (ustores ln p bs k) (\<lambda>k. Inr (of_nat (length bs), k))))"

definition sys_write :: "linker \<Rightarrow> kern \<Rightarrow> (u32 \<times> kern) res" where
  "sys_write ln k =
     rbind (arg_rw ln k) (\<lambda>(r, k).
     case r of
       None \<Rightarrow> Inr (- 1, k)
     | Some (f, p, n) \<Rightarrow>
         rbind (uloads ln p (unat n) k) (\<lambda>(bs, k).
         rbind (filewrite f bs k) (\<lambda>(r, k).
         Inr (case r of None \<Rightarrow> - 1 | Some m \<Rightarrow> of_nat m, k))))"

definition sys_close :: "linker \<Rightarrow> kern \<Rightarrow> (u32 \<times> kern) res" where
  "sys_close ln k =
     rbind (argfd ln 0 k) (\<lambda>(r, k).
     case r of
       None \<Rightarrow> Inr (- 1, k)
     | Some (fd, f) \<Rightarrow>
         rbind (cur k) (\<lambda>i.
         rbind (fileclose ln f (set_proc i (\<lambda>p. p\<lparr>p_ofile := (p_ofile p)[fd := None]\<rparr>) k)) (\<lambda>k.
         Inr (0, k))))"

text \<open>\<open>struct stat\<close> in memory.\<close>

definition stat_bytes :: "stat \<Rightarrow> u8 list" where
  "stat_bytes st = put32 16 (st_size st) (put16 12 (st_nlink st) (put32 8 (st_ino st)
     (put32 4 (st_dev st) (put16 0 (st_type st) (replicate 20 0)))))"

definition sys_fstat :: "linker \<Rightarrow> kern \<Rightarrow> (u32 \<times> kern) res" where
  "sys_fstat ln k =
     rbind (argfd ln 0 k) (\<lambda>(r, k).
     case r of
       None \<Rightarrow> Inr (- 1, k)
     | Some (_, f) \<Rightarrow>
         rbind (argptr ln 1 20 k) (\<lambda>(r, k).
         case r of
           None \<Rightarrow> Inr (- 1, k)
         | Some a \<Rightarrow>
             rbind (filestat f k) (\<lambda>(r, k).
             case r of
               None \<Rightarrow> Inr (- 1, k)
             | Some st \<Rightarrow> rbind (ustores ln a (stat_bytes st) k) (\<lambda>k. Inr (0, k)))))"

section \<open>Links\<close>

text \<open>\<open>begin_op\<close>, an operation of the file system for the running process, and \<open>end_op\<close>.\<close>

definition op_fs :: "(caller \<Rightarrow> fsys \<Rightarrow> ('a \<times> fsys) res) \<Rightarrow> kern \<Rightarrow> ('a \<times> kern) res" where
  "op_fs f k =
     rbind (cur k) (\<lambda>i.
     rbind (do_fs begin_op k) (\<lambda>k.
     rbind (on_fs (f (caller_of i k)) k) (\<lambda>(r, k).
     rbind (do_fs (end_op (p_pid (procof i k))) k) (\<lambda>k.
     Inr (r, k)))))"

text \<open>The part at label \<open>bad\<close>: take the link count of \<open>ip\<close> back.\<close>

definition link_undo :: "u32 \<Rightarrow> nat \<Rightarrow> fsys \<Rightarrow> (u32 \<times> fsys) res" where
  "link_undo me ip s =
     rbind (ilock me ip s) (\<lambda>s.
     rbind (iupdate me ip (upd_inode ip (\<lambda>x. x\<lparr>i_nlink := i_nlink x - 1\<rparr>) s)) (\<lambda>s.
     rbind (iunlockput me ip s) (\<lambda>s. Inr (- 1, s))))"

definition link_op :: "u8 list \<Rightarrow> u8 list \<Rightarrow> caller \<Rightarrow> fsys \<Rightarrow> (u32 \<times> fsys) res" where
  "link_op old new c s =
     (let me = c_pid c in
      rbind (namei c old s) (\<lambda>(r, s).
      case r of
        None \<Rightarrow> Inr (- 1, s)
      | Some ip \<Rightarrow>
          rbind (ilock me ip s) (\<lambda>s.
          if i_type (icache s ip) = T_DIR then rbind (iunlockput me ip s) (\<lambda>s. Inr (- 1, s))
          else
            rbind (iupdate me ip (upd_inode ip (\<lambda>x. x\<lparr>i_nlink := i_nlink x + 1\<rparr>) s)) (\<lambda>s.
            rbind (iunlock me ip s) (\<lambda>s.
            rbind (nameiparent c new (replicate DIRSIZ 0) s) (\<lambda>((r, name), s).
            case r of
              None \<Rightarrow> link_undo me ip s
            | Some dp \<Rightarrow>
                rbind (ilock me dp s) (\<lambda>s.
                rbind (if i_dev (icache s dp) \<noteq> i_dev (icache s ip) then Inr (False, s)
                       else dirlink c dp name (i_inum (icache s ip)) s) (\<lambda>(linked, s).
                rbind (iunlockput me dp s) (\<lambda>s.
                if linked then rbind (iput me ip s) (\<lambda>s. Inr (0, s))
                else link_undo me ip s)))))))))"

definition sys_link :: "linker \<Rightarrow> kern \<Rightarrow> (u32 \<times> kern) res" where
  "sys_link ln k =
     rbind (argstr ln 0 k) (\<lambda>(old, k).
     case old of
       None \<Rightarrow> Inr (- 1, k)
     | Some old \<Rightarrow>
         rbind (argstr ln 1 k) (\<lambda>(new, k).
         case new of None \<Rightarrow> Inr (- 1, k) | Some new \<Rightarrow> op_fs (link_op old new) k))"

text \<open>The loop of \<open>isdirempty\<close> over the entries after \<open>.\<close> and \<open>..\<close>.\<close>

fun isdirempty_loop :: "caller \<Rightarrow> nat \<Rightarrow> nat list \<Rightarrow> fsys \<Rightarrow> (bool \<times> fsys) res" where
  "isdirempty_loop c dp [] s = Inr (True, s)"
| "isdirempty_loop c dp (off # offs) s =
     rbind (readi c dp (of_nat off) (of_nat DIRENT) s) (\<lambda>(r, s).
     case r of
       None \<Rightarrow> Inl (Panic ''isdirempty: readi'')
     | Some de \<Rightarrow>
         if length de \<noteq> DIRENT then Inl (Panic ''isdirempty: readi'')
         else if get16 de 0 \<noteq> 0 then Inr (False, s)
         else isdirempty_loop c dp offs s)"

definition isdirempty :: "caller \<Rightarrow> nat \<Rightarrow> fsys \<Rightarrow> (bool \<times> fsys) res" where
  "isdirempty c dp s = isdirempty_loop c dp (drop 2 (dir_offs (i_size (icache s dp)))) s"

definition unlink_op :: "u8 list \<Rightarrow> caller \<Rightarrow> fsys \<Rightarrow> (u32 \<times> fsys) res" where
  "unlink_op path c s =
     (let me = c_pid c; bad = (\<lambda>dp s. rbind (iunlockput me dp s) (\<lambda>s. Inr (- 1, s))) in
      rbind (nameiparent c path (replicate DIRSIZ 0) s) (\<lambda>((r, name), s).
      case r of
        None \<Rightarrow> Inr (- 1, s)
      | Some dp \<Rightarrow>
          rbind (ilock me dp s) (\<lambda>s.
          if namecmp name (0x2E # replicate 13 0) = 0 \<or> namecmp name (0x2E # 0x2E # replicate 12 0) = 0 then bad dp s
          else
            rbind (dirlookup c dp name s) (\<lambda>(r, s).
            case r of
              None \<Rightarrow> bad dp s
            | Some (ip, off) \<Rightarrow>
                rbind (ilock me ip s) (\<lambda>s.
                if sint (i_nlink (icache s ip)) < 1 then Inl (Panic ''unlink: nlink < 1'')
                else
                  rbind (if i_type (icache s ip) = T_DIR then isdirempty c ip s else Inr (True, s)) (\<lambda>(e, s).
                  if \<not> e then rbind (iunlockput me ip s) (bad dp)
                  else
                    rbind (writei c dp (\<lambda>_. 0) (of_nat off) (of_nat DIRENT) s) (\<lambda>(r, s).
                    if r \<noteq> Some (of_nat DIRENT) then Inl (Panic ''unlink: writei'')
                    else
                      rbind (if i_type (icache s ip) = T_DIR
                             then iupdate me dp (upd_inode dp (\<lambda>x. x\<lparr>i_nlink := i_nlink x - 1\<rparr>) s) else Inr s) (\<lambda>s.
                      rbind (iunlockput me dp s) (\<lambda>s.
                      rbind (iupdate me ip (upd_inode ip (\<lambda>x. x\<lparr>i_nlink := i_nlink x - 1\<rparr>) s)) (\<lambda>s.
                      rbind (iunlockput me ip s) (\<lambda>s. Inr (0, s))))))))))))"

definition sys_unlink :: "linker \<Rightarrow> kern \<Rightarrow> (u32 \<times> kern) res" where
  "sys_unlink ln k =
     rbind (argstr ln 0 k) (\<lambda>(path, k).
     case path of None \<Rightarrow> Inr (- 1, k) | Some path \<Rightarrow> op_fs (unlink_op path) k)"

section \<open>Creating and opening\<close>

text \<open>\<open>create\<close> returns the new inode locked.\<close>

definition create :: "caller \<Rightarrow> u8 list \<Rightarrow> u16 \<Rightarrow> u16 \<Rightarrow> u16 \<Rightarrow> fsys \<Rightarrow> (nat option \<times> fsys) res" where
  "create c path ty major minor s =
     (let me = c_pid c in
      rbind (nameiparent c path (replicate DIRSIZ 0) s) (\<lambda>((r, name), s).
      case r of
        None \<Rightarrow> Inr (None, s)
      | Some dp \<Rightarrow>
          rbind (ilock me dp s) (\<lambda>s.
          rbind (dirlookup c dp name s) (\<lambda>(r, s).
          case r of
            Some (ip, _) \<Rightarrow>
              rbind (iunlockput me dp s) (\<lambda>s.
              rbind (ilock me ip s) (\<lambda>s.
              if ty = T_FILE \<and> i_type (icache s ip) = T_FILE then Inr (Some ip, s)
              else rbind (iunlockput me ip s) (\<lambda>s. Inr (None, s))))
          | None \<Rightarrow>
              rbind (ialloc me (i_dev (icache s dp)) ty s) (\<lambda>(ip, s).
              rbind (ilock me ip s) (\<lambda>s.
              rbind (iupdate me ip (upd_inode ip (\<lambda>x. x\<lparr>i_major := major, i_minor := minor, i_nlink := 1\<rparr>) s)) (\<lambda>s.
              rbind (if ty = T_DIR then
                       rbind (iupdate me dp (upd_inode dp (\<lambda>x. x\<lparr>i_nlink := i_nlink x + 1\<rparr>) s)) (\<lambda>s.
                       rbind (dirlink c ip (0x2E # replicate 13 0) (i_inum (icache s ip)) s) (\<lambda>(ok, s).
                       if \<not> ok then Inl (Panic ''create dots'')
                       else
                         rbind (dirlink c ip (0x2E # 0x2E # replicate 12 0) (i_inum (icache s dp)) s) (\<lambda>(ok, s).
                         if \<not> ok then Inl (Panic ''create dots'') else Inr s)))
                     else Inr s) (\<lambda>s.
              rbind (dirlink c dp name (i_inum (icache s ip)) s) (\<lambda>(ok, s).
              if \<not> ok then Inl (Panic ''create: dirlink'')
              else rbind (iunlockput me dp s) (\<lambda>s. Inr (Some ip, s)))))))))))"

definition O_WRONLY :: u32 where "O_WRONLY = 0x001"
definition O_RDWR :: u32 where "O_RDWR = 0x002"
definition O_CREATE :: u32 where "O_CREATE = 0x200"

text \<open>The first half of \<open>sys_open\<close>: the inode, locked.\<close>

definition open_inode :: "u8 list \<Rightarrow> u32 \<Rightarrow> caller \<Rightarrow> fsys \<Rightarrow> (nat option \<times> fsys) res" where
  "open_inode path omode c s =
     (if omode AND O_CREATE \<noteq> 0 then create c path T_FILE 0 0 s
      else
        rbind (namei c path s) (\<lambda>(r, s).
        case r of
          None \<Rightarrow> Inr (None, s)
        | Some ip \<Rightarrow>
            rbind (ilock (c_pid c) ip s) (\<lambda>s.
            if i_type (icache s ip) = T_DIR \<and> omode \<noteq> 0 then
              rbind (iunlockput (c_pid c) ip s) (\<lambda>s. Inr (None, s))
            else Inr (Some ip, s))))"

definition sys_open :: "linker \<Rightarrow> kern \<Rightarrow> (u32 \<times> kern) res" where
  "sys_open ln k =
     rbind (argstr ln 0 k) (\<lambda>(path, k).
     case path of
       None \<Rightarrow> Inr (- 1, k)
     | Some path \<Rightarrow>
         rbind (argint ln 1 k) (\<lambda>(om, k).
         case om of
           None \<Rightarrow> Inr (- 1, k)
         | Some omode \<Rightarrow>
             rbind (cur k) (\<lambda>i.
             let c = caller_of i k; me = c_pid c in
             rbind (do_fs begin_op k) (\<lambda>k.
             rbind (on_fs (open_inode path omode c) k) (\<lambda>(r, k).
             case r of
               None \<Rightarrow> rbind (do_fs (end_op me) k) (\<lambda>k. Inr (- 1, k))
             | Some ip \<Rightarrow>
                 let bad = (\<lambda>k. rbind (do_fs (iunlockput me ip) k) (\<lambda>k.
                                 rbind (do_fs (end_op me) k) (\<lambda>k. Inr (- 1, k)))) in
                 (case filealloc k of
                    (None, k) \<Rightarrow> bad k
                  | (Some f, k) \<Rightarrow>
                      rbind (fdalloc f k) (\<lambda>(r, k).
                      case r of
                        None \<Rightarrow> rbind (fileclose ln f k) bad
                      | Some fd \<Rightarrow>
                          rbind (do_fs (iunlock me ip) k) (\<lambda>k.
                          rbind (do_fs (end_op me) k) (\<lambda>k.
                          Inr (of_nat fd, upd_file f (\<lambda>x. x\<lparr>f_type := FD_INODE, f_ip := ip, f_off := 0,
                            readable := (omode AND O_WRONLY = 0),
                            writable := (omode AND O_WRONLY \<noteq> 0 \<or> omode AND O_RDWR \<noteq> 0)\<rparr>) k))))))))))"

text \<open>\<open>sys_mkdir\<close> and \<open>sys_mknod\<close> after their arguments.\<close>

definition create_op :: "u8 list \<Rightarrow> u16 \<Rightarrow> u16 \<Rightarrow> u16 \<Rightarrow> caller \<Rightarrow> fsys \<Rightarrow> (u32 \<times> fsys) res" where
  "create_op path ty major minor c s =
     rbind (create c path ty major minor s) (\<lambda>(r, s).
     case r of
       None \<Rightarrow> Inr (- 1, s)
     | Some ip \<Rightarrow> rbind (iunlockput (c_pid c) ip s) (\<lambda>s. Inr (0, s)))"

text \<open>Both check their arguments after \<open>begin_op\<close>; an error ends the transaction.\<close>

definition in_op :: "(kern \<Rightarrow> (u32 \<times> kern) res) \<Rightarrow> kern \<Rightarrow> (u32 \<times> kern) res" where
  "in_op f k =
     rbind (cur k) (\<lambda>i.
     rbind (do_fs begin_op k) (\<lambda>k.
     rbind (f k) (\<lambda>(r, k).
     rbind (do_fs (end_op (p_pid (procof i k))) k) (\<lambda>k.
     Inr (r, k)))))"

definition sys_mkdir :: "linker \<Rightarrow> kern \<Rightarrow> (u32 \<times> kern) res" where
  "sys_mkdir ln = in_op (\<lambda>k.
     rbind (argstr ln 0 k) (\<lambda>(path, k).
     case path of
       None \<Rightarrow> Inr (- 1, k)
     | Some path \<Rightarrow> rbind (cur k) (\<lambda>i. on_fs (create_op path T_DIR 0 0 (caller_of i k)) k)))"

definition sys_mknod :: "linker \<Rightarrow> kern \<Rightarrow> (u32 \<times> kern) res" where
  "sys_mknod ln = in_op (\<lambda>k.
     rbind (argstr ln 0 k) (\<lambda>(path, k).
     case path of
       None \<Rightarrow> Inr (- 1, k)
     | Some path \<Rightarrow>
         rbind (argint ln 1 k) (\<lambda>(major, k).
         case major of
           None \<Rightarrow> Inr (- 1, k)
         | Some major \<Rightarrow>
             rbind (argint ln 2 k) (\<lambda>(minor, k).
             case minor of
               None \<Rightarrow> Inr (- 1, k)
             | Some minor \<Rightarrow>
                 rbind (cur k) (\<lambda>i. on_fs (create_op path T_DEV (ucast major) (ucast minor) (caller_of i k)) k)))))"

text \<open>\<open>chdir_op\<close> is \<open>sys_chdir\<close> up to the assignment of \<open>cwd\<close>; \<open>old\<close> is the previous one.\<close>

definition chdir_op :: "u8 list \<Rightarrow> nat \<Rightarrow> caller \<Rightarrow> fsys \<Rightarrow> (nat option \<times> fsys) res" where
  "chdir_op path old c s =
     (let me = c_pid c in
      rbind (namei c path s) (\<lambda>(r, s).
      case r of
        None \<Rightarrow> Inr (None, s)
      | Some ip \<Rightarrow>
          rbind (ilock me ip s) (\<lambda>s.
          if i_type (icache s ip) \<noteq> T_DIR then rbind (iunlockput me ip s) (\<lambda>s. Inr (None, s))
          else
            rbind (iunlock me ip s) (\<lambda>s.
            rbind (iput me old s) (\<lambda>s.
            Inr (Some ip, s))))))"

definition sys_chdir :: "linker \<Rightarrow> kern \<Rightarrow> (u32 \<times> kern) res" where
  "sys_chdir ln k =
     rbind (cur k) (\<lambda>i.
     rbind (do_fs begin_op k) (\<lambda>k.
     rbind (argstr ln 0 k) (\<lambda>(path, k).
     rbind (case path of
              None \<Rightarrow> Inr (None, k)
            | Some path \<Rightarrow>
                let c = caller_of i k in on_fs (chdir_op path (c_cwd c) c) k) (\<lambda>(r, k).
     rbind (do_fs (end_op (p_pid (procof i k))) k) (\<lambda>k.
     case r of
       None \<Rightarrow> Inr (- 1, k)
     | Some ip \<Rightarrow> Inr (0, set_proc i (\<lambda>p. p\<lparr>p_cwd := Some ip\<rparr>) k))))))"

definition sys_pipe :: "linker \<Rightarrow> kern \<Rightarrow> (u32 \<times> kern) res" where
  "sys_pipe ln k =
     rbind (argptr ln 0 8 k) (\<lambda>(r, k).
     case r of
       None \<Rightarrow> Inr (- 1, k)
     | Some fdp \<Rightarrow>
         rbind (pipealloc ln k) (\<lambda>(r, k).
         case r of
           None \<Rightarrow> Inr (- 1, k)
         | Some (rfile, wfile) \<Rightarrow>
             rbind (cur k) (\<lambda>i.
             let bad = (\<lambda>k. rbind (fileclose ln rfile k) (\<lambda>k. rbind (fileclose ln wfile k) (\<lambda>k. Inr (- 1, k)))) in
             rbind (fdalloc rfile k) (\<lambda>(fd0, k).
             case fd0 of
               None \<Rightarrow> bad k
             | Some fd0 \<Rightarrow>
                 rbind (fdalloc wfile k) (\<lambda>(fd1, k).
                 case fd1 of
                   None \<Rightarrow> bad (set_proc i (\<lambda>p. p\<lparr>p_ofile := (p_ofile p)[fd0 := None]\<rparr>) k)
                 | Some fd1 \<Rightarrow>
                     rbind (ustores ln fdp (put32 4 (of_nat fd1) (put32 0 (of_nat fd0) (replicate 8 0))) k) (\<lambda>k.
                     Inr (0, k)))))))"

end
