(* ===== verification/Xv6_Proc.thy ===== *)
theory Xv6_Proc
  imports Xv6_File
begin

text \<open>
  Processes (\<open>proc.c\<close>): creation, growth, \<open>fork\<close>, \<open>exit\<close>, \<open>wait\<close>, \<open>sleep\<close>, \<open>wakeup\<close>, \<open>kill\<close> and
  the choice of the scheduler. A process pointer is an index of the process table. The switch
  between kernel stacks is modelled by its effect on the table and on \<open>curproc\<close>: \<open>sched\<close> gives
  the processor back to the scheduler, which later runs the process again from there.
\<close>

section \<open>Creating processes\<close>

definition CTX_size :: nat where "CTX_size = 20"

text \<open>The kernel stack of a new process: room for the trap frame, the address of \<open>trapret\<close> and a
  context that starts at \<open>forkret\<close>.\<close>

definition init_kstack :: "linker \<Rightarrow> nat \<Rightarrow> kern \<Rightarrow> kern" where
  "init_kstack ln i k =
     (let sp = p_kstack (procof i k) + KSTACKSIZE - of_nat TF_size;
          k = set_proc i (\<lambda>p. p\<lparr>p_tf := sp\<rparr>) k;
          k = k\<lparr>ks := poke (sp - 4) (trapret ln) (ks k)\<rparr>;
          cx = sp - 4 - of_nat CTX_size;
          k = set_proc i (\<lambda>p. p\<lparr>p_context := cx\<rparr>) k;
          k = k\<lparr>ks := (ks k)\<lparr>ram := memset (ram (ks k)) cx 0 (of_nat CTX_size)\<rparr>\<rparr>
      in k\<lparr>ks := poke (cx + 16) (forkret_addr ln) (ks k)\<rparr>)"

definition allocproc :: "linker \<Rightarrow> kern \<Rightarrow> (nat option \<times> kern) res" where
  "allocproc ln k =
     (case first_index (\<lambda>i. p_state (procof i k) = UNUSED) [0..<NPROC] of
        None \<Rightarrow> Inr (None, k)
      | Some i \<Rightarrow>
          let k = set_proc i (\<lambda>p. p\<lparr>p_state := EMBRYO, p_pid := nextpid (ks k)\<rparr>) k;
              k = k\<lparr>ks := (ks k)\<lparr>nextpid := nextpid (ks k) + 1\<rparr>\<rparr> in
          rbind (on_ks (kalloc (kend ln)) k) (\<lambda>(st, k).
          let k = set_proc i (\<lambda>p. p\<lparr>p_kstack := st\<rparr>) k in
          if st = 0 then Inr (None, set_proc i (\<lambda>p. p\<lparr>p_state := UNUSED\<rparr>) k)
          else Inr (Some i, init_kstack ln i k)))"

text \<open>\<open>init\<close> and \<open>initsz\<close> are the linked-in \<open>initcode\<close>.\<close>

definition userinit :: "linker \<Rightarrow> u32 \<Rightarrow> u32 \<Rightarrow> kern \<Rightarrow> kern res" where
  "userinit ln init initsz k =
     rbind (allocproc ln k) (\<lambda>(r, k).
     case r of
       None \<Rightarrow> Inl (Fault ''null pointer'')
     | Some p \<Rightarrow>
         let k = k\<lparr>ks := (ks k)\<lparr>initproc := Some p\<rparr>\<rparr> in
         rbind (on_ks (setupkvm (kend ln) (kdata ln)) k) (\<lambda>(d, k).
         let k = set_proc p (\<lambda>x. x\<lparr>p_pgdir := d\<rparr>) k in
         if d = 0 then Inl (Panic ''userinit: out of memory?'')
         else
           rbind (do_ks (inituvm (kend ln) d init initsz) k) (\<lambda>k.
           let k = set_proc p (\<lambda>x. x\<lparr>p_sz := PGSIZE\<rparr>) k;
               tf = p_tf (procof p k);
               k = k\<lparr>ks := (ks k)\<lparr>ram := memset (ram (ks k)) tf 0 (of_nat TF_size)\<rparr>\<rparr>;
               k = tf_put p TF_cs 27 k; k = tf_put p 44 35 k; k = tf_put p 40 35 k; k = tf_put p 72 35 k;
               k = tf_put p 64 0x200 k; k = tf_put p TF_esp PGSIZE k; k = tf_put p TF_eip 0 k;
               k = set_proc p (\<lambda>x. x\<lparr>p_name := ''initcode''\<rparr>) k in
           rbind (on_fs (namei (caller_of p k) [0x2F]) k) (\<lambda>(ip, k).
           Inr (set_proc p (\<lambda>x. x\<lparr>p_cwd := ip, p_state := RUNNABLE\<rparr>) k)))))"

definition growproc :: "linker \<Rightarrow> u32 \<Rightarrow> kern \<Rightarrow> (bool \<times> kern) res" where
  "growproc ln n k =
     rbind (cur k) (\<lambda>i.
     let d = p_pgdir (procof i k); sz = p_sz (procof i k);
         fin = (\<lambda>sz k. rbind (do_ks (switchuvm (Some i)) (set_proc i (\<lambda>p. p\<lparr>p_sz := sz\<rparr>) k)) (\<lambda>k. Inr (True, k))) in
     if sint n > 0 then
       rbind (on_ks (allocuvm (kend ln) d sz (sz + n)) k) (\<lambda>(sz, k).
       if sz = 0 then Inr (False, k) else fin sz k)
     else if sint n < 0 then
       rbind (on_ks (deallocuvm (kend ln) d sz (sz + n)) k) (\<lambda>(sz, k).
       if sz = 0 then Inr (False, k) else fin sz k)
     else fin sz k)"

text \<open>The loop of \<open>fork\<close> that shares the open files, for the descriptors still to do.\<close>

fun fork_files :: "nat \<Rightarrow> nat \<Rightarrow> nat list \<Rightarrow> kern \<Rightarrow> kern res" where
  "fork_files p np [] k = Inr k"
| "fork_files p np (fd # fds) k =
     (case p_ofile (procof p k) ! fd of
        None \<Rightarrow> fork_files p np fds k
      | Some f \<Rightarrow>
          rbind (filedup f k) (\<lambda>k.
          fork_files p np fds (set_proc np (\<lambda>x. x\<lparr>p_ofile := (p_ofile x)[fd := Some f]\<rparr>) k)))"

definition fork :: "linker \<Rightarrow> kern \<Rightarrow> (u32 \<times> kern) res" where
  "fork ln k =
     rbind (cur k) (\<lambda>p.
     rbind (allocproc ln k) (\<lambda>(r, k).
     case r of
       None \<Rightarrow> Inr (- 1, k)
     | Some np \<Rightarrow>
         rbind (on_ks (copyuvm (kend ln) (kdata ln) (p_pgdir (procof p k)) (p_sz (procof p k)) np) k) (\<lambda>(d, k).
         let k = set_proc np (\<lambda>x. x\<lparr>p_pgdir := d\<rparr>) k in
         if d = 0 then
           rbind (do_ks (kfree (kend ln) (p_kstack (procof np k))) k) (\<lambda>k.
           Inr (- 1, set_proc np (\<lambda>x. x\<lparr>p_kstack := 0, p_state := UNUSED\<rparr>) k))
         else
           let k = set_proc np (\<lambda>x. x\<lparr>p_sz := p_sz (procof p k), p_parent := Some p\<rparr>) k;
               m = ram (ks k);
               k = k\<lparr>ks := (ks k)\<lparr>ram := mwrite m (p_tf (procof np k)) (mread m (p_tf (procof p k)) TF_size)\<rparr>\<rparr>;
               k = tf_put np TF_eax 0 k in
           rbind (fork_files p np [0..<NOFILE] k) (\<lambda>k.
           case p_cwd (procof p k) of
             None \<Rightarrow> Inl (Fault ''null pointer'')
           | Some cwd \<Rightarrow>
               rbind (on_fs (\<lambda>s. Inr (idup cwd s)) k) (\<lambda>(ip, k).
               Inr (p_pid (procof np k),
                 set_proc np (\<lambda>x. x\<lparr>p_cwd := Some ip, p_name := p_name (procof p k), p_state := RUNNABLE\<rparr>) k))))))"

section \<open>Giving up the processor\<close>

text \<open>\<open>sched\<close> checks that the caller changed its state; the lock and interrupt checks concern the
  processor and are not modelled.\<close>

definition sched :: "kern \<Rightarrow> kern res" where
  "sched k =
     rbind (cur k) (\<lambda>i.
     if p_state (procof i k) = RUNNING then Inl (Panic ''sched running'')
     else Inr (k\<lparr>ks := (ks k)\<lparr>curproc := None\<rparr>\<rparr>))"

definition yield :: "kern \<Rightarrow> kern res" where
  "yield k = rbind (cur k) (\<lambda>i. sched (set_proc i (\<lambda>p. p\<lparr>p_state := RUNNABLE\<rparr>) k))"

text \<open>\<open>sleep\<close> up to the switch, and the part after it.\<close>

definition sleep :: "chan \<Rightarrow> kern \<Rightarrow> kern res" where
  "sleep ch k =
     (case curproc (ks k) of
        None \<Rightarrow> Inl (Panic ''sleep'')
      | Some i \<Rightarrow> sched (set_proc i (\<lambda>p. p\<lparr>p_chan := Some ch, p_state := SLEEPING\<rparr>) k))"

definition sleep_return :: "nat \<Rightarrow> kern \<Rightarrow> kern" where
  "sleep_return i k = set_proc i (\<lambda>p. p\<lparr>p_chan := None\<rparr>) k"

text \<open>The process the scheduler runs next, when its loop is at index \<open>pos\<close>, and the switch to it.\<close>

definition sched_order :: "nat \<Rightarrow> nat list" where
  "sched_order pos = [pos..<NPROC] @ [0..<min pos NPROC]"

definition sched_pick :: "nat \<Rightarrow> (nat \<Rightarrow> proc) \<Rightarrow> nat option" where
  "sched_pick pos tab =
     map_option ((!) (sched_order pos)) (first_index (\<lambda>i. p_state (tab i) = RUNNABLE) (sched_order pos))"

definition sched_run :: "nat \<Rightarrow> kern \<Rightarrow> kern res" where
  "sched_run i k =
     rbind (do_ks (switchuvm (Some i)) (k\<lparr>ks := (ks k)\<lparr>curproc := Some i\<rparr>\<rparr>)) (\<lambda>k.
     Inr (set_proc i (\<lambda>p. p\<lparr>p_state := RUNNING\<rparr>) k))"

section \<open>Ending processes\<close>

fun exit_files :: "linker \<Rightarrow> nat \<Rightarrow> nat list \<Rightarrow> kern \<Rightarrow> kern res" where
  "exit_files ln i [] k = Inr k"
| "exit_files ln i (fd # fds) k =
     (case p_ofile (procof i k) ! fd of
        None \<Rightarrow> exit_files ln i fds k
      | Some f \<Rightarrow>
          rbind (fileclose ln f k) (\<lambda>k.
          exit_files ln i fds (set_proc i (\<lambda>p. p\<lparr>p_ofile := (p_ofile p)[fd := None]\<rparr>) k)))"

text \<open>Children of \<open>i\<close> become children of \<open>initproc\<close>, which is woken if one is a zombie.\<close>

fun reparent :: "nat \<Rightarrow> nat list \<Rightarrow> kern \<Rightarrow> kern" where
  "reparent i [] k = k"
| "reparent i (j # js) k =
     (if p_parent (procof j k) = Some i then
        let ip = initproc (ks k); k = set_proc j (\<lambda>p. p\<lparr>p_parent := ip\<rparr>) k in
        reparent i js (if p_state (procof j k) = ZOMBIE
          then (case ip of Some q \<Rightarrow> wakeup (Ch_proc q) k | None \<Rightarrow> k) else k)
      else reparent i js k)"

text \<open>\<open>exit\<close> after the files are closed: wake the parent, hand over the children, become a zombie.\<close>

definition exit_zombie :: "nat \<Rightarrow> kern \<Rightarrow> kern res" where
  "exit_zombie i k =
     (let k = set_proc i (\<lambda>p. p\<lparr>p_cwd := None\<rparr>) k;
          k = (case p_parent (procof i k) of Some q \<Rightarrow> wakeup (Ch_proc q) k | None \<Rightarrow> k);
          k = reparent i [0..<NPROC] k
      in sched (set_proc i (\<lambda>p. p\<lparr>p_state := ZOMBIE\<rparr>) k))"

definition exit :: "linker \<Rightarrow> kern \<Rightarrow> kern res" where
  "exit ln k =
     rbind (cur k) (\<lambda>i.
     if initproc (ks k) = Some i then Inl (Panic ''init exiting'')
     else
       rbind (exit_files ln i [0..<NOFILE] k) (\<lambda>k.
       rbind (do_fs begin_op k) (\<lambda>k.
       case p_cwd (procof i k) of
         None \<Rightarrow> Inl (Fault ''null pointer'')
       | Some cwd \<Rightarrow>
           let me = p_pid (procof i k) in
           rbind (do_fs (iput me cwd) k) (\<lambda>k.
           rbind (do_fs (end_op me) k) (\<lambda>k.
           exit_zombie i k)))))"

datatype waitres = Reaped u32 | No_child | Wait_sleeps

definition reap :: "linker \<Rightarrow> nat \<Rightarrow> kern \<Rightarrow> kern res" where
  "reap ln p k =
     rbind (do_ks (clean_proc_data (p_pgdir (procof p k))) k) (\<lambda>k.
     rbind (do_ks (kfree (kend ln) (p_kstack (procof p k))) k) (\<lambda>k.
     let k = set_proc p (\<lambda>x. x\<lparr>p_kstack := 0\<rparr>) k in
     rbind (do_ks (freevm2 (kend ln) (p_pgdir (procof p k)) p) k) (\<lambda>k.
     Inr (set_proc p (\<lambda>x. x\<lparr>p_pid := 0, p_parent := None, p_name := [], p_killed := False, p_state := UNUSED\<rparr>) k))))"

text \<open>One pass of the loop of \<open>wait\<close>.\<close>

definition wait :: "linker \<Rightarrow> kern \<Rightarrow> (waitres \<times> kern) res" where
  "wait ln k =
     rbind (cur k) (\<lambda>i.
     case first_index (\<lambda>p. p_parent (procof p k) = Some i \<and> p_state (procof p k) = ZOMBIE) [0..<NPROC] of
       Some p \<Rightarrow> rbind (reap ln p k) (\<lambda>k'. Inr (Reaped (p_pid (procof p k)), k'))
     | None \<Rightarrow>
         if \<not> list_ex (\<lambda>p. p_parent (procof p k) = Some i) [0..<NPROC] \<or> p_killed (procof i k) then Inr (No_child, k)
         else rbind (sleep (Ch_proc i) k) (\<lambda>k. Inr (Wait_sleeps, k)))"

definition kill :: "u32 \<Rightarrow> kern \<Rightarrow> bool \<times> kern" where
  "kill pid k =
     (case first_index (\<lambda>i. p_pid (procof i k) = pid) [0..<NPROC] of
        None \<Rightarrow> (False, k)
      | Some i \<Rightarrow> (True, set_proc i (\<lambda>p. p\<lparr>p_killed := True,
          p_state := (if p_state p = SLEEPING then RUNNABLE else p_state p)\<rparr>) k))"

text \<open>The whole of \<open>iinit\<close>: it ends by initialising the swap slots.\<close>

definition k_iinit :: "u32 \<Rightarrow> u32 \<Rightarrow> kern \<Rightarrow> kern res" where
  "k_iinit me dv k = rbind (do_fs (iinit me dv) k) (\<lambda>k. Inr (k\<lparr>ks := initswap (ks k)\<rparr>))"

text \<open>\<open>forkret\<close>; \<open>first\<close> is its static variable.\<close>

definition forkret :: "bool \<Rightarrow> kern \<Rightarrow> (bool \<times> kern) res" where
  "forkret first k =
     (if first then
        rbind (cur k) (\<lambda>i.
        let me = p_pid (procof i k) in
        rbind (k_iinit me ROOTDEV k) (\<lambda>k.
        rbind (do_fs (initlog me ROOTDEV) k) (\<lambda>k.
        Inr (False, k))))
      else Inr (False, k))"

end
