(* ===== verification/Xv6_Exec.thy ===== *)
theory Xv6_Exec
  imports Xv6_Proc
begin

text \<open>
  Loading programs: \<open>loaduvm\<close> of \<open>vm.c\<close> and \<open>exec\<close> of \<open>exec.c\<close>. \<open>exec\<close> takes the path and the
  argument strings as bytes without their NUL; its message for a missing file is not modelled.
\<close>

section \<open>\<open>loaduvm\<close>\<close>

fun loaduvm_loop :: "caller \<Rightarrow> u32 \<Rightarrow> u32 \<Rightarrow> nat \<Rightarrow> u32 \<Rightarrow> u32 \<Rightarrow> u32 list \<Rightarrow> kern \<Rightarrow> (bool \<times> kern) res" where
  "loaduvm_loop c pgdir addr ip offset sz [] k = Inr (True, k)"
| "loaduvm_loop c pgdir addr ip offset sz (i # is) k =
     (let pte = walkpgdir0 pgdir (addr + i) (ram (ks k)) in
      if pte = 0 then Inl (Panic ''loaduvm: address should exist'')
      else
        let pa = PTE_ADDR (ld32 (ram (ks k)) pte); n = (if sz - i < PGSIZE then sz - i else PGSIZE) in
        rbind (on_fs (readi c ip (offset + i) n) k) (\<lambda>(r, k).
        case r of
          None \<Rightarrow> Inr (False, k)
        | Some bs \<Rightarrow>
            let k = k\<lparr>ks := (ks k)\<lparr>ram := mwrite (ram (ks k)) (P2V pa) bs\<rparr>\<rparr> in
            if of_nat (length bs) \<noteq> n then Inr (False, k)
            else loaduvm_loop c pgdir addr ip offset sz is k))"

definition loaduvm :: "caller \<Rightarrow> u32 \<Rightarrow> u32 \<Rightarrow> nat \<Rightarrow> u32 \<Rightarrow> u32 \<Rightarrow> kern \<Rightarrow> (bool \<times> kern) res" where
  "loaduvm c pgdir addr ip offset sz k =
     (if addr mod PGSIZE \<noteq> 0 then Inl (Panic ''loaduvm: addr must be page aligned'')
      else loaduvm_loop c pgdir addr ip offset sz (pg_addrs 0 sz) k)"

section \<open>\<open>exec\<close>\<close>

definition ELF_MAGIC :: u32 where "ELF_MAGIC = 0x464C457F"
definition ELF_PROG_LOAD :: u32 where "ELF_PROG_LOAD = 1"
definition ELFHDR :: nat where "ELFHDR = 52"
definition PROGHDR :: nat where "PROGHDR = 32"

text \<open>Load the segments; the result is the size, or \<open>None\<close> for \<open>goto bad\<close>.\<close>

fun exec_load :: "linker \<Rightarrow> caller \<Rightarrow> u32 \<Rightarrow> nat \<Rightarrow> u32 \<Rightarrow> nat list \<Rightarrow> u32 \<Rightarrow> kern \<Rightarrow> (u32 option \<times> kern) res" where
  "exec_load ln c pgdir ip phoff [] sz k = Inr (Some sz, k)"
| "exec_load ln c pgdir ip phoff (i # is) sz k =
     rbind (on_fs (readi c ip (phoff + of_nat (PROGHDR * i)) (of_nat PROGHDR)) k) (\<lambda>(r, k).
     case r of
       None \<Rightarrow> Inr (None, k)
     | Some ph \<Rightarrow>
         if length ph \<noteq> PROGHDR then Inr (None, k)
         else if get32 ph 0 \<noteq> ELF_PROG_LOAD then exec_load ln c pgdir ip phoff is sz k
         else
           let off = get32 ph 4; vaddr = get32 ph 8; filesz = get32 ph 16; memsz = get32 ph 20 in
           if memsz < filesz \<or> vaddr + memsz < vaddr then Inr (None, k)
           else
             rbind (on_ks (allocuvm (kend ln) pgdir sz (vaddr + memsz)) k) (\<lambda>(sz, k).
             if sz = 0 \<or> vaddr mod PGSIZE \<noteq> 0 then Inr (None, k)
             else
               rbind (loaduvm c pgdir vaddr ip off filesz k) (\<lambda>(ok, k).
               if \<not> ok then Inr (None, k) else exec_load ln c pgdir ip phoff is sz k)))"

text \<open>Push the argument strings; the result is the stack pointer and their addresses. \<open>argc\<close>
  strings are already pushed.\<close>

fun push_args :: "u32 \<Rightarrow> nat \<Rightarrow> u8 list list \<Rightarrow> u32 \<Rightarrow> kern \<Rightarrow> ((u32 \<times> u32 list) option \<times> kern) res" where
  "push_args pgdir argc [] sp k = Inr (Some (sp, []), k)"
| "push_args pgdir argc (a # as) sp k =
     (if argc \<ge> MAXARG then Inr (None, k)
      else
        let sp = (sp - of_nat (length a + 1)) AND NOT 3 in
        rbind (on_ks (copyout pgdir sp (a @ [0])) k) (\<lambda>(ok, k).
        if \<not> ok then Inr (None, k)
        else
          rbind (push_args pgdir (Suc argc) as sp k) (\<lambda>(r, k).
          Inr (map_option (\<lambda>(sp', us). (sp', sp # us)) r, k))))"

definition words_bytes :: "u32 list \<Rightarrow> u8 list" where
  "words_bytes ws = put_array 0 ws (replicate (4 * length ws) 0)"

text \<open>The name of the program: what follows the last slash, at most 15 bytes.\<close>

definition prog_name :: "u8 list \<Rightarrow> string" where
  "prog_name path = map (\<lambda>b. char_of (unat b)) (take 15 (rev (takeWhile (\<lambda>ch. ch \<noteq> 0x2F) (rev path))))"

text \<open>The second half: the stack, the arguments and the switch to the new image; \<open>None\<close> is
  \<open>goto bad\<close>.\<close>

definition exec_stack :: "linker \<Rightarrow> nat \<Rightarrow> u32 \<Rightarrow> u32 \<Rightarrow> u32 \<Rightarrow> u8 list \<Rightarrow> u8 list list \<Rightarrow> kern \<Rightarrow> (unit option \<times> kern) res" where
  "exec_stack ln p pgdir sz entry path argv k =
     (let sz = PGROUNDUP sz in
      rbind (on_ks (allocuvm (kend ln) pgdir sz (sz + 2 * PGSIZE)) k) (\<lambda>(sz, k).
      if sz = 0 then Inr (None, k)
      else
        rbind (do_ks (clearpteu pgdir (sz - 2 * PGSIZE)) k) (\<lambda>k.
        rbind (push_args pgdir 0 argv sz k) (\<lambda>(r, k).
        case r of
          None \<Rightarrow> Inr (None, k)
        | Some (sp, us) \<Rightarrow>
            let argc = length argv;
                ustack = 0xFFFFFFFF # of_nat argc # (sp - of_nat ((argc + 1) * 4)) # us @ [0];
                sp = sp - of_nat ((3 + argc + 1) * 4) in
            rbind (on_ks (copyout pgdir sp (words_bytes ustack)) k) (\<lambda>(ok, k).
            if \<not> ok then Inr (None, k)
            else
              let old = p_pgdir (procof p k);
                  k = set_proc p (\<lambda>x. x\<lparr>p_name := prog_name path, p_pgdir := pgdir, p_sz := sz\<rparr>) k;
                  k = tf_put p TF_eip entry k;
                  k = tf_put p TF_esp sp k in
              rbind (do_ks (switchuvm (Some p)) k) (\<lambda>k.
              rbind (do_ks (freevm (kend ln) old) k) (\<lambda>k.
              Inr (Some (), k))))))))"

definition exec :: "linker \<Rightarrow> u8 list \<Rightarrow> u8 list list \<Rightarrow> kern \<Rightarrow> (u32 \<times> kern) res" where
  "exec ln path argv k =
     rbind (cur k) (\<lambda>p.
     let c = caller_of p k; me = c_pid c in
     rbind (do_fs begin_op k) (\<lambda>k.
     rbind (on_fs (namei c path) k) (\<lambda>(r, k).
     case r of
       None \<Rightarrow> rbind (do_fs (end_op me) k) (\<lambda>k. Inr (- 1, k))
     | Some ip \<Rightarrow>
         let bad_ip = (\<lambda>k. rbind (do_fs (iunlockput me ip) k) (\<lambda>k.
                            rbind (do_fs (end_op me) k) (\<lambda>k. Inr (- 1, k)))) in
         rbind (do_fs (ilock me ip) k) (\<lambda>k.
         rbind (on_fs (readi c ip 0 (of_nat ELFHDR)) k) (\<lambda>(r, k).
         case r of
           None \<Rightarrow> bad_ip k
         | Some elf \<Rightarrow>
             if length elf \<noteq> ELFHDR \<or> get32 elf 0 \<noteq> ELF_MAGIC then bad_ip k
             else
               rbind (on_ks (setupkvm (kend ln) (kdata ln)) k) (\<lambda>(pgdir, k).
               if pgdir = 0 then bad_ip k
               else
                 rbind (exec_load ln c pgdir ip (get32 elf 28) [0..<unat (get16 elf 44)] 0 k) (\<lambda>(r, k).
                 case r of
                   None \<Rightarrow> rbind (do_ks (freevm (kend ln) pgdir) k) bad_ip
                 | Some sz \<Rightarrow>
                     rbind (do_fs (iunlockput me ip) k) (\<lambda>k.
                     rbind (do_fs (end_op me) k) (\<lambda>k.
                     rbind (exec_stack ln p pgdir sz (get32 elf 24) path argv k) (\<lambda>(r, k).
                     case r of
                       None \<Rightarrow> rbind (do_ks (freevm (kend ln) pgdir) k) (\<lambda>k. Inr (- 1, k))
                     | Some _ \<Rightarrow> Inr (0, k)))))))))))"

end
