(* ===== verification/Xv6_Syscall.thy ===== *)
theory Xv6_Syscall
  imports Xv6_Sysfile Xv6_Exec
begin

text \<open>
  The process system calls (\<open>sysproc.c\<close>, \<open>sys_exec\<close>), the dispatch of \<open>syscall.c\<close> and the trap
  handler of \<open>trap.c\<close>. A call that sleeps ends in \<open>Sleeps\<close> or, for \<open>wait\<close> and \<open>exit\<close>, with no
  running process. The messages for unknown system calls and unexpected traps are not modelled.
\<close>

section \<open>System calls on processes\<close>

text \<open>The loop of \<open>sys_exec\<close> over the argument vector at \<open>uargv\<close>, with \<open>n\<close> entries of \<open>argv\<close> left.\<close>

fun exec_args :: "linker \<Rightarrow> u32 \<Rightarrow> nat \<Rightarrow> kern \<Rightarrow> (u8 list list option \<times> kern) res" where
  "exec_args ln uargv 0 k = Inr (None, k)"
| "exec_args ln uargv (Suc n) k =
     rbind (fetchint ln uargv k) (\<lambda>(r, k).
     case r of
       None \<Rightarrow> Inr (None, k)
     | Some uarg \<Rightarrow>
         if uarg = 0 then Inr (Some [], k)
         else
           rbind (fetchstr ln uarg k) (\<lambda>(a, k).
           case a of
             None \<Rightarrow> Inr (None, k)
           | Some a \<Rightarrow>
               rbind (exec_args ln (uargv + 4) n k) (\<lambda>(r, k).
               Inr (map_option ((#) a) r, k))))"

definition sys_exec :: "linker \<Rightarrow> kern \<Rightarrow> (u32 \<times> kern) res" where
  "sys_exec ln k =
     rbind (argstr ln 0 k) (\<lambda>(path, k).
     case path of
       None \<Rightarrow> Inr (- 1, k)
     | Some path \<Rightarrow>
         rbind (argint ln 1 k) (\<lambda>(u, k).
         case u of
           None \<Rightarrow> Inr (- 1, k)
         | Some uargv \<Rightarrow>
             rbind (exec_args ln uargv MAXARG k) (\<lambda>(argv, k).
             case argv of None \<Rightarrow> Inr (- 1, k) | Some argv \<Rightarrow> exec ln path argv k)))"

definition sys_wait :: "linker \<Rightarrow> kern \<Rightarrow> (u32 \<times> kern) res" where
  "sys_wait ln k =
     rbind (wait ln k) (\<lambda>(r, k).
     case r of Reaped pid \<Rightarrow> Inr (pid, k) | No_child \<Rightarrow> Inr (- 1, k) | Wait_sleeps \<Rightarrow> Inl (Sleeps ''wait''))"

definition sys_kill :: "linker \<Rightarrow> kern \<Rightarrow> (u32 \<times> kern) res" where
  "sys_kill ln k =
     rbind (argint ln 0 k) (\<lambda>(pid, k).
     case pid of
       None \<Rightarrow> Inr (- 1, k)
     | Some pid \<Rightarrow> (case kill pid k of (ok, k) \<Rightarrow> Inr (if ok then 0 else - 1, k)))"

definition sys_getpid :: "kern \<Rightarrow> (u32 \<times> kern) res" where
  "sys_getpid k = rbind (cur k) (\<lambda>i. Inr (p_pid (procof i k), k))"

definition sys_sbrk :: "linker \<Rightarrow> kern \<Rightarrow> (u32 \<times> kern) res" where
  "sys_sbrk ln k =
     rbind (argint ln 0 k) (\<lambda>(n, k).
     case n of
       None \<Rightarrow> Inr (- 1, k)
     | Some n \<Rightarrow>
         rbind (cur k) (\<lambda>i.
         let addr = p_sz (procof i k) in
         rbind (growproc ln n k) (\<lambda>(ok, k).
         Inr (if ok then addr else - 1, k))))"

text \<open>The test of the loop of \<open>sys_sleep\<close> when it is entered or the process is woken. \<open>ticks - ticks0\<close>
  is unsigned, and so is the comparison with \<open>n\<close>.\<close>

definition sleep_more :: "u32 \<Rightarrow> u32 \<Rightarrow> u32 \<Rightarrow> bool" where
  "sleep_more ticks0 n now \<longleftrightarrow> now - ticks0 < n"

definition sys_sleep :: "linker \<Rightarrow> kern \<Rightarrow> (u32 \<times> kern) res" where
  "sys_sleep ln k =
     rbind (argint ln 0 k) (\<lambda>(n, k).
     case n of
       None \<Rightarrow> Inr (- 1, k)
     | Some n \<Rightarrow>
         if sleep_more (ticks k) n (ticks k) then
           rbind (cur k) (\<lambda>i.
           if p_killed (procof i k) then Inr (- 1, k) else Inl (Sleeps ''sys_sleep''))
         else Inr (0, k))"

definition sys_uptime :: "kern \<Rightarrow> (u32 \<times> kern) res" where
  "sys_uptime k = Inr (ticks k, k)"

definition sys_getNumFreePages :: "kern \<Rightarrow> (u32 \<times> kern) res" where
  "sys_getNumFreePages k = Inr (num_of_FreePages (ks k), k)"

section \<open>Dispatch\<close>

text \<open>The table \<open>syscalls\<close> without \<open>sys_exit\<close>, which does not return, and \<open>sys_getrss\<close>, which only
  prints.\<close>

definition syscalls :: "linker \<Rightarrow> u32 \<Rightarrow> (kern \<Rightarrow> (u32 \<times> kern) res) option" where
  "syscalls ln num =
     map_of [(1, fork ln), (3, sys_wait ln), (4, sys_pipe ln), (5, sys_read ln), (6, sys_kill ln), (7, sys_exec ln),
       (8, sys_fstat ln), (9, sys_chdir ln), (10, sys_dup ln), (11, sys_getpid), (12, sys_sbrk ln), (13, sys_sleep ln),
       (14, sys_uptime), (15, sys_open ln), (16, sys_write ln), (17, sys_mknod ln), (18, sys_unlink ln),
       (19, sys_link ln), (20, sys_mkdir ln), (21, sys_close ln), (22, \<lambda>k. Inr (0, k)), (23, sys_getNumFreePages)] num"

definition SYS_exit :: u32 where "SYS_exit = 2"

definition syscall :: "linker \<Rightarrow> kern \<Rightarrow> kern res" where
  "syscall ln k =
     rbind (cur k) (\<lambda>i.
     let num = tf_get i TF_eax k in
     if num = SYS_exit then exit ln k
     else case syscalls ln num of
       Some f \<Rightarrow> rbind (f k) (\<lambda>(r, k). Inr (tf_put i TF_eax r k))
     | None \<Rightarrow> Inr (tf_put i TF_eax (- 1) k))"

section \<open>Traps\<close>

definition T_PGFLT :: u32 where "T_PGFLT = 14"
definition T_SYSCALL :: u32 where "T_SYSCALL = 64"
definition T_IRQ0 :: u32 where "T_IRQ0 = 32"
definition IRQ_TIMER :: u32 where "IRQ_TIMER = 0"
definition IRQ_KBD :: u32 where "IRQ_KBD = 1"
definition IRQ_COM1 :: u32 where "IRQ_COM1 = 4"
definition IRQ_IDE :: u32 where "IRQ_IDE = 14"
definition IRQ_SPURIOUS :: u32 where "IRQ_SPURIOUS = 31"

text \<open>What a trap brings from outside: the trap number, whether it came from user mode, the address
  of a page fault, whether this is processor 0, and the characters the keyboard or the serial line
  delivers.\<close>

record trapin =
  trapno :: u32
  from_user :: bool
  cr2 :: u32
  cpu0 :: bool
  typed :: "u8 list"

definition killed_now :: "kern \<Rightarrow> bool" where
  "killed_now k = (case curproc (ks k) of None \<Rightarrow> False | Some i \<Rightarrow> p_killed (procof i k))"

text \<open>\<open>consoleintr\<close> on the kernel's console, with the wakeups of readers.\<close>

definition console_input :: "u8 list \<Rightarrow> kern \<Rightarrow> kern res" where
  "console_input cs k =
     rbind (consoleintr cs ((fcons (fsy k))\<lparr>cons_woken := []\<rparr>)) (\<lambda>(dump, co).
     Inr (fold wakeup (cons_woken co) (k\<lparr>fsy := (fsy k)\<lparr>fcons := co\<lparr>cons_woken := []\<rparr>\<rparr>\<rparr>)))"

text \<open>The \<open>switch\<close> on the trap number.\<close>

definition trap_switch :: "linker \<Rightarrow> trapin \<Rightarrow> kern \<Rightarrow> kern res" where
  "trap_switch ln t k =
     (let no = trapno t in
      if no = T_PGFLT then do_ks (handle_fage_fault (kend ln) (cr2 t)) k
      else if no = T_IRQ0 + IRQ_TIMER then
        Inr (if cpu0 t then wakeup Ch_ticks (k\<lparr>ticks := ticks k + 1\<rparr>) else k)
      else if no = T_IRQ0 + IRQ_IDE then
        do_ks (\<lambda>s. rbind (ideintr (bcache s)) (\<lambda>b. Inr (s\<lparr>bcache := b\<rparr>))) k
      else if no = T_IRQ0 + IRQ_IDE + 1 then Inr k
      else if no = T_IRQ0 + IRQ_KBD \<or> no = T_IRQ0 + IRQ_COM1 then console_input (typed t) k
      else if no = T_IRQ0 + 7 \<or> no = T_IRQ0 + IRQ_SPURIOUS then Inr k
      else case curproc (ks k) of
        None \<Rightarrow> Inl (Panic ''trap'')
      | Some i \<Rightarrow>
          if \<not> from_user t then Inl (Panic ''trap'')
          else Inr (set_proc i (\<lambda>p. p\<lparr>p_killed := True\<rparr>) k))"

definition trap :: "linker \<Rightarrow> trapin \<Rightarrow> kern \<Rightarrow> kern res" where
  "trap ln t k =
     (if trapno t = T_SYSCALL then
        rbind (cur k) (\<lambda>i.
        if p_killed (procof i k) then exit ln k
        else rbind (syscall ln k) (\<lambda>k. if killed_now k then exit ln k else Inr k))
      else
        rbind (trap_switch ln t k) (\<lambda>k.
        if killed_now k \<and> from_user t then exit ln k
        else
          rbind (case curproc (ks k) of
                   None \<Rightarrow> Inr k
                 | Some i \<Rightarrow>
                     if p_state (procof i k) = RUNNING \<and> trapno t = T_IRQ0 + IRQ_TIMER then yield k else Inr k) (\<lambda>k.
          if killed_now k \<and> from_user t then exit ln k else Inr k)))"

end
