(* ===== verification/Xv6_Crash.thy ===== *)
theory Xv6_Crash
  imports Xv6_Log
begin

text \<open>
  Crash safety of the log. The disk writes of an operation are a list of blocks with their new
  contents (\<open>did\<close>); the disks a power failure can leave are those after each prefix.
\<close>

section \<open>Sequences of disk writes\<close>

type_synonym disks = "u32 \<Rightarrow> u32 \<Rightarrow> u8 list"

definition wr :: "disks \<Rightarrow> u32 \<times> u8 list \<Rightarrow> disks" where
  "wr dk w = dk(1 := (dk 1)(fst w := snd w))"

definition did :: "(u32 \<times> u8 list) list \<Rightarrow> bstate \<Rightarrow> bstate \<Rightarrow> bool" where
  "did ws b b' \<longleftrightarrow> disk b' = foldl wr (disk b) ws \<and>
     crashes b' = crashes b \<union> {foldl wr (disk b) (take k ws) | k. k < length ws}"

lemma did_Nil [simp]: "did [] b b' \<longleftrightarrow> disk b' = disk b \<and> crashes b' = crashes b"
  by (simp add: did_def)

lemma did_one: "disk b' = wr (disk b) w \<Longrightarrow> crashes b' = insert (disk b) (crashes b) \<Longrightarrow> did [w] b b'"
  by (auto simp: did_def)

lemma did_append:
  assumes "did us b c" "did vs c d"
  shows "did (us @ vs) b d"
proof -
  have "{foldl wr (disk b) (take k (us @ vs)) | k. k < length (us @ vs)} =
      {foldl wr (disk b) (take k us) | k. k < length us} \<union> {foldl wr (disk c) (take k vs) | k. k < length vs}"
    (is "?L = ?A \<union> ?B")
  proof (intro equalityI subsetI)
    fix x assume "x \<in> ?L"
    then obtain k where k: "x = foldl wr (disk b) (take k (us @ vs))" "k < length (us @ vs)" by blast
    show "x \<in> ?A \<union> ?B"
    proof (cases "k < length us")
      case True
      then show ?thesis using k by auto
    next
      case False
      then have "x = foldl wr (disk c) (take (k - length us) vs)" "k - length us < length vs"
        using k assms(1) by (simp_all add: did_def foldl_append)
      then show ?thesis by blast
    qed
  next
    fix x assume "x \<in> ?A \<union> ?B"
    then consider k where "x = foldl wr (disk b) (take k us)" "k < length us"
      | k where "x = foldl wr (disk c) (take k vs)" "k < length vs" by blast
    then show "x \<in> ?L"
    proof cases
      case 1
      then show ?thesis by (auto intro!: exI [of _ k])
    next
      case 2
      then show ?thesis using assms(1) by (auto simp: did_def foldl_append intro!: exI [of _ "length us + k"])
    qed
  qed
  then show ?thesis using assms by (auto simp: did_def foldl_append)
qed

section \<open>One block\<close>

lemma f_bread_view:
  assumes "bview me H (fb s)" "bn \<notin> ran H" "room H (fb s) bn" "bn < blimit"
  shows "\<exists>i b. f_bread me 1 bn s = Inr (i, s\<lparr>fb := b\<rparr>) \<and> bview me (H(i \<mapsto> bn)) b \<and> H i = None \<and>
    content b = content (fb s) \<and> disk b = disk (fb s) \<and> pinned b = pinned (fb s) \<and> crashes b = crashes (fb s) \<and>
    bdata i (s\<lparr>fb := b\<rparr>) = content (fb s) bn"
  using bread_view [OF assms] by (auto simp: f_bread_def bdata_def)

lemma length_content_view: "bview me H b \<Longrightarrow> length (content b bn) = BSIZE"
  using length_content bviewD(1) by blast

lemma write_log_step:
  assumes v: "bview me Map.empty (fb s)" and dv: "l_dev (flog s) = 1" and t: "tail < length (lh_block (flog s))"
  defines "x \<equiv> l_start (flog s) + of_nat tail + 1" and "h \<equiv> lh_block (flog s) ! tail"
  assumes ne: "x \<noteq> h" and lim: "x < blimit" "h < blimit" and pin: "h \<in> pinned (fb s)" "x \<notin> pinned (fb s)"
    and av: "card (pinned (fb s)) < NBUF"
  shows "\<exists>b. write_log_loop me (tail # ts) s = write_log_loop me ts (s\<lparr>fb := b\<rparr>) \<and> bview me Map.empty b \<and>
    content b = (content (fb s))(x := content (fb s) h) \<and> pinned b = pinned (fb s) \<and> did [(x, content (fb s) h)] (fb s) b"
proof -
  let ?v = "content (fb s) h"
  from f_bread_view [OF v, of x] lim av obtain i b1 where
    r1: "f_bread me 1 x s = Inr (i, s\<lparr>fb := b1\<rparr>)" "bview me [i \<mapsto> x] b1" "content b1 = content (fb s)"
      "disk b1 = disk (fb s)" "pinned b1 = pinned (fb s)" "crashes b1 = crashes (fb s)" by (auto simp: room_def)
  from f_bread_view [of me "[i \<mapsto> x]" "s\<lparr>fb := b1\<rparr>" h] r1 lim ne pin obtain j b2 where
    r2: "f_bread me 1 h (s\<lparr>fb := b1\<rparr>) = Inr (j, s\<lparr>fb := b2\<rparr>)" "bview me [i \<mapsto> x, j \<mapsto> h] b2" "j \<noteq> i"
      "content b2 = content (fb s)" "disk b2 = disk (fb s)" "pinned b2 = pinned (fb s)" "crashes b2 = crashes (fb s)"
      "bdata j (s\<lparr>fb := b2\<rparr>) = ?v" by (auto simp: room_def split: if_splits)
  obtain H where H: "H = [i \<mapsto> x, j \<mapsto> h]" by blast
  have hi: "H i = Some x" "H j = Some h" and H5: "H(j := None) = [i \<mapsto> x]" using r2(3) by (auto simp: H)
  note S = set_view [OF r2(2) [folded H] hi(1) length_content_view [OF v, of h]]
  let ?b3 = "upd_buf i (\<lambda>b. b\<lparr>data := ?v\<rparr>) b2"
  from bwrite_view [OF S(1) hi(1) lim(1)] obtain b4 where
    w: "bwrite me i ?b3 = Inr b4" "bview me H b4" "content b4 = content ?b3"
      "disk b4 = (disk ?b3)(1 := (disk ?b3 1)(x := content ?b3 x))" "pinned b4 = pinned ?b3 - {x}"
      "crashes b4 = insert (disk ?b3) (crashes ?b3)" by blast
  have c4: "content b4 = (content (fb s))(x := ?v)" and p4: "pinned b4 = pinned (fb s)"
    and d4: "disk b4 = wr (disk (fb s)) (x, ?v)" and k4: "crashes b4 = insert (disk (fb s)) (crashes (fb s))"
    using w(3-6) S(2-5) r2(4-7) pin by (simp_all add: wr_def)
  have "h \<in> pinned b4 \<or> content b4 h = disk b4 1 h" using p4 pin by simp
  from brelse_view [OF w(2) hi(2) this, unfolded H5] obtain b5 where
    q: "brelse me j b4 = Inr b5" "bview me [i \<mapsto> x] b5" "content b5 = content b4" "disk b5 = disk b4"
      "pinned b5 = pinned b4" "crashes b5 = crashes b4" by blast
  have H6: "[i \<mapsto> x] i = Some x" "[i \<mapsto> x](i := None) = Map.empty" by auto
  have "x \<in> pinned b5 \<or> content b5 x = disk b5 1 x" using q(3,4) c4 d4 by (simp add: wr_def)
  from brelse_view [OF q(2) H6(1) this, unfolded H6(2)] obtain b6 where
    z: "brelse me i b5 = Inr b6" "bview me Map.empty b6" "content b6 = content b5" "disk b6 = disk b5"
      "pinned b6 = pinned b5" "crashes b6 = crashes b5" by blast
  have run: "write_log_loop me (tail # ts) s = write_log_loop me ts (s\<lparr>fb := b6\<rparr>)"
    using dv t r1(1) r2(1,8) w(1) q(1) z(1)
    by (simp add: x_def h_def set_bdata_def f_bwrite_def f_brelse_def)
  have "did [(x, ?v)] (fb s) b6" using d4 k4 q(4,6) z(4,6) by (intro did_one) simp_all
  then show ?thesis using run z(2,3,5) q(3,5) c4 p4 by (intro exI [of _ b6]) simp
qed

lemma install_step:
  assumes v: "bview me Map.empty (fb s)" and dv: "l_dev (flog s) = 1" and t: "tail < length (lh_block (flog s))"
  defines "x \<equiv> l_start (flog s) + of_nat tail + 1" and "h \<equiv> lh_block (flog s) ! tail"
  assumes ne: "x \<noteq> h" and lim: "x < blimit" "h < blimit" and pin: "x \<notin> pinned (fb s)"
    and av: "card (pinned (fb s)) < NBUF" "h \<in> pinned (fb s) \<or> card (pinned (fb s)) + 1 < NBUF"
  shows "\<exists>b. install_loop me (tail # ts) s = install_loop me ts (s\<lparr>fb := b\<rparr>) \<and> bview me Map.empty b \<and>
    content b = (content (fb s))(h := content (fb s) x) \<and> pinned b = pinned (fb s) - {h} \<and>
    did [(h, content (fb s) x)] (fb s) b"
proof -
  let ?v = "content (fb s) x"
  from f_bread_view [OF v, of x] lim av obtain i b1 where
    r1: "f_bread me 1 x s = Inr (i, s\<lparr>fb := b1\<rparr>)" "bview me [i \<mapsto> x] b1" "content b1 = content (fb s)"
      "disk b1 = disk (fb s)" "pinned b1 = pinned (fb s)" "crashes b1 = crashes (fb s)" by (auto simp: room_def)
  from f_bread_view [of me "[i \<mapsto> x]" "s\<lparr>fb := b1\<rparr>" h] r1 lim ne av(2) obtain j b2 where
    r2: "f_bread me 1 h (s\<lparr>fb := b1\<rparr>) = Inr (j, s\<lparr>fb := b2\<rparr>)" "bview me [i \<mapsto> x, j \<mapsto> h] b2" "j \<noteq> i"
      "content b2 = content (fb s)" "disk b2 = disk (fb s)" "pinned b2 = pinned (fb s)" "crashes b2 = crashes (fb s)"
    by (auto simp: room_def split: if_splits)
  obtain H where H: "H = [i \<mapsto> x, j \<mapsto> h]" by blast
  have hi: "H i = Some x" "H j = Some h" and H5: "H(i := None) = [j \<mapsto> h]" using r2(3) by (auto simp: H)
  have src: "bdata i (s\<lparr>fb := b2\<rparr>) = ?v" using bview_data [OF r2(2) [folded H] hi(1)] r2(4) by (simp add: bdata_def)
  note S = set_view [OF r2(2) [folded H] hi(2) length_content_view [OF v, of x]]
  let ?b3 = "upd_buf j (\<lambda>b. b\<lparr>data := ?v\<rparr>) b2"
  from bwrite_view [OF S(1) hi(2) lim(2)] obtain b4 where
    w: "bwrite me j ?b3 = Inr b4" "bview me H b4" "content b4 = content ?b3"
      "disk b4 = (disk ?b3)(1 := (disk ?b3 1)(h := content ?b3 h))" "pinned b4 = pinned ?b3 - {h}"
      "crashes b4 = insert (disk ?b3) (crashes ?b3)" by blast
  have c4: "content b4 = (content (fb s))(h := ?v)" and p4: "pinned b4 = pinned (fb s) - {h}"
    and d4: "disk b4 = wr (disk (fb s)) (h, ?v)" and k4: "crashes b4 = insert (disk (fb s)) (crashes (fb s))"
    using w(3-6) S(2-5) r2(4-7) by (simp_all add: wr_def)
  have "?v = disk (fb s) 1 x" using content_disk [OF v _ pin] by simp
  then have "x \<in> pinned b4 \<or> content b4 x = disk b4 1 x" using c4 d4 ne by (simp add: wr_def)
  from brelse_view [OF w(2) hi(1) this, unfolded H5] obtain b5 where
    q: "brelse me i b4 = Inr b5" "bview me [j \<mapsto> h] b5" "content b5 = content b4" "disk b5 = disk b4"
      "pinned b5 = pinned b4" "crashes b5 = crashes b4" by blast
  have H6: "[j \<mapsto> h] j = Some h" "[j \<mapsto> h](j := None) = Map.empty" by auto
  have "h \<in> pinned b5 \<or> content b5 h = disk b5 1 h" using q(3,4) c4 d4 by (simp add: wr_def)
  from brelse_view [OF q(2) H6(1) this, unfolded H6(2)] obtain b6 where
    z: "brelse me j b5 = Inr b6" "bview me Map.empty b6" "content b6 = content b5" "disk b6 = disk b5"
      "pinned b6 = pinned b5" "crashes b6 = crashes b5" by blast
  have run: "install_loop me (tail # ts) s = install_loop me ts (s\<lparr>fb := b6\<rparr>)"
    using dv t r1(1) r2(1) src w(1) q(1) z(1)
    by (simp add: x_def h_def set_bdata_def f_bwrite_def f_brelse_def)
  have "did [(h, ?v)] (fb s) b6" using d4 k4 q(4,6) z(4,6) by (intro did_one) simp_all
  then show ?thesis using run z(2,3,5) q(3,5) c4 p4 by (intro exI [of _ b6]) simp
qed

section \<open>The loops\<close>

text \<open>A transaction: the log blocks and the home blocks are distinct blocks of the disk.\<close>

definition log_blk :: "log \<Rightarrow> nat \<Rightarrow> u32" where
  "log_blk l k = l_start l + of_nat k + 1"

definition log_area :: "log \<Rightarrow> u32 set" where
  "log_area l = insert (l_start l) (log_blk l ` {..<LOGSIZE})"

definition txn_ok :: "log \<Rightarrow> nat \<Rightarrow> bool" where
  "txn_ok l n \<longleftrightarrow> l_dev l = 1 \<and> length (lh_block l) = LOGSIZE \<and> n \<le> LOGSIZE \<and>
     unat (l_start l) + LOGSIZE < unat blimit \<and> distinct (take n (lh_block l)) \<and>
     (\<forall>h \<in> set (take n (lh_block l)). h < blimit \<and> h \<notin> log_area l)"

lemma txn_okD:
  assumes "txn_ok l n"
  shows "l_dev l = 1" "length (lh_block l) = LOGSIZE" "n \<le> LOGSIZE" "distinct (take n (lh_block l))"
    "k < n \<Longrightarrow> lh_block l ! k < blimit" "k < n \<Longrightarrow> lh_block l ! k \<notin> log_area l"
    "k < n \<Longrightarrow> lh_block l ! k \<in> set (take n (lh_block l))"
    "k < LOGSIZE \<Longrightarrow> unat (log_blk l k) = unat (l_start l) + k + 1"
    "k < LOGSIZE \<Longrightarrow> log_blk l k < blimit" "l_start l < blimit"
    "k < LOGSIZE \<Longrightarrow> log_blk l k \<in> log_area l" "l_start l \<in> log_area l"
proof -
  have lim: "unat (l_start l) + LOGSIZE < unat blimit" and len: "length (lh_block l) = LOGSIZE" and n: "n \<le> LOGSIZE"
    using assms by (simp_all add: txn_ok_def)
  show "l_dev l = 1" "distinct (take n (lh_block l))" using assms by (simp_all add: txn_ok_def)
  show "length (lh_block l) = LOGSIZE" "n \<le> LOGSIZE" by fact+
  show mem: "k < n \<Longrightarrow> lh_block l ! k \<in> set (take n (lh_block l))" for k
    using len n by (auto simp: in_set_conv_nth)
  then show "k < n \<Longrightarrow> lh_block l ! k < blimit" "k < n \<Longrightarrow> lh_block l ! k \<notin> log_area l"
    using assms by (simp_all add: txn_ok_def)
  have u: "unat (log_blk l k) = unat (l_start l) + k + 1" if "k < LOGSIZE" for k
  proof -
    have "unat (l_start l) + k + 1 < 4294967296" using that lim u32_less [of blimit] by linarith
    then show ?thesis by (simp add: log_blk_def unat_word_ariths unat_of_nat)
  qed
  then show "k < LOGSIZE \<Longrightarrow> unat (log_blk l k) = unat (l_start l) + k + 1" .
  show "k < LOGSIZE \<Longrightarrow> log_blk l k < blimit" using u [of k] lim by (simp add: word_less_nat_alt)
  show "l_start l < blimit" using lim by (simp add: word_less_nat_alt)
  show "k < LOGSIZE \<Longrightarrow> log_blk l k \<in> log_area l" "l_start l \<in> log_area l" by (auto simp: log_area_def)
qed

lemma log_blk_inj: "txn_ok l n \<Longrightarrow> j < LOGSIZE \<Longrightarrow> k < LOGSIZE \<Longrightarrow> log_blk l j = log_blk l k \<longleftrightarrow> j = k"
  by (metis add_right_cancel add_left_cancel txn_okD(8))

lemma log_blk_start: "txn_ok l n \<Longrightarrow> k < LOGSIZE \<Longrightarrow> log_blk l k \<noteq> l_start l"
  using txn_okD(8) [of l n k] by auto

text \<open>The same writes, as they appear to readers of the cache.\<close>

definition upds :: "(u32 \<Rightarrow> u8 list) \<Rightarrow> (u32 \<times> u8 list) list \<Rightarrow> u32 \<Rightarrow> u8 list" where
  "upds c ws = foldl (\<lambda>c w. c(fst w := snd w)) c ws"

lemma upds_simps [simp]: "upds c [] = c" "upds c (w # ws) = upds (c(fst w := snd w)) ws" "upds c (us @ vs) = upds (upds c us) vs"
  by (simp_all add: upds_def)

lemma upds_other: "x \<notin> fst ` set ws \<Longrightarrow> upds c ws x = c x"
  by (induction ws arbitrary: c) auto

lemma upds_map:
  assumes "distinct ks" "inj_on f (set ks)" "k \<in> set ks"
  shows "upds c (map (\<lambda>k. (f k, g k)) ks) (f k) = g k"
  using assms
proof (induction ks arbitrary: c)
  case (Cons j ks)
  show ?case
  proof (cases "k = j")
    case True
    have "f k \<notin> f ` set ks" using Cons.prems True by (auto simp: inj_on_def)
    then show ?thesis using True by (simp add: upds_other image_image)
  next
    case False
    then show ?thesis using Cons by (simp add: inj_on_def)
  qed
qed simp

lemma foldl_wr: "foldl wr dk ws 1 = upds (dk 1) ws"
  by (induction ws arbitrary: dk) (auto simp: wr_def)

lemma did_disk: "did ws b b' \<Longrightarrow> disk b' 1 = upds (disk b 1) ws"
  by (simp add: did_def foldl_wr)

lemma write_log_loop_ok:
  assumes "txn_ok (flog s) n" and "bview me Map.empty (fb s)" and "distinct ks" and "\<forall>k \<in> set ks. k < n"
    and "set (take n (lh_block (flog s))) \<subseteq> pinned (fb s)" and "pinned (fb s) \<inter> log_area (flog s) = {}"
    and "card (pinned (fb s)) < NBUF"
  defines "ws \<equiv> map (\<lambda>k. (log_blk (flog s) k, content (fb s) (lh_block (flog s) ! k))) ks"
  shows "\<exists>b. write_log_loop me ks s = Inr (s\<lparr>fb := b\<rparr>) \<and> bview me Map.empty b \<and> pinned b = pinned (fb s) \<and>
    content b = upds (content (fb s)) ws \<and> did ws (fb s) b"
  using assms(1-7) unfolding ws_def
proof (induction ks arbitrary: s)
  case Nil
  then show ?case by (intro exI [of _ "fb s"]) simp
next
  case (Cons k ks)
  note T = txn_okD [OF Cons.prems(1)]
  let ?l = "flog s" and ?h = "\<lambda>k. lh_block (flog s) ! k"
  have k: "k < n" "k < LOGSIZE" using Cons.prems(4) T(3) by auto
  have x: "log_blk ?l k = l_start ?l + of_nat k + 1" by (simp add: log_blk_def)
  have "\<exists>b. write_log_loop me (k # ks) s = write_log_loop me ks (s\<lparr>fb := b\<rparr>) \<and> bview me Map.empty b \<and>
    content b = (content (fb s))(log_blk ?l k := content (fb s) (?h k)) \<and> pinned b = pinned (fb s) \<and>
    did [(log_blk ?l k, content (fb s) (?h k))] (fb s) b"
    unfolding x
    by (rule write_log_step) (use Cons.prems T(1,2) T(5-7,9,11) [of k] k x in auto)
  then obtain b where b: "write_log_loop me (k # ks) s = write_log_loop me ks (s\<lparr>fb := b\<rparr>)" "bview me Map.empty b"
    "content b = (content (fb s))(log_blk ?l k := content (fb s) (?h k))" "pinned b = pinned (fb s)"
    "did [(log_blk ?l k, content (fb s) (?h k))] (fb s) b" by blast
  have "content b (?h j) = content (fb s) (?h j)" if "j \<in> set ks" for j
    using b(3) T(6) [of j] T(11) [of k] that Cons.prems(4) k by auto
  then have ws: "map (\<lambda>k. (log_blk ?l k, content b (?h k))) ks = map (\<lambda>k. (log_blk ?l k, content (fb s) (?h k))) ks"
    by simp
  have "\<exists>b'. write_log_loop me ks (s\<lparr>fb := b\<rparr>) = Inr (s\<lparr>fb := b'\<rparr>) \<and> bview me Map.empty b' \<and>
    pinned b' = pinned (fb s) \<and>
    content b' = upds (content b) (map (\<lambda>k. (log_blk ?l k, content (fb s) (?h k))) ks) \<and>
    did (map (\<lambda>k. (log_blk ?l k, content (fb s) (?h k))) ks) b b'"
    unfolding ws [symmetric] using Cons.IH [of "s\<lparr>fb := b\<rparr>"] Cons.prems(1,3-7) b(2,4) by simp
  then obtain b' where "write_log_loop me ks (s\<lparr>fb := b\<rparr>) = Inr (s\<lparr>fb := b'\<rparr>)" "bview me Map.empty b'" "pinned b' = pinned (fb s)"
    "content b' = upds (content b) (map (\<lambda>k. (log_blk ?l k, content (fb s) (?h k))) ks)"
    "did (map (\<lambda>k. (log_blk ?l k, content (fb s) (?h k))) ks) b b'" by blast
  then show ?case using b(1,3) did_append [OF b(5)] by (intro exI [of _ b']) simp
qed

lemma install_loop_ok:
  assumes "txn_ok (flog s) n" and "bview me Map.empty (fb s)" and "distinct ks" and "\<forall>k \<in> set ks. k < n"
    and "(\<forall>k \<in> set ks. lh_block (flog s) ! k \<in> pinned (fb s)) \<or> card (pinned (fb s)) + 1 < NBUF"
    and "pinned (fb s) \<inter> log_area (flog s) = {}" and "card (pinned (fb s)) < NBUF"
  defines "ws \<equiv> map (\<lambda>k. (lh_block (flog s) ! k, content (fb s) (log_blk (flog s) k))) ks"
  shows "\<exists>b. install_loop me ks s = Inr (s\<lparr>fb := b\<rparr>) \<and> bview me Map.empty b \<and>
    pinned b = pinned (fb s) - (\<lambda>k. lh_block (flog s) ! k) ` set ks \<and>
    content b = upds (content (fb s)) ws \<and> did ws (fb s) b"
  using assms(1-7) unfolding ws_def
proof (induction ks arbitrary: s)
  case Nil
  then show ?case by (intro exI [of _ "fb s"]) simp
next
  case (Cons k ks)
  note T = txn_okD [OF Cons.prems(1)]
  let ?l = "flog s" and ?h = "\<lambda>k. lh_block (flog s) ! k"
  have k: "k < n" "k < LOGSIZE" using Cons.prems(4) T(3) by auto
  have x: "log_blk ?l k = l_start ?l + of_nat k + 1" by (simp add: log_blk_def)
  have "\<exists>b. install_loop me (k # ks) s = install_loop me ks (s\<lparr>fb := b\<rparr>) \<and> bview me Map.empty b \<and>
    content b = (content (fb s))(?h k := content (fb s) (log_blk ?l k)) \<and> pinned b = pinned (fb s) - {?h k} \<and>
    did [(?h k, content (fb s) (log_blk ?l k))] (fb s) b"
    unfolding x
    by (rule install_step) (use Cons.prems T(1,2) T(5-7,9,11) [of k] k x in auto)
  then obtain b where b: "install_loop me (k # ks) s = install_loop me ks (s\<lparr>fb := b\<rparr>)" "bview me Map.empty b"
    "content b = (content (fb s))(?h k := content (fb s) (log_blk ?l k))" "pinned b = pinned (fb s) - {?h k}"
    "did [(?h k, content (fb s) (log_blk ?l k))] (fb s) b" by blast
  have hne: "?h j \<noteq> ?h k" if "j \<in> set ks" for j
    using that T(2-4) Cons.prems(3,4) k nth_eq_iff_index_eq [of "take n (lh_block ?l)" j k] by auto
  have "content b (log_blk ?l j) = content (fb s) (log_blk ?l j)" if "j \<in> set ks" for j
    using b(3) T(6) [of k] T(11) [of j] that Cons.prems(4) k T(3) by auto
  then have ws: "map (\<lambda>k. (?h k, content b (log_blk ?l k))) ks = map (\<lambda>k. (?h k, content (fb s) (log_blk ?l k))) ks"
    by simp
  have card: "card (pinned b) \<le> card (pinned (fb s))" unfolding b(4) by (rule card_mono) auto
  have pre: "(\<forall>k \<in> set ks. ?h k \<in> pinned b) \<or> card (pinned b) + 1 < NBUF" "pinned b \<inter> log_area ?l = {}" "card (pinned b) < NBUF"
    using Cons.prems(5-7) card b(4) hne by auto
  have "\<exists>b'. install_loop me ks (s\<lparr>fb := b\<rparr>) = Inr (s\<lparr>fb := b'\<rparr>) \<and> bview me Map.empty b' \<and>
    pinned b' = pinned b - ?h ` set ks \<and>
    content b' = upds (content b) (map (\<lambda>k. (?h k, content (fb s) (log_blk ?l k))) ks) \<and>
    did (map (\<lambda>k. (?h k, content (fb s) (log_blk ?l k))) ks) b b'"
    unfolding ws [symmetric] using Cons.IH [of "s\<lparr>fb := b\<rparr>"] Cons.prems(1,3,4) b(2) pre by simp
  then obtain b' where "install_loop me ks (s\<lparr>fb := b\<rparr>) = Inr (s\<lparr>fb := b'\<rparr>)" "bview me Map.empty b'" "pinned b' = pinned b - ?h ` set ks"
    "content b' = upds (content b) (map (\<lambda>k. (?h k, content (fb s) (log_blk ?l k))) ks)"
    "did (map (\<lambda>k. (?h k, content (fb s) (log_blk ?l k))) ks) b b'" by blast
  then show ?case using b(1,3) did_append [OF b(5)] b(4) by (intro exI [of _ b']) (simp add: Diff_insert2 [symmetric])
qed

section \<open>The header block\<close>

definition header :: "int \<Rightarrow> u32 list \<Rightarrow> u8 list \<Rightarrow> u8 list" where
  "header n bs d = put_array 4 (take (nat n) bs) (put32 0 (word_of_int n) d)"

lemma length_header [simp]: "length (header n bs d) = length d"
  by (simp add: header_def)

lemma sint_small: "0 \<le> n \<Longrightarrow> n \<le> 30 \<Longrightarrow> sint (word_of_int n :: u32) = n"
  by (simp add: sint_sbintrunc' signed_take_bit_int_eq_self)

lemma header_read:
  assumes "length d = BSIZE" "length bs = LOGSIZE" "0 \<le> n" "n \<le> int LOGSIZE"
  shows "sint (get32 (header n bs d) 0) = n" "get_array (header n bs d) 4 (nat n) = take (nat n) bs"
  using assms by (simp_all add: header_def BSIZE_def LOGSIZE_def MAXOPBLOCKS_def sint_small)

lemma write_head_ok:
  assumes v: "bview me Map.empty (fb s)" and dv: "l_dev (flog s) = 1" and lim: "l_start (flog s) < blimit"
    and n: "lh_n (flog s) \<le> int LOGSIZE" and pin: "l_start (flog s) \<notin> pinned (fb s)" and av: "card (pinned (fb s)) < NBUF"
  defines "h \<equiv> header (lh_n (flog s)) (lh_block (flog s)) (content (fb s) (l_start (flog s)))"
  shows "\<exists>b. write_head me s = Inr (s\<lparr>fb := b\<rparr>) \<and> bview me Map.empty b \<and> pinned b = pinned (fb s) \<and>
    content b = (content (fb s))(l_start (flog s) := h) \<and> did [(l_start (flog s), h)] (fb s) b"
proof -
  let ?x = "l_start (flog s)"
  from f_bread_view [OF v, of ?x] lim av obtain i b1 where
    r: "f_bread me 1 ?x s = Inr (i, s\<lparr>fb := b1\<rparr>)" "bview me [i \<mapsto> ?x] b1" "content b1 = content (fb s)"
      "disk b1 = disk (fb s)" "pinned b1 = pinned (fb s)" "crashes b1 = crashes (fb s)"
      "bdata i (s\<lparr>fb := b1\<rparr>) = content (fb s) ?x" by (auto simp: room_def)
  have H: "[i \<mapsto> ?x] i = Some ?x" "[i \<mapsto> ?x](i := None) = Map.empty" by auto
  have len: "length h = BSIZE" using length_content_view [OF v] by (simp add: h_def)
  note S = set_view [OF r(2) H(1) len]
  let ?b2 = "upd_buf i (\<lambda>b. b\<lparr>data := h\<rparr>) b1"
  from bwrite_view [OF S(1) H(1) lim] obtain b3 where
    w: "bwrite me i ?b2 = Inr b3" "bview me [i \<mapsto> ?x] b3" "content b3 = content ?b2"
      "disk b3 = (disk ?b2)(1 := (disk ?b2 1)(?x := content ?b2 ?x))" "pinned b3 = pinned ?b2 - {?x}"
      "crashes b3 = insert (disk ?b2) (crashes ?b2)" by blast
  have c3: "content b3 = (content (fb s))(?x := h)" and p3: "pinned b3 = pinned (fb s)"
    and d3: "disk b3 = wr (disk (fb s)) (?x, h)" and k3: "crashes b3 = insert (disk (fb s)) (crashes (fb s))"
    using w(3-6) S(2-5) r(3-6) pin by (simp_all add: wr_def)
  have "?x \<in> pinned b3 \<or> content b3 ?x = disk b3 1 ?x" using c3 d3 by (simp add: wr_def)
  from brelse_view [OF w(2) H(1) this, unfolded H(2)] obtain b4 where
    z: "brelse me i b3 = Inr b4" "bview me Map.empty b4" "content b4 = content b3" "disk b4 = disk b3"
      "pinned b4 = pinned b3" "crashes b4 = crashes b3" by blast
  have run: "write_head me s = Inr (s\<lparr>fb := b4\<rparr>)"
    using dv n r(1,7) w(1) z(1)
    by (simp add: write_head_def Let_def h_def header_def set_bdata_def f_bwrite_def f_brelse_def)
  have "did [(?x, h)] (fb s) b4" using d3 k3 z(4,6) by (intro did_one) simp_all
  then show ?thesis using run z(2,3,5) c3 p3 by (intro exI [of _ b4]) simp
qed

lemma read_head_ok:
  assumes v: "bview me Map.empty (fb s)" and dv: "l_dev (flog s) = 1" and lim: "l_start (flog s) < blimit"
    and n: "sint (get32 (content (fb s) (l_start (flog s))) 0) = n" "n \<le> int LOGSIZE"
    and pin: "l_start (flog s) \<notin> pinned (fb s)" and av: "card (pinned (fb s)) < NBUF"
  defines "l \<equiv> (flog s)\<lparr>lh_n := n,
    lh_block := get_array (content (fb s) (l_start (flog s))) 4 (nat n) @ drop (nat n) (lh_block (flog s))\<rparr>"
  shows "\<exists>b. read_head me s = Inr (s\<lparr>fb := b, flog := l\<rparr>) \<and> bview me Map.empty b \<and> pinned b = pinned (fb s) \<and>
    content b = content (fb s) \<and> disk b = disk (fb s)"
proof -
  let ?x = "l_start (flog s)"
  from f_bread_view [OF v, of ?x] lim av obtain i b1 where
    r: "f_bread me 1 ?x s = Inr (i, s\<lparr>fb := b1\<rparr>)" "bview me [i \<mapsto> ?x] b1" "content b1 = content (fb s)"
      "disk b1 = disk (fb s)" "pinned b1 = pinned (fb s)" "bdata i (s\<lparr>fb := b1\<rparr>) = content (fb s) ?x" by (auto simp: room_def)
  have H: "[i \<mapsto> ?x] i = Some ?x" "[i \<mapsto> ?x](i := None) = Map.empty" by auto
  have "content b1 ?x = disk b1 1 ?x" using content_disk [OF v _ pin] r(3,4) by simp
  then have "?x \<in> pinned b1 \<or> content b1 ?x = disk b1 1 ?x" by simp
  from brelse_view [OF r(2) H(1) this, unfolded H(2)] obtain b2 where
    z: "brelse me i b1 = Inr b2" "bview me Map.empty b2" "content b2 = content b1" "disk b2 = disk b1" "pinned b2 = pinned b1" by blast
  have "read_head me s = Inr (s\<lparr>fb := b2, flog := l\<rparr>)"
    using dv n r(1,6) z(1) by (simp add: read_head_def Let_def upd_log_def f_brelse_def l_def)
  then show ?thesis using z r by (intro exI [of _ b2]) simp
qed

section \<open>\<open>commit\<close>\<close>

definition log_writes :: "log \<Rightarrow> (u32 \<Rightarrow> u8 list) \<Rightarrow> nat \<Rightarrow> (u32 \<times> u8 list) list" where
  "log_writes l c n = map (\<lambda>k. (log_blk l k, c (lh_block l ! k))) [0..<n]"

definition home_writes :: "log \<Rightarrow> (nat \<Rightarrow> u8 list) \<Rightarrow> nat \<Rightarrow> (u32 \<times> u8 list) list" where
  "home_writes l c n = map (\<lambda>k. (lh_block l ! k, c k)) [0..<n]"

lemma writes_blocks:
  assumes "txn_ok l n"
  shows "fst ` set (log_writes l c n) \<subseteq> log_area l - {l_start l}" "fst ` set (home_writes l d n) = set (take n (lh_block l))"
    "length (log_writes l c n) = n" "length (home_writes l d n) = n"
proof -
  note T = txn_okD [OF assms]
  have "log_blk l k \<in> log_area l - {l_start l}" if "k < n" for k
    using T(11) [of k] log_blk_start [OF assms, of k] T(3) that by auto
  then show "fst ` set (log_writes l c n) \<subseteq> log_area l - {l_start l}" by (auto simp: log_writes_def)
  have "set (take n (lh_block l)) = (\<lambda>k. lh_block l ! k) ` {0..<n}" using T(2,3) by (simp add: nth_image)
  then show "fst ` set (home_writes l d n) = set (take n (lh_block l))" by (simp add: home_writes_def image_image)
qed (simp_all add: log_writes_def home_writes_def)

lemma upds_log_writes: "txn_ok l n \<Longrightarrow> k < n \<Longrightarrow> upds d (log_writes l c n) (log_blk l k) = c (lh_block l ! k)"
  unfolding log_writes_def using log_blk_inj [of l n] txn_okD(3) [of l n]
  by (intro upds_map) (auto simp: inj_on_def)

lemma upds_home_writes: "txn_ok l n \<Longrightarrow> k < n \<Longrightarrow> upds d (home_writes l c n) (lh_block l ! k) = c k"
  unfolding home_writes_def using txn_okD(2-4) [of l n] nth_eq_iff_index_eq [of "take n (lh_block l)"]
  by (intro upds_map) (auto simp: inj_on_def)

definition commit_writes :: "log \<Rightarrow> bstate \<Rightarrow> nat \<Rightarrow> (u32 \<times> u8 list) list" where
  "commit_writes l b n =
     (let h = header (int n) (lh_block l) (disk b 1 (l_start l)) in
      log_writes l (content b) n @ [(l_start l, h)] @
      home_writes l (\<lambda>k. content b (lh_block l ! k)) n @ [(l_start l, header 0 (lh_block l) h)])"

lemma commit_run:
  assumes t: "txn_ok (flog s) n" and n: "lh_n (flog s) = int n" "0 < n" "n < NBUF" and v: "bview me Map.empty (fb s)"
    and pin: "pinned (fb s) = set (take n (lh_block (flog s)))"
  shows "\<exists>b. commit me s = Inr (s\<lparr>flog := (flog s)\<lparr>lh_n := 0\<rparr>, fb := b\<rparr>) \<and> bview me Map.empty b \<and> pinned b = {} \<and>
    did (commit_writes (flog s) (fb s) n) (fb s) b"
proof -
  note T = txn_okD [OF t]
  let ?l = "flog s" and ?c = "content (fb s)" and ?x = "l_start (flog s)"
  obtain lw where lw: "lw = log_writes ?l ?c n" by blast
  obtain h where h: "h = header (int n) (lh_block ?l) (disk (fb s) 1 ?x)" by blast
  obtain iw where iw: "iw = home_writes ?l (\<lambda>k. ?c (lh_block ?l ! k)) n" by blast
  have card: "card (pinned (fb s)) = n" using pin T(2-4) by (simp add: distinct_card)
  have dis: "pinned (fb s) \<inter> log_area ?l = {}" using t pin by (auto simp: txn_ok_def)
  then have xp: "?x \<notin> pinned (fb s)" using T(12) by blast
  from write_log_loop_ok [OF t v _ _ _ dis, of "[0..<n]"] pin card n(3) obtain b1 where
    b1: "write_log_loop me [0..<n] s = Inr (s\<lparr>fb := b1\<rparr>)" "bview me Map.empty b1" "pinned b1 = pinned (fb s)"
      "content b1 = upds ?c lw" "did lw (fb s) b1" by (auto simp: lw log_writes_def)
  have "content b1 ?x = disk (fb s) 1 ?x"
    using content_disk [OF v _ xp] writes_blocks(1) [OF t, of ?c] by (simp add: b1(4) lw upds_other subset_Diff_insert)
  then have hd1: "header (int n) (lh_block ?l) (content b1 ?x) = h" by (simp add: h)
  have "\<exists>b2. write_head me (s\<lparr>fb := b1\<rparr>) = Inr (s\<lparr>fb := b2\<rparr>) \<and> bview me Map.empty b2 \<and> pinned b2 = pinned (fb s) \<and>
      content b2 = (content b1)(?x := h) \<and> did [(?x, h)] b1 b2"
    using write_head_ok [of me "s\<lparr>fb := b1\<rparr>"] b1(2,3) T(1,3,10) n xp card by (simp add: hd1)
  then obtain b2 where
    b2: "write_head me (s\<lparr>fb := b1\<rparr>) = Inr (s\<lparr>fb := b2\<rparr>)" "bview me Map.empty b2" "pinned b2 = pinned (fb s)"
      "content b2 = (content b1)(?x := h)" "did [(?x, h)] b1 b2" by blast
  have c2: "content b2 (log_blk ?l k) = ?c (lh_block ?l ! k)" if "k < n" for k
    using upds_log_writes [OF t that, of ?c] log_blk_start [OF t] that T(3) by (simp add: b2(4) b1(4) lw)
  have iw': "map (\<lambda>k. (lh_block ?l ! k, content b2 (log_blk ?l k))) [0..<n] = iw"
    using c2 by (simp add: iw home_writes_def)
  have "(\<lambda>k. lh_block ?l ! k) ` {0..<n} = pinned (fb s)" using pin T(2,3) by (simp add: nth_image)
  then have "\<exists>b3. install_loop me [0..<n] (s\<lparr>fb := b2\<rparr>) = Inr (s\<lparr>fb := b3\<rparr>) \<and> bview me Map.empty b3 \<and> pinned b3 = {} \<and>
      content b3 = upds (content b2) iw \<and> did iw b2 b3"
    using install_loop_ok [of "s\<lparr>fb := b2\<rparr>" n me "[0..<n]"] t b2(2,3) card n(3) dis T(7) by (simp add: iw' pin [symmetric])
  then obtain b3 where
    b3: "install_loop me [0..<n] (s\<lparr>fb := b2\<rparr>) = Inr (s\<lparr>fb := b3\<rparr>)" "bview me Map.empty b3" "pinned b3 = {}"
      "content b3 = upds (content b2) iw" "did iw b2 b3" by blast
  have "?x \<notin> set (take n (lh_block ?l))" using xp pin by simp
  then have x3: "content b3 ?x = h" using writes_blocks(2) [OF t] by (simp add: b3(4) iw upds_other b2(4))
  let ?l' = "?l\<lparr>lh_n := 0\<rparr>"
  from write_head_ok [of me "s\<lparr>fb := b3, flog := ?l'\<rparr>"] b3(2,3) T(1,10) obtain b4 where
    b4: "write_head me (s\<lparr>fb := b3, flog := ?l'\<rparr>) = Inr (s\<lparr>flog := ?l', fb := b4\<rparr>)" "bview me Map.empty b4" "pinned b4 = {}"
      "did [(?x, header 0 (lh_block ?l) h)] b3 b4" by (auto simp: x3 NBUF_def MAXOPBLOCKS_def)
  have "commit me s = Inr (s\<lparr>flog := ?l', fb := b4\<rparr>)"
    using n b1(1) b2(1) b3(1) b4(1) by (simp add: commit_def write_log_def install_trans_def upd_log_def)
  moreover have "did (lw @ [(?x, h)] @ iw @ [(?x, header 0 (lh_block ?l) h)]) (fb s) b4"
    by (intro did_append [OF b1(5)] did_append [OF b2(5)] did_append [OF b3(5)] b4(4))
  ultimately show ?thesis using b4(2,3) by (intro exI [of _ b4]) (simp add: commit_writes_def Let_def lw iw h)
qed

section \<open>Recovery\<close>

text \<open>The machine restarts with the disk \<open>dk\<close>: the buffer cache after \<open>binit\<close> and a zeroed log.\<close>

definition reboot :: "disks \<Rightarrow> fsys \<Rightarrow> fsys" where
  "reboot dk s = s\<lparr>fb := bio_boot\<lparr>disk := dk\<rparr>, flog := \<lparr>l_start = 0, l_size = 0, l_outstanding = 0, l_committing = False,
     l_dev = 0, lh_n = 0, lh_block = replicate LOGSIZE 0\<rparr>\<rparr>"

lemma boot_view:
  assumes "\<forall>dv bn. length (dk dv bn) = BSIZE"
  shows "bview me Map.empty (bio_boot\<lparr>disk := dk\<rparr>)" "pinned (bio_boot\<lparr>disk := dk\<rparr>) = {}" "content (bio_boot\<lparr>disk := dk\<rparr>) = dk 1"
proof -
  have "bio_ok (bio_boot\<lparr>disk := dk\<rparr>)" unfolding bio_ok_def using assms
    by (simp add: bio_boot_def binit_def initsleeplock_def buf_ok_def)
  then show v: "bview me Map.empty (bio_boot\<lparr>disk := dk\<rparr>)" unfolding bview_def
    by (simp add: bio_boot_def binit_def)
  show p: "pinned (bio_boot\<lparr>disk := dk\<rparr>) = {}" by (simp add: pinned_def bio_boot_def binit_def)
  show "content (bio_boot\<lparr>disk := dk\<rparr>) = dk 1" using content_disk [OF v, unfolded p] by auto
qed

lemma readsb_ok:
  assumes v: "bview me Map.empty (fb s)" and p: "pinned (fb s) = {}"
  shows "\<exists>b. readsb me 1 s = Inr (sb_of (content (fb s) 1), s\<lparr>fb := b\<rparr>) \<and> bview me Map.empty b \<and> pinned b = {} \<and>
    content b = content (fb s) \<and> disk b = disk (fb s)"
proof -
  from f_bread_view [OF v, of 1] p obtain i b1 where
    r: "f_bread me 1 1 s = Inr (i, s\<lparr>fb := b1\<rparr>)" "bview me [i \<mapsto> 1] b1" "content b1 = content (fb s)"
      "disk b1 = disk (fb s)" "pinned b1 = pinned (fb s)" "bdata i (s\<lparr>fb := b1\<rparr>) = content (fb s) 1"
    by (auto simp: room_def NBUF_def MAXOPBLOCKS_def FSSIZE_def SWAPBLOCKS_def)
  have H: "[i \<mapsto> 1] i = Some (1 :: u32)" "[i \<mapsto> 1](i := None) = Map.empty" by auto
  have "content b1 1 = disk b1 1 1" using content_disk [OF v, of 1] p r(3,4) by simp
  then have "1 \<in> pinned b1 \<or> content b1 1 = disk b1 1 1" by simp
  from brelse_view [OF r(2) H(1) this, unfolded H(2)] obtain b2 where
    z: "brelse me i b1 = Inr b2" "bview me Map.empty b2" "content b2 = content b1" "disk b2 = disk b1" "pinned b2 = pinned b1" by blast
  have "readsb me 1 s = Inr (sb_of (content (fb s) 1), s\<lparr>fb := b2\<rparr>)"
    using r(1,6) z(1) by (simp add: readsb_def Let_def f_brelse_def)
  then show ?thesis using z r p by (intro exI [of _ b2]) simp
qed

lemma fsys_upd_comm: "s\<lparr>fb := b, flog := l\<rparr> = s\<lparr>flog := l, fb := b\<rparr>"
  by (cases s) simp

text \<open>Recovery copies the logged blocks the header lists to their home blocks.\<close>

lemma recover_ok:
  assumes v: "bview me Map.empty (fb s)" and p: "pinned (fb s) = {}"
    and n: "sint (get32 (disk (fb s) 1 (l_start (flog s))) 0) = int n"
    and t: "txn_ok ((flog s)\<lparr>lh_n := int n,
      lh_block := get_array (disk (fb s) 1 (l_start (flog s))) 4 n @ drop n (lh_block (flog s))\<rparr>) n" (is "txn_ok ?l n")
  shows "\<exists>s'. recover_from_log me s = Inr s' \<and> (\<forall>x. x \<noteq> l_start (flog s) \<longrightarrow>
    disk (fb s') 1 x = upds (disk (fb s) 1) (home_writes ?l (\<lambda>k. disk (fb s) 1 (log_blk ?l k)) n) x)"
proof -
  note T = txn_okD [OF t]
  let ?x = "l_start (flog s)"
  have c: "content (fb s) = disk (fb s) 1" using content_disk [OF v] p by auto
  obtain l where l: "l = ?l" by blast
  have T1: "l_dev (flog s) = 1" "?x < blimit" "n \<le> LOGSIZE" "l_start l = ?x" "l_dev l = 1" using T(1,3,10) by (simp_all add: l)
  have b0: "(0 :: nat) < NBUF" "Suc 0 < NBUF" by (simp_all add: NBUF_def MAXOPBLOCKS_def)
  have "\<exists>b. read_head me s = Inr (s\<lparr>fb := b, flog := l\<rparr>) \<and> bview me Map.empty b \<and> pinned b = {} \<and>
      content b = content (fb s) \<and> disk b = disk (fb s)"
    using read_head_ok [of me s "int n"] v T1(1-3) n p b0 by (simp add: c l)
  then obtain b1 where b1: "read_head me s = Inr (s\<lparr>fb := b1, flog := l\<rparr>)" "bview me Map.empty b1" "pinned b1 = {}"
    "content b1 = content (fb s)" "disk b1 = disk (fb s)" by blast
  let ?iw = "home_writes l (\<lambda>k. disk (fb s) 1 (log_blk l k)) n"
  have "\<exists>b. install_loop me [0..<n] (s\<lparr>fb := b1, flog := l\<rparr>) = Inr (s\<lparr>flog := l, fb := b\<rparr>) \<and> bview me Map.empty b \<and>
      pinned b = {} \<and> did ?iw b1 b"
    using install_loop_ok [of "s\<lparr>fb := b1, flog := l\<rparr>" n me "[0..<n]"] t b1(2-4) b0
    by (auto simp: l [symmetric] home_writes_def c)
  then obtain b2 where b2: "install_loop me [0..<n] (s\<lparr>fb := b1, flog := l\<rparr>) = Inr (s\<lparr>flog := l, fb := b2\<rparr>)"
    "bview me Map.empty b2" "pinned b2 = {}" "did ?iw b1 b2" by blast
  let ?s2 = "s\<lparr>flog := l\<lparr>lh_n := 0\<rparr>, fb := b2\<rparr>"
  have "\<exists>b. write_head me ?s2 = Inr (?s2\<lparr>fb := b\<rparr>) \<and> (\<exists>h. did [(?x, h)] b2 b)"
    using write_head_ok [of me ?s2] b2(2,3) T1 b0 by (auto simp: l)
  then obtain b3 h where b3: "write_head me ?s2 = Inr (?s2\<lparr>fb := b3\<rparr>)" "did [(?x, h)] b2 b3" by blast
  have "lh_n l = int n" by (simp add: l)
  then have "recover_from_log me s = Inr (?s2\<lparr>fb := b3\<rparr>)"
    using b1(1) b2(1) b3(1) by (simp add: recover_from_log_def install_trans_def upd_log_def fsys_upd_comm)
  moreover have "disk b3 1 = (upds (disk (fb s) 1) ?iw)(?x := h)"
    using did_disk [OF b2(4)] did_disk [OF b3(2)] b1(5) by simp
  ultimately show ?thesis by (intro exI [of _ "?s2\<lparr>fb := b3\<rparr>"]) (simp add: l)
qed

lemma initlog_ok:
  assumes len: "\<forall>dv bn. length (dk dv bn) = BSIZE" and sb: "logstart (sb_of (dk 1 1)) = l_start l" and t: "txn_ok l n"
    and n: "sint (get32 (dk 1 (l_start l)) 0) = int n" and bs: "get_array (dk 1 (l_start l)) 4 n = take n (lh_block l)"
  shows "\<exists>s'. initlog me 1 (reboot dk s) = Inr s' \<and> (\<forall>x. x \<noteq> l_start l \<longrightarrow>
    disk (fb s') 1 x = upds (dk 1) (home_writes l (\<lambda>k. dk 1 (log_blk l k)) n) x)"
proof -
  note T = txn_okD [OF t] and B = boot_view [OF len]
  have fb0: "fb (reboot dk s) = bio_boot\<lparr>disk := dk\<rparr>" by (simp add: reboot_def)
  from readsb_ok [of me "reboot dk s"] obtain b where
    b: "readsb me 1 (reboot dk s) = Inr (sb_of (dk 1 1), (reboot dk s)\<lparr>fb := b\<rparr>)" "bview me Map.empty b" "pinned b = {}" "disk b = dk"
    unfolding fb0 using B by auto
  obtain s1 where s1: "s1 = upd_log (\<lambda>l'. l'\<lparr>l_start := l_start l, l_size := sint (nlog (sb_of (dk 1 1))), l_dev := 1\<rparr>)
    ((reboot dk s)\<lparr>fb := b\<rparr>)" by blast
  have f: "fb s1 = b" "l_start (flog s1) = l_start l" "l_dev (flog s1) = 1" "lh_block (flog s1) = replicate LOGSIZE 0"
    by (simp_all add: s1 upd_log_def reboot_def)
  let ?l = "(flog s1)\<lparr>lh_n := int n, lh_block := get_array (disk (fb s1) 1 (l_start (flog s1))) 4 n @ drop n (lh_block (flog s1))\<rparr>"
  have l: "take n (lh_block ?l) = take n (lh_block l)" "length (lh_block ?l) = LOGSIZE" "l_start ?l = l_start l" "l_dev ?l = 1"
    using T(2,3) by (simp_all add: f b(4) bs)
  have blk: "log_blk ?l = log_blk l" by (simp add: log_blk_def f fun_eq_iff)
  then have la: "log_area ?l = log_area l" by (simp add: log_area_def f)
  have t': "txn_ok ?l n" using t unfolding txn_ok_def l la by blast
  have "lh_block ?l ! k = lh_block l ! k" if "k < n" for k using l(1) that by (metis nth_take)
  then have hw: "home_writes ?l c n = home_writes l c n" for c by (auto simp: home_writes_def)
  have n1: "sint (get32 (disk (fb s1) 1 (l_start (flog s1))) 0) = int n" using n by (simp add: f b(4))
  have pv: "bview me Map.empty (fb s1)" "pinned (fb s1) = {}" using b(2,3) by (simp_all add: f)
  have run: "initlog me 1 (reboot dk s) = recover_from_log me s1"
    using b(1) by (simp add: initlog_def s1 sb LOGSIZE_def MAXOPBLOCKS_def BSIZE_def)
  show ?thesis using recover_ok [OF pv n1 t'] unfolding run hw blk by (simp add: f b(4))
qed

section \<open>Power failures\<close>

text \<open>The disks a power failure during \<open>commit\<close> can leave, by how far it got.\<close>

lemma length_foldl_wr:
  assumes "\<forall>w \<in> set ws. length (snd w) = BSIZE" "\<forall>dv bn. length (dk dv bn) = BSIZE"
  shows "length (foldl wr dk ws dv bn) = BSIZE"
  using assms by (induction ws arbitrary: dk) (auto simp: wr_def)

definition keeps :: "log \<Rightarrow> (u32 \<Rightarrow> u8 list) \<Rightarrow> fsys \<Rightarrow> bool" where
  "keeps l c s \<longleftrightarrow> (\<forall>x. x \<notin> log_area l \<longrightarrow> disk (fb s) 1 x = c x)"

lemma empty_log_recovers:
  assumes len: "\<forall>dv bn. length (dk dv bn) = BSIZE" and sb: "logstart (sb_of (dk 1 1)) = l_start l" and t: "txn_ok l n"
    and z: "sint (get32 (dk 1 (l_start l)) 0) = 0" and c: "\<forall>x. x \<notin> log_area l \<longrightarrow> dk 1 x = c x"
  shows "\<exists>s'. initlog me 1 (reboot dk s) = Inr s' \<and> keeps l c s'"
proof -
  have "txn_ok l 0" using t by (simp add: txn_ok_def)
  from initlog_ok [OF len sb this, of me s] z obtain s' where
    s': "initlog me 1 (reboot dk s) = Inr s'" "\<forall>x. x \<noteq> l_start l \<longrightarrow> disk (fb s') 1 x = dk 1 x"
    by (auto simp: get_array_def home_writes_def)
  then have "keeps l c s'" unfolding keeps_def using c txn_okD(12) [OF t] by metis
  then show ?thesis using s'(1) by blast
qed

lemma full_log_recovers:
  assumes len: "\<forall>dv bn. length (dk dv bn) = BSIZE" and sb: "logstart (sb_of (dk 1 1)) = l_start l" and t: "txn_ok l n"
    and h: "dk 1 (l_start l) = header (int n) (lh_block l) d" "length d = BSIZE"
    and lg: "\<forall>k < n. dk 1 (log_blk l k) = c (lh_block l ! k)"
    and c: "\<forall>x. x \<notin> log_area l \<longrightarrow> x \<notin> set (take n (lh_block l)) \<longrightarrow> dk 1 x = c x"
  shows "\<exists>s'. initlog me 1 (reboot dk s) = Inr s' \<and> keeps l c s'"
proof -
  note T = txn_okD [OF t] and W = writes_blocks(2) [OF t]
  from header_read [OF h(2) T(2), of "int n"] T(3) h(1)
  have hd: "sint (get32 (dk 1 (l_start l)) 0) = int n" "get_array (dk 1 (l_start l)) 4 n = take n (lh_block l)" by simp_all
  from initlog_ok [OF len sb t hd, of me s] obtain s' where s': "initlog me 1 (reboot dk s) = Inr s'"
    "\<forall>x. x \<noteq> l_start l \<longrightarrow> disk (fb s') 1 x = upds (dk 1) (home_writes l (\<lambda>k. dk 1 (log_blk l k)) n) x" by blast
  have "disk (fb s') 1 x = c x" if x: "x \<notin> log_area l" for x
  proof -
    have xs: "x \<noteq> l_start l" using x T(12) by blast
    show ?thesis
    proof (cases "x \<in> set (take n (lh_block l))")
      case True
      then obtain k where "k < n" "x = lh_block l ! k" by (auto simp: in_set_conv_nth)
      then show ?thesis using s'(2) xs upds_home_writes [OF t, of k] lg by simp
    next
      case False
      then show ?thesis using s'(2) x xs c W by (simp add: upds_other)
    qed
  qed
  then show ?thesis using s'(1) by (auto simp: keeps_def)
qed

text \<open>The writes of \<open>commit\<close> up to any point are some of the log blocks; or all of them, the header
  and some of the home blocks; or everything.\<close>

lemma commit_prefix:
  assumes "length lw = n" "length iw = n"
  obtains j where "take k (lw @ [h] @ iw @ [z]) = take j lw"
    | j where "take k (lw @ [h] @ iw @ [z]) = lw @ [h] @ take j iw"
    | "take k (lw @ [h] @ iw @ [z]) = lw @ [h] @ iw @ [z]"
proof -
  consider "k \<le> n" | "n < k" "k \<le> 2 * n + 1" | "2 * n + 1 < k" by linarith
  then show thesis
  proof cases
    case 1
    then show thesis using that(1) [of k] assms by simp
  next
    case 2
    then obtain j where "k = Suc (n + j)" "j \<le> n" using less_imp_Suc_add [of n k] by auto
    then show thesis using that(2) [of j] assms by simp
  next
    case 3
    then show thesis using that(3) assms by simp
  qed
qed

lemma upds_log_other:
  assumes t: "txn_ok l n" and y: "y \<notin> log_area l \<or> y = l_start l"
  shows "upds d (take j (log_writes l c n)) y = d y" "upds d (log_writes l c n) y = d y"
  using writes_blocks(1) [OF t, of c] y by (auto intro!: upds_other dest!: in_set_takeD)

lemma upds_home_other:
  assumes t: "txn_ok l n" and y: "y \<notin> set (take n (lh_block l))"
  shows "upds d (take j (home_writes l c n)) y = d y" "upds d (home_writes l c n) y = d y"
proof -
  show "upds d (home_writes l c n) y = d y" using writes_blocks(2) [OF t, of c] y by (intro upds_other) blast
  have "y \<notin> fst ` set (take j (home_writes l c n))"
    using writes_blocks(2) [OF t, of c] y set_take_subset [of j "home_writes l c n"] by blast
  then show "upds d (take j (home_writes l c n)) y = d y" by (rule upds_other)
qed

text \<open>After the header is written the logged blocks can be read from the log; after the last write
  from their home blocks.\<close>

lemma mid_commit:
  assumes t: "txn_ok l n" and d: "d = upds ((upds D (log_writes l c n))(l_start l := h)) (take j (home_writes l e n))"
  shows "d (l_start l) = h" "k < n \<Longrightarrow> d (log_blk l k) = c (lh_block l ! k)"
    "y \<notin> log_area l \<Longrightarrow> y \<notin> set (take n (lh_block l)) \<Longrightarrow> d y = D y"
proof -
  note T = txn_okD [OF t] and H = upds_home_other [OF t]
  have out: "z \<notin> set (take n (lh_block l))" if "z \<in> log_area l" for z using t that by (auto simp: txn_ok_def)
  show "d (l_start l) = h" using H(1) [OF out [OF T(12)]] by (simp add: d)
  show "d (log_blk l k) = c (lh_block l ! k)" if k: "k < n"
    using H(1) [OF out [OF T(11), of k]] upds_log_writes [OF t k] log_blk_start [OF t, of k] T(3) k by (simp add: d)
  show "d y = D y" if "y \<notin> log_area l" "y \<notin> set (take n (lh_block l))"
    using that H(1) [OF that(2)] upds_log_other(2) [OF t, of y] T(12) by (auto simp: d)
qed

lemma after_commit:
  assumes t: "txn_ok l n" and y: "y \<notin> log_area l" and c: "y \<notin> set (take n (lh_block l)) \<Longrightarrow> c y = D y"
  shows "upds (upds ((upds D (log_writes l c n))(l_start l := h)) (home_writes l (\<lambda>k. c (lh_block l ! k)) n)) [(l_start l, h0)] y = c y"
proof -
  have yx: "y \<noteq> l_start l" using y txn_okD(12) [OF t] by blast
  show ?thesis
  proof (cases "y \<in> set (take n (lh_block l))")
    case True
    then obtain k where "k < n" "y = lh_block l ! k" by (auto simp: in_set_conv_nth)
    then show ?thesis using yx upds_home_writes [OF t] by simp
  next
    case False
    then show ?thesis using yx c upds_log_other(2) [OF t, of y] upds_home_other(2) [OF t False] y by simp
  qed
qed

lemma crash_recovers:
  assumes t: "txn_ok (flog s) n" and v: "bview me Map.empty (fb s)" and pin: "pinned (fb s) = set (take n (lh_block (flog s)))"
    and sb: "logstart (sb_of (disk (fb s) 1 1)) = l_start (flog s)" "1 \<notin> log_area (flog s)" "1 \<notin> pinned (fb s)"
    and z: "get32 (disk (fb s) 1 (l_start (flog s))) 0 = 0"
    and dk: "dk = foldl wr (disk (fb s)) (take k (commit_writes (flog s) (fb s) n))"
  shows "\<exists>r. initlog you 1 (reboot dk s) = Inr r \<and> (keeps (flog s) (disk (fb s) 1) r \<or> keeps (flog s) (content (fb s)) r)"
proof -
  note T = txn_okD [OF t]
  let ?l = "flog s" and ?c = "content (fb s)" and ?x = "l_start (flog s)" and ?D = "disk (fb s) 1"
  let ?h = "header (int n) (lh_block ?l) (?D ?x)"
  obtain lw where lw: "lw = log_writes ?l ?c n" by blast
  obtain iw where iw: "iw = home_writes ?l (\<lambda>k. ?c (lh_block ?l ! k)) n" by blast
  obtain h0 where h0: "h0 = header 0 (lh_block ?l) ?h" by blast
  have lD: "\<forall>dv bn. length (disk (fb s) dv bn) = BSIZE" using bio_okD(6) [OF bviewD(1) [OF v]] by blast
  have cw: "commit_writes ?l (fb s) n = lw @ [(?x, ?h)] @ iw @ [(?x, h0)]" by (simp add: commit_writes_def Let_def lw iw h0)
  have "\<forall>w \<in> set (lw @ [(?x, ?h)] @ iw @ [(?x, h0)]). length (snd w) = BSIZE"
    using lD length_content_view [OF v] by (auto simp: lw iw h0 log_writes_def home_writes_def)
  then have "\<forall>w \<in> set (take k (lw @ [(?x, ?h)] @ iw @ [(?x, h0)])). length (snd w) = BSIZE" by (meson in_set_takeD)
  from length_foldl_wr [OF this lD] have len: "\<forall>dv bn. length (dk dv bn) = BSIZE" by (simp add: dk cw)
  have d1: "dk 1 = upds ?D (take k (lw @ [(?x, ?h)] @ iw @ [(?x, h0)]))" by (simp add: dk cw foldl_wr)
  have D: "?D y = ?c y" if "y \<notin> pinned (fb s)" for y using content_disk [OF v _ that] by simp
  have one: "1 \<noteq> ?x" using sb(2) T(12) by metis
  have n: "length lw = n" "length iw = n" using writes_blocks(3,4) [OF t] by (simp_all add: lw iw)
  show ?thesis
  proof (rule commit_prefix [OF n, of k "(?x, ?h)" "(?x, h0)"])
    fix j assume "take k (lw @ [(?x, ?h)] @ iw @ [(?x, h0)]) = take j lw"
    then have d: "dk 1 = upds ?D (take j lw)" by (simp add: d1)
    show ?thesis using empty_log_recovers [OF len _ t, of ?D you s] sb z upds_log_other [OF t] by (auto simp: d lw)
  next
    fix j assume "take k (lw @ [(?x, ?h)] @ iw @ [(?x, h0)]) = lw @ [(?x, ?h)] @ take j iw"
    then have "dk 1 = upds ((upds ?D lw)(?x := ?h)) (take j iw)" by (simp add: d1)
    note m = mid_commit [OF t this [unfolded lw iw]]
    show ?thesis using full_log_recovers [OF len _ t m(1), of ?c you s] m(2,3) sb lD D pin by auto
  next
    assume "take k (lw @ [(?x, ?h)] @ iw @ [(?x, h0)]) = lw @ [(?x, ?h)] @ iw @ [(?x, h0)]"
    then have d: "dk 1 = upds (upds ((upds ?D lw)(?x := ?h)) iw) [(?x, h0)]" by (simp add: d1)
    have c: "\<forall>y. y \<notin> log_area ?l \<longrightarrow> dk 1 y = ?c y" unfolding d lw iw using after_commit [OF t] D pin by metis
    moreover have "logstart (sb_of (dk 1 1)) = ?x" using c D sb by metis
    moreover have "sint (get32 (dk 1 ?x) 0) = 0"
      using header_read(1) [of ?h "lh_block ?l" 0] T(2) lD by (simp add: d h0)
    ultimately show ?thesis using empty_log_recovers [OF len _ t, of ?c you s] by metis
  qed
qed

section \<open>Properties\<close>

text \<open>C3. A transaction is atomic across power failures. \<open>commit\<close> returns and leaves on the disk the
  contents the cache had; and whichever of its disk writes the power fails before, or after the last
  one, \<open>initlog\<close> at the next start succeeds and leaves either the blocks from before the transaction
  or the blocks of the transaction, outside the log itself.\<close>

theorem commit_atomic:
  assumes t: "txn_ok (flog s) n" and n: "lh_n (flog s) = int n" "0 < n" "n < NBUF" and v: "bview me Map.empty (fb s)"
    and pin: "pinned (fb s) = set (take n (lh_block (flog s)))" and cr: "crashes (fb s) = {}"
    and sb: "logstart (sb_of (disk (fb s) 1 1)) = l_start (flog s)" "1 \<notin> log_area (flog s)" "1 \<notin> pinned (fb s)"
    and z: "get32 (disk (fb s) 1 (l_start (flog s))) 0 = 0"
  shows "\<exists>s'. commit me s = Inr s' \<and> keeps (flog s) (content (fb s)) s' \<and>
    (\<forall>dk \<in> insert (disk (fb s')) (crashes (fb s')). \<exists>r. initlog you 1 (reboot dk s) = Inr r \<and>
       (keeps (flog s) (disk (fb s) 1) r \<or> keeps (flog s) (content (fb s)) r))"
proof -
  let ?ws = "commit_writes (flog s) (fb s) n" and ?l = "flog s"
  from commit_run [OF t n v pin] obtain b where
    b: "commit me s = Inr (s\<lparr>flog := ?l\<lparr>lh_n := 0\<rparr>, fb := b\<rparr>)" "did ?ws (fb s) b" by blast
  have "disk b 1 y = content (fb s) y" if "y \<notin> log_area ?l" for y
    using did_disk [OF b(2)] after_commit [OF t that, of "content (fb s)" "disk (fb s) 1"] content_disk [OF v, of y] pin
    by (simp add: commit_writes_def Let_def)
  then have "keeps ?l (content (fb s)) (s\<lparr>flog := ?l\<lparr>lh_n := 0\<rparr>, fb := b\<rparr>)" by (simp add: keeps_def)
  moreover have "\<exists>r. initlog you 1 (reboot dk s) = Inr r \<and> (keeps ?l (disk (fb s) 1) r \<or> keeps ?l (content (fb s)) r)"
    if "dk \<in> insert (disk b) (crashes b)" for dk
  proof -
    have "\<exists>k. dk = foldl wr (disk (fb s)) (take k ?ws)"
      using b(2) that cr by (auto simp: did_def intro: exI [of _ "length ?ws"])
    then obtain k where "dk = foldl wr (disk (fb s)) (take k ?ws)" by blast
    then show ?thesis by (rule crash_recovers [OF t v pin sb z])
  qed
  ultimately show ?thesis using b(1) by (intro exI [of _ "s\<lparr>flog := ?l\<lparr>lh_n := 0\<rparr>, fb := b\<rparr>"]) simp
qed

text \<open>A transaction of one block: block 100 is pinned in the cache with new data; the log starts at
  block 3.\<close>

definition one_block :: fsys where
  "one_block = \<lparr>fb = bio_boot\<lparr>disk := (\<lambda>_ bn. if bn = 1 then put32 16 3 (replicate BSIZE 0) else replicate BSIZE 0),
       bufs := (bufs bio_boot)(0 := \<lparr>flags = 6, dev = 1, blockno = 100, block = initsleeplock, refcnt = 0, data = replicate BSIZE 7\<rparr>)\<rparr>,
     flog = \<lparr>l_start = 3, l_size = 30, l_outstanding = 1, l_committing = False, l_dev = 1, lh_n = 1,
       lh_block = 100 # replicate 29 0\<rparr>,
     fsb = sb_of (replicate BSIZE 0), icache = (\<lambda>_. \<lparr>i_dev = 0, i_inum = 0, i_ref = 0, i_lock = initsleeplock, i_valid = False,
       i_type = 0, i_major = 0, i_minor = 0, i_nlink = 0, i_size = 0, i_addrs = replicate 13 0\<rparr>), fcons = console0, fdevsw = (\<lambda>_. False), fwoken = []\<rparr>"

lemma one_block_facts:
  "txn_ok (flog one_block) 1" "bview me Map.empty (fb one_block)" "pinned (fb one_block) = {100}"
  "1 \<notin> log_area (flog one_block)" "crashes (fb one_block) = {}"
  "logstart (sb_of (disk (fb one_block) 1 1)) = 3" "get32 (disk (fb one_block) 1 3) 0 = 0"
proof -
  have "log_area (flog one_block) = set (map (\<lambda>k. 3 + of_nat k) [0..<31])"
  proof -
    have "log_blk (flog one_block) k = 3 + of_nat (Suc k)" for k by (simp add: log_blk_def one_block_def)
    moreover have "[0..<31] = 0 # map Suc [0..<30]" by (simp add: map_Suc_upt upt_conv_Cons)
    ultimately show ?thesis
      by (simp add: log_area_def LOGSIZE_def MAXOPBLOCKS_def image_image atLeast0LessThan one_block_def del: upt.simps upt_rec_numeral)
  qed
  moreover have "3 + of_nat k \<noteq> (1 :: u32)" "3 + of_nat k \<noteq> (100 :: u32)" if "k < 31" for k
  proof -
    have "unat (3 + of_nat k :: u32) = 3 + k" using that by (simp add: unat_word_ariths unat_of_nat)
    then have ne: "3 + of_nat k \<noteq> w" if "unat w \<noteq> 3 + k" for w :: u32 using that by metis
    show "3 + of_nat k \<noteq> (1 :: u32)" by (rule ne) simp
    show "3 + of_nat k \<noteq> (100 :: u32)" by (rule ne) (use that in simp)
  qed
  ultimately have out: "1 \<notin> log_area (flog one_block)" "100 \<notin> log_area (flog one_block)" by auto
  show "1 \<notin> log_area (flog one_block)" by (rule out)
  show "txn_ok (flog one_block) 1" using out
    by (simp add: txn_ok_def) (simp add: one_block_def LOGSIZE_def MAXOPBLOCKS_def FSSIZE_def SWAPBLOCKS_def)
  have "bio_ok (fb one_block)" unfolding bio_ok_def
    by (simp add: one_block_def bio_boot_def binit_def initsleeplock_def buf_ok_def NBUF_def MAXOPBLOCKS_def)
  then show "bview me Map.empty (fb one_block)" unfolding bview_def
    by (simp add: one_block_def bio_boot_def binit_def)
  have "dirty (bufs (fb one_block) i) \<longleftrightarrow> i = 0" for i by (simp add: one_block_def bio_boot_def binit_def)
  moreover have "blockno (bufs (fb one_block) 0) = 100" "dev (bufs (fb one_block) 0) = 1" "0 < NBUF"
    by (simp_all add: one_block_def NBUF_def MAXOPBLOCKS_def)
  ultimately show "pinned (fb one_block) = {100}" by (simp add: pinned_def)
  show "crashes (fb one_block) = {}" by (simp add: one_block_def bio_boot_def binit_def)
  show "logstart (sb_of (disk (fb one_block) 1 1)) = 3" by (simp add: one_block_def sb_of_def BSIZE_def)
  show "get32 (disk (fb one_block) 1 3) 0 = 0" by (simp add: one_block_def BSIZE_def get32_def)
qed

theorem commit_atomic_witness:
  "\<exists>s'. commit 1 one_block = Inr s' \<and> keeps (flog one_block) (content (fb one_block)) s' \<and>
    (\<forall>dk. dk \<in> insert (disk (fb s')) (crashes (fb s')) \<longrightarrow> (\<exists>r. initlog 2 1 (reboot dk one_block) = Inr r \<and>
       (keeps (flog one_block) (disk (fb one_block) 1) r \<or> keeps (flog one_block) (content (fb one_block)) r)))"
  unfolding Ball_def [symmetric]
  by (rule commit_atomic [OF one_block_facts(1)])
    (use one_block_facts in \<open>simp_all add: one_block_def NBUF_def MAXOPBLOCKS_def\<close>)

end
