(* ===== verification/Xv6_ProcProps.thy ===== *)
theory Xv6_ProcProps
  imports Xv6_Syscall Xv6_Crash
begin

text \<open>
  Properties of the process layer: the bounds of system call arguments, the fairness of the
  scheduler, the handshake between \<open>exit\<close> and \<open>wait\<close>, and the effect of \<open>kill(0)\<close>.
\<close>

section \<open>Arguments\<close>

lemma unat_add_small: "unat (a :: u32) + unat b < 4294967296 \<Longrightarrow> unat (a + b) = unat a + unat b"
  by (simp add: unat_word_ariths)

lemma sint_nonneg_unat:
  fixes w :: u32
  assumes n: "0 \<le> sint w"
  shows "unat w < 2147483648" "sint w = int (unat w)"
proof -
  have "uint w < 4294967296" using uint_lt2p [of w] by simp
  moreover from this have "sint w = uint w - 4294967296 * of_bool (bit (uint w) 31)"
    by (simp add: sint_uint signed_take_bit_eq_take_bit_minus take_bit_int_eq_self)
  ultimately have u: "uint w = sint w" using n by (cases "bit (uint w) 31") auto
  moreover have "sint w < 2147483648" using sint_lt [of w] by simp
  ultimately show "unat w < 2147483648" "sint w = int (unat w)" using n by (simp_all add: unat_eq_nat_uint)
qed

text \<open>C16. A buffer that \<open>argptr\<close> accepts lies inside the process: its length is not negative and its
  end, computed without overflow, is at most the size of the process.\<close>

theorem argptr_in_process:
  assumes "cur k = Inr i" and "argptr ln n len k = Inr (Some p, k')" and "p_sz (procof i k') \<le> KERNBASE"
  shows "0 \<le> sint len \<and> unat p + nat (sint len) \<le> unat (p_sz (procof i k'))"
proof -
  let ?sz = "p_sz (procof i k')"
  obtain r k1 where a: "argint ln n k = Inr (r, k1)"
    using assms(1,2) by (cases "argint ln n k") (simp add: argptr_def, metis surj_pair)
  have "\<not> (sint len < 0 \<or> p \<ge> ?sz \<or> p + len > ?sz)"
    using assms(1,2) unfolding argptr_def a by (cases r) (simp_all add: a Let_def split: if_splits)
  then have c: "0 \<le> sint len" "p < ?sz" "p + len \<le> ?sz" by (simp_all add: not_le not_less)
  note s = sint_nonneg_unat [OF c(1)]
  have "unat ?sz \<le> 2147483648" using assms(3) by (simp add: word_le_nat_alt)
  then have "unat (p + len) = unat p + unat len"
    using c(2) s(1) by (intro unat_add_small) (simp add: word_less_nat_alt)
  then show ?thesis using c s(2) by (simp add: word_le_nat_alt)
qed

text \<open>A process with one page at address 0: directory, table and page follow each other in memory, and
  the first argument on its stack is \<open>0x100\<close>.\<close>

definition demo_ram :: memory where
  "demo_ram = st32 (st32 (st32 (\<lambda>_. 0) 0x80400000 0x401007) 0x80401000 0x402007) 0x80402004 0x100"

definition demo_kern :: kern where
  "demo_kern = \<lparr>ks = kboot\<lparr>ram := demo_ram, curproc := Some 0,
       proctab := (\<lambda>i. if i = 0 then proc0\<lparr>p_sz := 4096, p_pgdir := 0x80400000, p_tf := 0x80403000, p_state := RUNNING, p_pid := 1\<rparr> else proc0)\<rparr>,
     fsy = one_block, ftable = (\<lambda>_. \<lparr>f_type = FD_NONE, f_ref = 0, readable = False, writable = False, f_pipe = 0, f_ip = 0, f_off = 0\<rparr>),
     pipes = (\<lambda>_. new_pipe []), ticks = 0\<rparr>"

definition demo_linker :: linker where
  "demo_linker = \<lparr>kend = 0x80200000, kdata = 0x80108000, trapret = 0, forkret_addr = 0\<rparr>"

lemma demo_pte: "ld32 demo_ram 0x80400000 = 0x401007" "ld32 demo_ram 0x80401000 = 0x402007"
  "demo_ram 0x80402004 = 0" "demo_ram 0x80402005 = 1" "demo_ram 0x80402006 = 0" "demo_ram 0x80402007 = 0"
  "ld32 demo_ram 0x80403044 = 0"
  by (simp_all add: demo_ram_def ld32_def st32_def)

lemma demo_va: "va \<in> {4, 5, 6, 7} \<Longrightarrow> pteval demo_ram 0x80400000 va = 0x402007"
  by (auto simp: pteval_def pde_on_def ptab_def PDX_def PTX_def PTE_ADDR_def P2V_def demo_pte)

lemma demo_kern_simps [simp]:
  "cur demo_kern = Inr 0" "ram (ks demo_kern) = demo_ram" "p_pgdir (procof 0 demo_kern) = 0x80400000"
  "p_sz (procof 0 demo_kern) = 4096" "p_tf (procof 0 demo_kern) = 0x80403000"
  by (simp_all add: demo_kern_def cur_def myproc_def procof_def)

lemma demo_uload:
  assumes "va \<in> {4, 5, 6, 7}"
  shows "uload demo_linker va demo_kern = Inr (demo_ram (0x80402000 + va), demo_kern)"
proof -
  have "uview demo_ram 0x80400000 va = Some (demo_ram (0x80402000 + va))"
    using assms demo_va [OF assms] by (auto simp: uview_def umap_def upage_def PTE_ADDR_def PTE_FLAGS_def P2V_def)
  then show ?thesis by (simp add: uload_def)
qed

lemma demo_arg: "argptr demo_linker 0 16 demo_kern = Inr (Some 0x100, demo_kern)"
proof -
  have "uloads demo_linker 4 (Suc (Suc (Suc (Suc 0)))) demo_kern = Inr ([0, 1, 0, 0], demo_kern)"
    by (simp add: demo_uload demo_pte)
  moreover have "Suc (Suc (Suc (Suc 0))) = 4" by simp
  ultimately have "uloads demo_linker 4 4 demo_kern = Inr ([0, 1, 0, 0], demo_kern)" by metis
  then have "fetchint demo_linker 4 demo_kern = Inr (Some 0x100, demo_kern)"
    by (simp add: fetchint_def get32_def)
  then have "argint demo_linker 0 demo_kern = Inr (Some 0x100, demo_kern)"
    by (simp add: argint_def tf_get_def TF_esp_def demo_pte)
  then show ?thesis by (simp add: argptr_def)
qed

theorem argptr_in_process_witness:
  "argptr demo_linker 0 16 demo_kern = Inr (Some 0x100, demo_kern) \<and>
    unat (0x100 :: u32) + nat (sint (16 :: u32)) \<le> unat (p_sz (procof 0 demo_kern))"
  using argptr_in_process [of demo_kern 0 demo_linker 0 16 "0x100" demo_kern] demo_arg by simp

section \<open>The scheduler\<close>

text \<open>How far the loop of \<open>scheduler\<close> at index \<open>pos\<close> is from process \<open>p\<close>.\<close>

definition sched_dist :: "nat \<Rightarrow> nat \<Rightarrow> nat" where
  "sched_dist pos p = (if pos \<le> p then p - pos else NPROC - pos + p)"

lemma sched_order_nth:
  assumes "pos \<le> NPROC" "j < NPROC"
  shows "sched_order pos ! j = (if pos + j < NPROC then pos + j else pos + j - NPROC)"
  using assms by (auto simp: sched_order_def nth_append)

lemma length_sched_order: "pos \<le> NPROC \<Longrightarrow> length (sched_order pos) = NPROC"
  by (simp add: sched_order_def)

lemma sched_order_dist:
  assumes "pos \<le> NPROC" "p < NPROC"
  shows "sched_dist pos p < NPROC" "sched_order pos ! sched_dist pos p = p"
  using assms by (auto simp: sched_dist_def sched_order_nth)

lemma sched_pick_dist:
  assumes pos: "pos \<le> NPROC" and p: "p < NPROC" and run: "p_state (tab p) = RUNNABLE"
  shows "\<exists>q < NPROC. sched_pick pos tab = Some q \<and> (q = p \<or> sched_dist (Suc q) p < sched_dist pos p)"
proof -
  note D = sched_order_dist [OF pos p]
  have "p \<in> set (sched_order pos)" using D length_sched_order [OF pos] by (metis nth_mem)
  then obtain j where j: "first_index (\<lambda>i. p_state (tab i) = RUNNABLE) (sched_order pos) = Some j"
    using first_index_ex [of "sched_order pos" "\<lambda>i. p_state (tab i) = RUNNABLE"] run by blast
  from first_index_SomeD [OF this] have J: "j < NPROC" "\<forall>i < j. p_state (tab (sched_order pos ! i)) \<noteq> RUNNABLE"
    using length_sched_order [OF pos] by auto
  then have le: "j \<le> sched_dist pos p" using D(2) run by (metis not_less)
  let ?q = "sched_order pos ! j"
  have pick: "sched_pick pos tab = Some ?q" by (simp add: sched_pick_def j)
  have q: "?q = (if pos + j < NPROC then pos + j else pos + j - NPROC)" using sched_order_nth [OF pos J(1)] .
  have lt: "?q < NPROC" using q J(1) pos by auto
  show ?thesis
  proof (cases "j = sched_dist pos p")
    case True
    then show ?thesis using pick D(2) lt by auto
  next
    case False
    then have "sched_dist (Suc ?q) p < sched_dist pos p"
      using le J(1) pos p unfolding q by (auto simp: sched_dist_def split: if_splits)
    then show ?thesis using pick lt by blast
  qed
qed

text \<open>The index at which the loop continues at the \<open>t\<close>-th choice, when the process table is then
  \<open>tabs t\<close>.\<close>

primrec sched_pos :: "(nat \<Rightarrow> nat \<Rightarrow> proc) \<Rightarrow> nat \<Rightarrow> nat \<Rightarrow> nat" where
  "sched_pos tabs pos 0 = pos"
| "sched_pos tabs pos (Suc t) =
     (case sched_pick (sched_pos tabs pos t) (tabs t) of Some q \<Rightarrow> Suc q | None \<Rightarrow> sched_pos tabs pos t)"

lemma sched_progress:
  assumes "pos \<le> NPROC" "p < NPROC" "\<forall>t < n. p_state (tabs t p) = RUNNABLE"
    "\<forall>t < n. sched_pick (sched_pos tabs pos t) (tabs t) \<noteq> Some p"
  shows "sched_pos tabs pos n \<le> NPROC \<and> sched_dist (sched_pos tabs pos n) p + n \<le> sched_dist pos p"
  using assms(3,4)
proof (induction n)
  case 0
  then show ?case using assms(1) by simp
next
  case (Suc n)
  then have IH: "sched_pos tabs pos n \<le> NPROC" "sched_dist (sched_pos tabs pos n) p + n \<le> sched_dist pos p" by auto
  from sched_pick_dist [OF IH(1) assms(2), of "tabs n"] Suc.prems obtain q where
    "q < NPROC" "sched_pick (sched_pos tabs pos n) (tabs n) = Some q" "sched_dist (Suc q) p < sched_dist (sched_pos tabs pos n) p"
    by auto
  then show ?case using IH by simp
qed

text \<open>C15. The scheduler is fair: whatever the other processes do, a process that stays runnable is
  chosen within \<open>NPROC\<close> choices of the loop.\<close>

theorem scheduler_fair:
  assumes "pos \<le> NPROC" and "p < NPROC" and "\<forall>t < NPROC. p_state (tabs t p) = RUNNABLE"
  shows "\<exists>t < NPROC. sched_pick (sched_pos tabs pos t) (tabs t) = Some p"
proof (rule ccontr)
  assume "\<not> ?thesis"
  then have "sched_dist (sched_pos tabs pos NPROC) p + NPROC \<le> sched_dist pos p"
    using sched_progress [OF assms(1,2), of NPROC tabs] assms(3) by blast
  then show False using sched_order_dist(1) [OF assms(1,2)] by simp
qed

theorem scheduler_fair_witness:
  "\<exists>t < NPROC. sched_pick (sched_pos (\<lambda>t i. proc0\<lparr>p_state := if i < 3 then RUNNABLE else SLEEPING\<rparr>) 1 t)
     (\<lambda>i. proc0\<lparr>p_state := if i < 3 then RUNNABLE else SLEEPING\<rparr>) = Some 0"
  using scheduler_fair [of 1 0 "\<lambda>t i. proc0\<lparr>p_state := if i < 3 then RUNNABLE else SLEEPING\<rparr>"]
  by (simp add: NPROC_def)

section \<open>\<open>exit\<close> and \<open>wait\<close>\<close>

lemma set_proc_simps [simp]:
  "procof j (set_proc i f k) = (if j = i then f (procof i k) else procof j k)"
  "curproc (ks (set_proc i f k)) = curproc (ks k)" "initproc (ks (set_proc i f k)) = initproc (ks k)"
  by (simp_all add: set_proc_def procof_def upd_proc_def)

lemma wakeup_simps [simp]:
  "procof j (wakeup ch k) = (if j < NPROC \<and> p_state (procof j k) = SLEEPING \<and> p_chan (procof j k) = Some ch
     then (procof j k)\<lparr>p_state := RUNNABLE\<rparr> else procof j k)"
  "curproc (ks (wakeup ch k)) = curproc (ks k)" "initproc (ks (wakeup ch k)) = initproc (ks k)"
  by (simp_all add: wakeup_def wakeup1_def procof_def)

text \<open>No process sleeps in \<open>wait\<close> while it has a zombie child. A process is not its own parent and
  the first process has none.\<close>

definition wait_inv :: "kern \<Rightarrow> bool" where
  "wait_inv k \<longleftrightarrow> (\<forall>j. p_parent (procof j k) \<noteq> Some j) \<and>
     (\<forall>q. initproc (ks k) = Some q \<longrightarrow> p_parent (procof q k) = None) \<and>
     (\<forall>s < NPROC. \<forall>j < NPROC. p_state (procof s k) = SLEEPING \<longrightarrow> p_chan (procof s k) = Some (Ch_proc s) \<longrightarrow>
        p_parent (procof j k) = Some s \<longrightarrow> p_state (procof j k) \<noteq> ZOMBIE)"

lemma wait_invD:
  assumes "wait_inv k"
  shows "p_parent (procof j k) \<noteq> Some j" "initproc (ks k) = Some q \<Longrightarrow> p_parent (procof q k) = None"
    "s < NPROC \<Longrightarrow> j < NPROC \<Longrightarrow> p_state (procof s k) = SLEEPING \<Longrightarrow> p_chan (procof s k) = Some (Ch_proc s) \<Longrightarrow>
      p_parent (procof j k) = Some s \<Longrightarrow> p_state (procof j k) \<noteq> ZOMBIE"
  using assms unfolding wait_inv_def by blast+

text \<open>Processes were at most woken.\<close>

definition woken :: "kern \<Rightarrow> kern \<Rightarrow> bool" where
  "woken k k' \<longleftrightarrow> curproc (ks k') = curproc (ks k) \<and> initproc (ks k') = initproc (ks k) \<and>
     (\<forall>j. p_chan (procof j k') = p_chan (procof j k) \<and>
        (p_state (procof j k') = p_state (procof j k) \<or> p_state (procof j k) = SLEEPING \<and> p_state (procof j k') = RUNNABLE))"

lemma wokenD:
  assumes "woken k k'"
  shows "curproc (ks k') = curproc (ks k)" "initproc (ks k') = initproc (ks k)" "p_chan (procof j k') = p_chan (procof j k)"
    "p_state (procof j k') = ZOMBIE \<longleftrightarrow> p_state (procof j k) = ZOMBIE"
    "p_state (procof j k') = SLEEPING \<Longrightarrow> p_state (procof j k) = SLEEPING"
  using assms by (auto simp: woken_def dest!: spec [of _ j])

lemma woken_trans: "woken k k1 \<Longrightarrow> woken k1 k2 \<Longrightarrow> woken k k2"
  unfolding woken_def by (metis procstate.distinct)

lemma reparent_step:
  assumes "p_parent (procof j k) = Some i"
  defines "k1 \<equiv> set_proc j (\<lambda>p. p\<lparr>p_parent := initproc (ks k)\<rparr>) k"
  defines "k2 \<equiv> (if p_state (procof j k1) = ZOMBIE
    then (case initproc (ks k) of Some q \<Rightarrow> wakeup (Ch_proc q) k1 | None \<Rightarrow> k1) else k1)"
  shows "reparent i (j # js) k = reparent i js k2" "woken k k2"
    "p_parent (procof x k2) = (if x = j then initproc (ks k) else p_parent (procof x k))"
    "p_state (procof j k) = ZOMBIE \<Longrightarrow> initproc (ks k) = Some q \<Longrightarrow> x < NPROC \<Longrightarrow> p_chan (procof x k) = Some (Ch_proc q) \<Longrightarrow>
      p_state (procof x k2) \<noteq> SLEEPING"
  using assms(1) by (auto simp: k2_def k1_def woken_def split: option.splits)

lemma reparent_spec:
  assumes "distinct js" "set js \<subseteq> {..<NPROC}" "initproc (ks k) \<noteq> Some i" "\<forall>q. initproc (ks k) = Some q \<longrightarrow> p_parent (procof q k) = None"
  shows "woken k (reparent i js k) \<and>
    (\<forall>x. p_parent (procof x (reparent i js k)) =
       (if x \<in> set js \<and> p_parent (procof x k) = Some i then initproc (ks k) else p_parent (procof x k))) \<and>
    (\<forall>q x. initproc (ks k) = Some q \<longrightarrow> (\<exists>j \<in> set js. p_parent (procof j k) = Some i \<and> p_state (procof j k) = ZOMBIE) \<longrightarrow>
       x < NPROC \<longrightarrow> p_chan (procof x k) = Some (Ch_proc q) \<longrightarrow> p_state (procof x (reparent i js k)) \<noteq> SLEEPING)"
  using assms
proof (induction js arbitrary: k)
  case Nil
  then show ?case by (simp add: woken_def)
next
  case (Cons j js)
  show ?case
  proof (cases "p_parent (procof j k) = Some i")
    case False
    then show ?thesis using Cons by auto
  next
    case True
    let ?k1 = "set_proc j (\<lambda>p. p\<lparr>p_parent := initproc (ks k)\<rparr>) k"
    obtain k2 where k2: "k2 = (if p_state (procof j ?k1) = ZOMBIE
      then (case initproc (ks k) of Some q \<Rightarrow> wakeup (Ch_proc q) ?k1 | None \<Rightarrow> ?k1) else ?k1)" by blast
    note R = reparent_step [OF True, folded k2]
    note W = wokenD [OF R(2)]
    have jq: "initproc (ks k) = Some q \<Longrightarrow> j \<noteq> q" for q using Cons.prems(4) True by auto
    have pre: "distinct js" "set js \<subseteq> {..<NPROC}" "initproc (ks k2) \<noteq> Some i"
      "\<forall>q. initproc (ks k2) = Some q \<longrightarrow> p_parent (procof q k2) = None"
      using Cons.prems R(3) W(2) jq by auto
    have IH: "woken k2 (reparent i js k2)"
      "\<And>x. p_parent (procof x (reparent i js k2)) =
         (if x \<in> set js \<and> p_parent (procof x k2) = Some i then initproc (ks k) else p_parent (procof x k2))"
      "\<And>q x. initproc (ks k) = Some q \<Longrightarrow> \<exists>j \<in> set js. p_parent (procof j k2) = Some i \<and> p_state (procof j k2) = ZOMBIE \<Longrightarrow>
         x < NPROC \<Longrightarrow> p_chan (procof x k2) = Some (Ch_proc q) \<Longrightarrow> p_state (procof x (reparent i js k2)) \<noteq> SLEEPING"
      using Cons.IH [OF pre] unfolding W(2) by blast+
    note W2 = wokenD [OF IH(1)]
    show ?thesis unfolding R(1)
    proof (intro conjI allI impI)
      show "woken k (reparent i js k2)" by (rule woken_trans [OF R(2) IH(1)])
      fix x
      show "p_parent (procof x (reparent i js k2)) =
        (if x \<in> set (j # js) \<and> p_parent (procof x k) = Some i then initproc (ks k) else p_parent (procof x k))"
        using IH(2) [of x] R(3) [of x] True Cons.prems(1,3) by auto
    next
      fix q x
      assume q: "initproc (ks k) = Some q" and x: "x < NPROC" "p_chan (procof x k) = Some (Ch_proc q)"
        and z: "\<exists>j' \<in> set (j # js). p_parent (procof j' k) = Some i \<and> p_state (procof j' k) = ZOMBIE"
      show "p_state (procof x (reparent i js k2)) \<noteq> SLEEPING"
      proof (cases "p_state (procof j k) = ZOMBIE")
        case True
        then show ?thesis using R(4) [OF True q x] W2(5) [of x] by blast
      next
        case False
        then obtain j' where j': "j' \<in> set js" "p_parent (procof j' k) = Some i" "p_state (procof j' k) = ZOMBIE"
          using z by auto
        then have "p_parent (procof j' k2) = Some i" "p_state (procof j' k2) = ZOMBIE"
          using R(3) W(4) Cons.prems(1) by auto
        then have "\<exists>j' \<in> set js. p_parent (procof j' k2) = Some i \<and> p_state (procof j' k2) = ZOMBIE"
          using j'(1) by blast
        then show ?thesis using IH(3) [OF q _ x(1)] W(3) x(2) by simp
      qed
    qed
  qed
qed

text \<open>What \<open>exit_zombie\<close> does to the process table.\<close>

lemma exit_zombie_effect:
  assumes noself: "\<forall>q. initproc (ks k) = Some q \<longrightarrow> p_parent (procof q k) = None"
    and c: "initproc (ks k) \<noteq> Some i" and r: "exit_zombie i k = Inr k'"
  shows "initproc (ks k') = initproc (ks k)"
    "p_parent (procof x k') = (if x < NPROC \<and> p_parent (procof x k) = Some i then initproc (ks k) else p_parent (procof x k))"
    "p_chan (procof x k') = p_chan (procof x k)"
    "x \<noteq> i \<Longrightarrow> p_state (procof x k') = ZOMBIE \<longleftrightarrow> p_state (procof x k) = ZOMBIE"
    "p_state (procof x k') = SLEEPING \<Longrightarrow> x \<noteq> i \<and> p_state (procof x k) = SLEEPING"
    "p_parent (procof i k) = Some q \<Longrightarrow> q < NPROC \<Longrightarrow> p_chan (procof q k) = Some (Ch_proc q) \<Longrightarrow> p_state (procof q k') \<noteq> SLEEPING"
    "initproc (ks k) = Some q \<Longrightarrow> j < NPROC \<Longrightarrow> p_parent (procof j k) = Some i \<Longrightarrow> p_state (procof j k) = ZOMBIE \<Longrightarrow>
      x < NPROC \<Longrightarrow> p_chan (procof x k) = Some (Ch_proc q) \<Longrightarrow> p_state (procof x k') \<noteq> SLEEPING"
proof -
  obtain k1 where k1: "k1 = set_proc i (\<lambda>p. p\<lparr>p_cwd := None\<rparr>) k" by blast
  obtain k2 where k2: "k2 = (case p_parent (procof i k1) of Some q \<Rightarrow> wakeup (Ch_proc q) k1 | None \<Rightarrow> k1)" by blast
  obtain k3 where k3: "k3 = reparent i [0..<NPROC] k2" by blast
  have par2: "p_parent (procof x k2) = p_parent (procof x k)" for x
    by (simp add: k2 k1 split: option.splits)
  have w2: "woken k k2" by (simp add: woken_def k2 k1 split: option.splits)
  note W2 = wokenD [OF w2]
  have up: "p_state (procof q k2) \<noteq> SLEEPING" if "p_parent (procof i k) = Some q" "q < NPROC" "p_chan (procof q k) = Some (Ch_proc q)" for q
    using that by (auto simp: k2 k1)
  have noinit: "\<forall>q. initproc (ks k2) = Some q \<longrightarrow> p_parent (procof q k2) = None" using W2(2) par2 noself by simp
  have "initproc (ks k2) \<noteq> Some i" using c W2(2) by simp
  moreover have "distinct [0..<NPROC]" "set [0..<NPROC] \<subseteq> {..<NPROC}" by auto
  ultimately have RS: "woken k2 k3"
    "\<forall>x. p_parent (procof x k3) = (if x \<in> set [0..<NPROC] \<and> p_parent (procof x k2) = Some i then initproc (ks k2) else p_parent (procof x k2))"
    "\<forall>q x. initproc (ks k2) = Some q \<longrightarrow> (\<exists>j \<in> set [0..<NPROC]. p_parent (procof j k2) = Some i \<and> p_state (procof j k2) = ZOMBIE) \<longrightarrow>
       x < NPROC \<longrightarrow> p_chan (procof x k2) = Some (Ch_proc q) \<longrightarrow> p_state (procof x k3) \<noteq> SLEEPING"
    using reparent_spec [of "[0..<NPROC]" k2 i] noinit unfolding k3 by blast+
  have P2: "p_parent (procof x k3) = (if x < NPROC \<and> p_parent (procof x k) = Some i then initproc (ks k) else p_parent (procof x k))" for x
    using RS(2) W2(2) par2 by simp
  have P3: "p_state (procof x k3) \<noteq> SLEEPING"
    if "initproc (ks k) = Some q" "j < NPROC" "p_parent (procof j k) = Some i" "p_state (procof j k) = ZOMBIE" "x < NPROC"
      "p_chan (procof x k) = Some (Ch_proc q)" for q x j
  proof -
    have "\<exists>j \<in> set [0..<NPROC]. p_parent (procof j k2) = Some i \<and> p_state (procof j k2) = ZOMBIE"
      using that(2-4) par2 W2(4) by (intro bexI [of _ j]) simp_all
    then show ?thesis using RS(3) that W2(2,3) by simp
  qed
  note W3 = wokenD [OF RS(1)]
  have run: "exit_zombie i k = sched (set_proc i (\<lambda>p. p\<lparr>p_state := ZOMBIE\<rparr>) k3)"
    unfolding exit_zombie_def Let_def k3 k2 k1 ..
  have k': "k' = (set_proc i (\<lambda>p. p\<lparr>p_state := ZOMBIE\<rparr>) k3)\<lparr>ks := (ks (set_proc i (\<lambda>p. p\<lparr>p_state := ZOMBIE\<rparr>) k3))\<lparr>curproc := None\<rparr>\<rparr>"
    using r unfolding run sched_def by (auto split: if_splits)
  have pr: "procof x k' = (if x = i then (procof i k3)\<lparr>p_state := ZOMBIE\<rparr> else procof x k3)" for x
    by (simp add: k' procof_def set_proc_def upd_proc_def)
  have init': "initproc (ks k') = initproc (ks k)" using W3(2) W2(2) by (simp add: k')
  show "initproc (ks k') = initproc (ks k)" by (rule init')
  show "p_parent (procof x k') = (if x < NPROC \<and> p_parent (procof x k) = Some i then initproc (ks k) else p_parent (procof x k))"
    using P2 [of x] pr [of x] by auto
  show "p_chan (procof x k') = p_chan (procof x k)" using pr [of x] W3(3) W2(3) by auto
  show "x \<noteq> i \<Longrightarrow> p_state (procof x k') = ZOMBIE \<longleftrightarrow> p_state (procof x k) = ZOMBIE" using pr [of x] W3(4) W2(4) by auto
  show "p_state (procof x k') = SLEEPING \<Longrightarrow> x \<noteq> i \<and> p_state (procof x k) = SLEEPING"
    using pr [of x] W3(5) W2(5) by (auto split: if_splits)
  show "p_parent (procof i k) = Some q \<Longrightarrow> q < NPROC \<Longrightarrow> p_chan (procof q k) = Some (Ch_proc q) \<Longrightarrow> p_state (procof q k') \<noteq> SLEEPING"
    using up [of q] pr [of q] W3(5) by (auto split: if_splits)
  show "initproc (ks k) = Some q \<Longrightarrow> j < NPROC \<Longrightarrow> p_parent (procof j k) = Some i \<Longrightarrow> p_state (procof j k) = ZOMBIE \<Longrightarrow>
      x < NPROC \<Longrightarrow> p_chan (procof x k) = Some (Ch_proc q) \<Longrightarrow> p_state (procof x k') \<noteq> SLEEPING"
    using P3 [of q j x] pr [of x] by auto
qed

lemma exit_zombie_inv:
  assumes inv: "wait_inv k" and c: "i < NPROC" "initproc (ks k) \<noteq> Some i" and r: "exit_zombie i k = Inr k'"
  shows "wait_inv k'"
proof -
  have ni: "\<forall>q. initproc (ks k) = Some q \<longrightarrow> p_parent (procof q k) = None" using wait_invD(2) [OF inv] by blast
  note E = exit_zombie_effect [OF ni c(2) r]
  have sleeper: "p_state (procof j k') \<noteq> ZOMBIE"
    if s: "s < NPROC" "p_state (procof s k') = SLEEPING" "p_chan (procof s k') = Some (Ch_proc s)"
      and j: "j < NPROC" "p_parent (procof j k') = Some s" for s j
  proof
    assume z: "p_state (procof j k') = ZOMBIE"
    have s2: "p_state (procof s k) = SLEEPING" "p_chan (procof s k) = Some (Ch_proc s)" using s E(3,5) by auto
    show False
    proof (cases "p_parent (procof j k) = Some i")
      case True
      then have q: "initproc (ks k) = Some s" using j E(2) [of j] by simp
      have "j \<noteq> i" using True wait_invD(1) [OF inv, of i] by auto
      then have "p_state (procof j k) = ZOMBIE" using z E(4) by blast
      then show False using E(7) [OF q j(1) True _ s(1) s2(2)] s(2) by blast
    next
      case False
      then have js: "p_parent (procof j k) = Some s" using j(2) E(2) [of j] by simp
      then have ji: "j \<noteq> i" using E(6) [of s] s(1,2) s2(2) by blast
      then have "p_state (procof j k) = ZOMBIE" using z E(4) by blast
      then show False using wait_invD(3) [OF inv s(1) j(1) s2 js] by blast
    qed
  qed
  have "p_parent (procof x k') \<noteq> Some x" for x
    using E(2) [of x] wait_invD(1,2) [OF inv, of x] by (auto split: if_splits)
  moreover have "initproc (ks k') = Some q \<Longrightarrow> p_parent (procof q k') = None" for q
    using E(2) [of q] wait_invD(2) [OF inv, of q] E(1) by simp
  ultimately show ?thesis unfolding wait_inv_def using sleeper by blast
qed

text \<open>The steps of the processes that concern \<open>wait\<close>: they exit, wait, are woken, killed, scheduled,
  preempted, or sleep on something else.\<close>

inductive wstep :: "kern \<Rightarrow> kern \<Rightarrow> bool" where
  ws_exit: "curproc (ks k) = Some i \<Longrightarrow> i < NPROC \<Longrightarrow> initproc (ks k) \<noteq> Some i \<Longrightarrow> exit_zombie i k = Inr k' \<Longrightarrow> wstep k k'"
| ws_wait: "curproc (ks k) = Some i \<Longrightarrow> wait ln k = Inr (Wait_sleeps, k') \<Longrightarrow> wstep k k'"
| ws_wakeup: "wstep k (wakeup ch k)"
| ws_kill: "wstep k (snd (kill pid k))"
| ws_run: "sched_run i k = Inr k' \<Longrightarrow> wstep k k'"
| ws_yield: "yield k = Inr k' \<Longrightarrow> wstep k k'"
| ws_sleep: "sleep ch k = Inr k' \<Longrightarrow> (\<And>q. ch \<noteq> Ch_proc q) \<Longrightarrow> wstep k k'"

lemma sched_eq:
  assumes "sched k = Inr k'"
  shows "procof j k' = procof j k" "initproc (ks k') = initproc (ks k)"
  using assms by (auto simp: sched_def procof_def split: if_splits)

lemma wait_sleeps_inv:
  assumes inv: "wait_inv k" and i: "curproc (ks k) = Some i" and w: "wait ln k = Inr (Wait_sleeps, k')"
  shows "wait_inv k'"
proof -
  have c: "cur k = Inr i" using i by (simp add: cur_def myproc_def)
  have none: "first_index (\<lambda>p. p_parent (procof p k) = Some i \<and> p_state (procof p k) = ZOMBIE) [0..<NPROC] = None"
    and sl: "sleep (Ch_proc i) k = Inr k'"
    using w c by (auto simp: wait_def split: option.splits if_splits)
  have nz: "\<not> (p_parent (procof j k) = Some i \<and> p_state (procof j k) = ZOMBIE)" if "j < NPROC" for j
    using none that by (simp add: first_index_None)
  from sl i have s: "sched (set_proc i (\<lambda>p. p\<lparr>p_chan := Some (Ch_proc i), p_state := SLEEPING\<rparr>) k) = Inr k'"
    by (simp add: sleep_def)
  show ?thesis using inv nz sched_eq [OF s] unfolding wait_inv_def by auto
qed

lemma wait_inv_mono:
  assumes inv: "wait_inv k" and i: "initproc (ks k') = initproc (ks k)"
    and p: "\<forall>j. p_parent (procof j k') = p_parent (procof j k)"
    and z: "\<forall>j. p_state (procof j k') = ZOMBIE \<longrightarrow> p_state (procof j k) = ZOMBIE"
    and s: "\<forall>j. p_state (procof j k') = SLEEPING \<and> p_chan (procof j k') = Some (Ch_proc j) \<longrightarrow>
      p_state (procof j k) = SLEEPING \<and> p_chan (procof j k) = Some (Ch_proc j)"
  shows "wait_inv k'"
  unfolding wait_inv_def using wait_invD [OF inv] i p z s by metis

lemma sched_run_effect:
  assumes "sched_run i k = Inr k'"
  shows "procof j k' = (if j = i then (procof i k)\<lparr>p_state := RUNNING\<rparr> else procof j k)" "initproc (ks k') = initproc (ks k)"
proof -
  let ?k = "k\<lparr>ks := (ks k)\<lparr>curproc := Some i\<rparr>\<rparr>"
  obtain s where s: "switchuvm (Some i) (ks ?k) = Inr s" "k' = set_proc i (\<lambda>p. p\<lparr>p_state := RUNNING\<rparr>) (?k\<lparr>ks := s\<rparr>)"
    using assms by (auto simp: sched_run_def do_ks_def)
  from s(1) have "proctab s = proctab (ks k)" "initproc s = initproc (ks k)"
    by (simp_all add: switchuvm_def Let_def split: if_splits) auto
  then show "procof j k' = (if j = i then (procof i k)\<lparr>p_state := RUNNING\<rparr> else procof j k)" "initproc (ks k') = initproc (ks k)"
    by (simp_all add: s(2) procof_def set_proc_def upd_proc_def)
qed

lemma yield_effect:
  assumes "yield k = Inr k'"
  obtains i where "sched (set_proc i (\<lambda>p. p\<lparr>p_state := RUNNABLE\<rparr>) k) = Inr k'"
  using assms by (cases "cur k") (simp_all add: yield_def)

lemma sleep_effect:
  assumes "sleep ch k = Inr k'"
  obtains i where "sched (set_proc i (\<lambda>p. p\<lparr>p_chan := Some ch, p_state := SLEEPING\<rparr>) k) = Inr k'"
  using assms by (cases "curproc (ks k)") (simp_all add: sleep_def)

lemma wstep_inv: "wstep k k' \<Longrightarrow> wait_inv k \<Longrightarrow> wait_inv k'"
proof (induction rule: wstep.induct)
  case (ws_exit k i k')
  show ?case by (rule exit_zombie_inv [OF ws_exit(5,2,3,4)])
next
  case (ws_wait k i ln k')
  show ?case by (rule wait_sleeps_inv [OF ws_wait(3,1,2)])
next
  case (ws_wakeup k ch)
  then show ?case by (rule wait_inv_mono) simp_all
next
  case (ws_kill k pid)
  then show ?case by (rule wait_inv_mono) (simp_all add: kill_def split: option.splits)
next
  case (ws_run i k k')
  show ?case by (rule wait_inv_mono [OF ws_run(2)]) (simp_all add: sched_run_effect [OF ws_run(1)])
next
  case (ws_yield k k')
  from ws_yield(1) obtain i where "sched (set_proc i (\<lambda>p. p\<lparr>p_state := RUNNABLE\<rparr>) k) = Inr k'" by (rule yield_effect)
  note S = sched_eq [OF this]
  show ?case by (rule wait_inv_mono [OF ws_yield(2)]) (simp_all add: S)
next
  case (ws_sleep ch k k')
  from ws_sleep(1) obtain i where "sched (set_proc i (\<lambda>p. p\<lparr>p_chan := Some ch, p_state := SLEEPING\<rparr>) k) = Inr k'"
    by (rule sleep_effect)
  note S = sched_eq [OF this]
  show ?case by (rule wait_inv_mono [OF ws_sleep(3)]) (simp_all add: S ws_sleep(2))
qed

text \<open>C7. No exit is missed: in every state that processes reach by exiting, waiting, being woken,
  killed, scheduled or put to sleep, no process sleeps in \<open>wait\<close> while one of its children is a
  zombie.\<close>

theorem wait_misses_no_exit:
  assumes "wait_inv k" and "wstep\<^sup>*\<^sup>* k k'"
    and "s < NPROC" and "p_state (procof s k') = SLEEPING" and "p_chan (procof s k') = Some (Ch_proc s)"
    and "j < NPROC" and "p_parent (procof j k') = Some s"
  shows "p_state (procof j k') \<noteq> ZOMBIE"
proof -
  have "wait_inv k'" using assms(2,1) by (induction rule: rtranclp_induct) (auto intro: wstep_inv)
  then show ?thesis using wait_invD(3) assms(3-7) by blast
qed

text \<open>Process 1 waits for its child 2, which is running.\<close>

definition demo_wait :: kern where
  "demo_wait = demo_kern\<lparr>ks := (ks demo_kern)\<lparr>initproc := Some 0, curproc := Some 1,
     proctab := (\<lambda>i. if i = 1 then proc0\<lparr>p_state := RUNNING, p_pid := 2\<rparr>
       else if i = 2 then proc0\<lparr>p_state := RUNNABLE, p_pid := 3, p_parent := Some 1\<rparr> else proc0)\<rparr>\<rparr>"

lemma demo_wait_simps [simp]:
  "curproc (ks demo_wait) = Some 1" "initproc (ks demo_wait) = Some 0"
  "procof i demo_wait = (if i = 1 then proc0\<lparr>p_state := RUNNING, p_pid := 2\<rparr>
     else if i = 2 then proc0\<lparr>p_state := RUNNABLE, p_pid := 3, p_parent := Some 1\<rparr> else proc0)"
  by (simp_all add: demo_wait_def procof_def)

theorem wait_misses_no_exit_witness:
  "\<exists>k'. wstep\<^sup>*\<^sup>* demo_wait k' \<and> p_state (procof 1 k') = SLEEPING \<and> p_chan (procof 1 k') = Some (Ch_proc 1) \<and>
    p_parent (procof 2 k') = Some 1 \<and> p_state (procof 2 k') \<noteq> ZOMBIE"
proof -
  let ?k = "set_proc 1 (\<lambda>p. p\<lparr>p_chan := Some (Ch_proc 1), p_state := SLEEPING\<rparr>) demo_wait"
  obtain k' where s: "sched ?k = Inr k'" by (simp add: sched_def cur_def myproc_def)
  have none: "first_index (\<lambda>p. p_parent (procof p demo_wait) = Some 1 \<and> p_state (procof p demo_wait) = ZOMBIE) [0..<NPROC] = None"
    by (simp add: first_index_None proc0_def)
  have kid: "list_ex (\<lambda>p. p_parent (procof p demo_wait) = Some 1) [0..<NPROC]"
    by (simp add: list_ex_iff proc0_def NPROC_def)
  have "wait demo_linker demo_wait = Inr (Wait_sleeps, k')"
    unfolding wait_def using none kid s by (simp add: cur_def myproc_def sleep_def proc0_def)
  then have step: "wstep\<^sup>*\<^sup>* demo_wait k'" by (intro r_into_rtranclp ws_wait [where i = 1]) simp_all
  have inv: "wait_inv demo_wait" by (auto simp: wait_inv_def proc0_def)
  have st: "p_state (procof 1 k') = SLEEPING" "p_chan (procof 1 k') = Some (Ch_proc 1)" "p_parent (procof 2 k') = Some 1"
    using sched_eq(1) [OF s] by simp_all
  then show ?thesis using wait_misses_no_exit [OF inv step _ st(1,2) _ st(3)] step by (auto simp: NPROC_def)
qed

section \<open>\<open>kill\<close>\<close>

lemma kalloc_first:
  assumes "freelist s \<noteq> 0"
  shows "\<exists>s'. kalloc e s = Inr (freelist s, s') \<and> proctab s' = proctab s"
  using assms by (subst kalloc.simps) (simp add: take_free_def Let_def)

lemma init_kstack_killed: "p_killed (procof i (init_kstack ln i k)) = p_killed (procof i k)"
  by (simp add: init_kstack_def Let_def procof_def poke_def set_proc_def upd_proc_def)

lemma allocproc_keeps_killed:
  assumes "freelist (ks k) \<noteq> 0" and "first_index (\<lambda>i. p_state (procof i k) = UNUSED) [0..<NPROC] = Some i"
  shows "\<exists>k2. allocproc ln k = Inr (Some i, k2) \<and> p_killed (procof i k2) = p_killed (procof i k)"
proof -
  obtain k1 where k1: "k1 = set_proc i (\<lambda>p. p\<lparr>p_state := EMBRYO, p_pid := nextpid (ks k)\<rparr>) k" by blast
  obtain k2 where k2: "k2 = k1\<lparr>ks := (ks k1)\<lparr>nextpid := nextpid (ks k1) + 1\<rparr>\<rparr>" by blast
  have f: "freelist (ks k2) = freelist (ks k)" by (simp add: k2 k1 set_proc_def upd_proc_def)
  with kalloc_first [of "ks k2" "kend ln"] assms(1) obtain s where
    s: "kalloc (kend ln) (ks k2) = Inr (freelist (ks k), s)" "proctab s = proctab (ks k2)" by auto
  obtain k3 where k3: "k3 = set_proc i (\<lambda>p. p\<lparr>p_kstack := freelist (ks k)\<rparr>) (k2\<lparr>ks := s\<rparr>)" by blast
  have kept: "p_killed (procof i k3) = p_killed (procof i k)"
    by (simp add: k3 procof_def set_proc_def upd_proc_def s(2) k2 k1)
  have "allocproc ln k = Inr (Some i, init_kstack ln i k3)"
    unfolding allocproc_def assms(2) using s(1) assms(1) by (simp add: Let_def on_ks_def k1 k2 k3)
  then show ?thesis using kept init_kstack_killed by blast
qed

text \<open>C30. \<open>kill(0)\<close> succeeds although no process has pid 0: it marks a free slot of the process table
  as killed, and the next process that is given this slot starts out killed.\<close>

theorem kill_zero_poisons:
  assumes "freelist (ks k) \<noteq> 0" and "first_index (\<lambda>i. p_pid (procof i k) = 0) [0..<NPROC] = Some i"
    and "first_index (\<lambda>i. p_state (procof i k) = UNUSED) [0..<NPROC] = Some i"
  shows "\<exists>k1 k2. kill 0 k = (True, k1) \<and> allocproc ln k1 = Inr (Some i, k2) \<and> p_killed (procof i k2)"
proof -
  let ?k1 = "set_proc i (\<lambda>p. p\<lparr>p_killed := True, p_state := (if p_state p = SLEEPING then RUNNABLE else p_state p)\<rparr>) k"
  have "kill 0 k = (True, ?k1)" using assms(2) by (simp add: kill_def)
  moreover have u: "p_state (procof i k) = UNUSED"
    using first_index_SomeD [OF assms(3)] by auto
  have "(\<lambda>j. p_state (procof j ?k1) = UNUSED) = (\<lambda>j. p_state (procof j k) = UNUSED)" using u by auto
  then have f: "first_index (\<lambda>j. p_state (procof j ?k1) = UNUSED) [0..<NPROC] = Some i" using assms(3) by simp
  have "freelist (ks ?k1) \<noteq> 0" using assms(1) by (simp add: set_proc_def upd_proc_def)
  from allocproc_keeps_killed [OF this f, of ln]
  have "\<exists>k2. allocproc ln ?k1 = Inr (Some i, k2) \<and> p_killed (procof i k2)" by simp
  ultimately show ?thesis by blast
qed

definition demo_free :: kern where
  "demo_free = demo_kern\<lparr>ks := (ks demo_kern)\<lparr>freelist := 0x80500000\<rparr>\<rparr>"

theorem kill_zero_poisons_witness:
  "\<exists>k1 k2. kill 0 demo_free = (True, k1) \<and> allocproc demo_linker k1 = Inr (Some 1, k2) \<and> p_killed (procof 1 k2)"
  by (rule kill_zero_poisons)
    (auto simp: first_index_Some_iff demo_free_def demo_kern_def procof_def proc0_def NPROC_def)

end
