(* ===== verification/Xv6_FileProps.thy ===== *)
theory Xv6_FileProps
  imports Xv6_ProcProps
begin

text \<open>
  Reference counts of open files. In every state between system calls the count of a file is the
  number of descriptors, over all processes, that refer to it; \<open>fork\<close> and \<open>exit\<close> keep this.
\<close>

section \<open>What leaves descriptors alone\<close>

definition ofiles :: "kern \<Rightarrow> nat \<Rightarrow> nat option list" where
  "ofiles k i = p_ofile (procof i k)"

lemma ofiles_wakeup [simp]: "ofiles (wakeup ch k) = ofiles k" "ftable (wakeup ch k) = ftable k"
  by (auto simp: ofiles_def wakeup_def wakeup1_def procof_def)

lemma fold_wakeup [simp]: "ofiles (fold wakeup chs k) = ofiles k" "ftable (fold wakeup chs k) = ftable k"
  by (induction chs arbitrary: k) auto

definition same_files :: "kern \<Rightarrow> kern \<Rightarrow> bool" where
  "same_files k k' \<longleftrightarrow> ofiles k' = ofiles k \<and> ftable k' = ftable k"

lemma do_fs_frame: "do_fs f k = Inr k' \<Longrightarrow> same_files k k'"
  by (auto simp: same_files_def do_fs_def put_fs_def) (simp add: ofiles_def procof_def fun_eq_iff)

lemma do_kfree_frame: "do_ks (kfree e a) k = Inr k' \<Longrightarrow> same_files k k'"
  by (auto simp: same_files_def do_ks_def kfree_def Let_def ofiles_def procof_def split: if_splits)

lemma upd_file_simps [simp]:
  "ofiles (upd_file f g k) = ofiles k" "ftable (upd_file f g k) = (ftable k)(f := g (ftable k f))"
  "ofiles (upd_pipe a p k) = ofiles k" "ftable (upd_pipe a p k) = ftable k"
  by (simp_all add: upd_file_def upd_pipe_def ofiles_def procof_def fun_eq_iff)

lemma set_ofile_simps [simp]:
  "ofiles (set_proc i (\<lambda>p. p\<lparr>p_ofile := (p_ofile p)[fd := v]\<rparr>) k) = (ofiles k)(i := (ofiles k i)[fd := v])"
  "ftable (set_proc i h k) = ftable k"
  by (auto simp: ofiles_def procof_def set_proc_def upd_proc_def)

lemma close_pipe_frame:
  assumes "close_pipe ln a w k = Inr k'"
  shows "same_files k k'"
proof -
  obtain fin p where c: "pipeclose w (pipes k a) = (fin, p)" by fastforce
  let ?k = "wakeup (if w then Ch_nread (unat a) else Ch_nwrite (unat a)) (upd_pipe a p k)"
  have "(if fin then do_ks (kfree (kend ln) a) ?k else Inr ?k) = Inr k'" using assms by (simp only: close_pipe_def c Let_def prod.case)
  then have "same_files ?k k'" using do_kfree_frame [of "kend ln" a ?k k'] by (cases fin) (auto simp: same_files_def)
  then show ?thesis by (simp add: same_files_def)
qed

lemma fileclose_effect:
  assumes r: "fileclose ln f k = Inr k'"
  shows "ofiles k' = ofiles k \<and> 1 \<le> f_ref (ftable k f) \<and>
    (\<forall>g. f_ref (ftable k' g) = f_ref (ftable k g) - (if g = f then 1 else 0))"
proof -
  have ge: "1 \<le> f_ref (ftable k f)" using r by (auto simp: fileclose_def split: if_splits)
  obtain k1 where k1: "k1 = upd_file f (\<lambda>x. x\<lparr>f_ref := f_ref x - 1\<rparr>) k" by blast
  show ?thesis
  proof (cases "f_ref (ftable k1 f) > 0")
    case True
    then have "k' = k1" using r ge by (simp add: fileclose_def Let_def k1)
    then show ?thesis using ge by (simp add: k1)
  next
    case False
    obtain k2 where k2: "k2 = upd_file f (\<lambda>x. x\<lparr>f_ref := 0, f_type := FD_NONE\<rparr>) k1" by blast
    let ?ff = "ftable k1 f"
    have run: "(case f_type ?ff of
            FD_PIPE \<Rightarrow> close_pipe ln (f_pipe ?ff) (writable ?ff) k2
          | FD_INODE \<Rightarrow>
              rbind (cur k2) (\<lambda>i.
              let me = p_pid (procof i k2) in
              rbind (do_fs begin_op k2) (\<lambda>k.
              rbind (do_fs (iput me (f_ip ?ff)) k) (\<lambda>k.
              do_fs (end_op me) k)))
          | FD_NONE \<Rightarrow> Inr k2) = Inr k'"
      using r ge False unfolding fileclose_def Let_def k1 [symmetric] k2 [symmetric] by simp
    have "same_files k2 k'"
    proof (cases "f_type ?ff")
      case FD_NONE
      then show ?thesis using run by (simp add: same_files_def)
    next
      case FD_PIPE
      then show ?thesis using run by (auto intro: close_pipe_frame)
    next
      case FD_INODE
      then obtain i ka kb where "do_fs begin_op k2 = Inr ka" "do_fs (iput (p_pid (procof i k2)) (f_ip ?ff)) ka = Inr kb"
        "do_fs (end_op (p_pid (procof i k2))) kb = Inr k'" using run by (auto simp: Let_def)
      then show ?thesis by (auto simp: same_files_def dest!: do_fs_frame)
    qed
    moreover have "f_ref (ftable k f) = 1" using ge False by (simp add: k1)
    ultimately show ?thesis using ge by (simp add: same_files_def k2 k1)
  qed
qed

section \<open>The counts\<close>

definition fd_slots :: "kern \<Rightarrow> nat \<Rightarrow> (nat \<times> nat) set" where
  "fd_slots k f = {(i, fd). i < NPROC \<and> fd < NOFILE \<and> ofiles k i ! fd = Some f}"

definition frefs_ok :: "kern \<Rightarrow> bool" where
  "frefs_ok k \<longleftrightarrow> (\<forall>i < NPROC. length (ofiles k i) = NOFILE) \<and>
     (\<forall>i < NPROC. \<forall>fd < NOFILE. \<forall>f. ofiles k i ! fd = Some f \<longrightarrow> f < NFILE) \<and>
     (\<forall>f < NFILE. f_ref (ftable k f) = int (card (fd_slots k f)))"

lemma finite_fd_slots [simp]: "finite (fd_slots k f)"
  by (rule finite_subset [of _ "{..<NPROC} \<times> {..<NOFILE}"]) (auto simp: fd_slots_def)

lemma frefs_okD:
  assumes "frefs_ok k"
  shows "i < NPROC \<Longrightarrow> length (ofiles k i) = NOFILE"
    "i < NPROC \<Longrightarrow> fd < NOFILE \<Longrightarrow> ofiles k i ! fd = Some f \<Longrightarrow> f < NFILE"
    "f < NFILE \<Longrightarrow> f_ref (ftable k f) = int (card (fd_slots k f))"
    "i < NPROC \<Longrightarrow> fd < NOFILE \<Longrightarrow> ofiles k i ! fd = Some f \<Longrightarrow> 1 \<le> f_ref (ftable k f)"
proof -
  show a: "i < NPROC \<Longrightarrow> length (ofiles k i) = NOFILE"
    "i < NPROC \<Longrightarrow> fd < NOFILE \<Longrightarrow> ofiles k i ! fd = Some f \<Longrightarrow> f < NFILE"
    "f < NFILE \<Longrightarrow> f_ref (ftable k f) = int (card (fd_slots k f))" for i fd f
    using assms by (auto simp: frefs_ok_def)
  assume i: "i < NPROC" "fd < NOFILE" "ofiles k i ! fd = Some f"
  then have "(i, fd) \<in> fd_slots k f" by (simp add: fd_slots_def)
  then have "0 < card (fd_slots k f)" by (auto simp: card_gt_0_iff)
  then show "1 \<le> f_ref (ftable k f)" using a(2,3) i by simp
qed

text \<open>Giving a free descriptor to an open file, and clearing one.\<close>

lemma frefs_ok_open:
  assumes ok: "frefs_ok k" and i: "i < NPROC" "fd < NOFILE" "ofiles k i ! fd = None" and f: "f < NFILE"
    and k': "ofiles k' = (ofiles k)(i := (ofiles k i)[fd := Some f])"
      "\<forall>g. f_ref (ftable k' g) = f_ref (ftable k g) + (if g = f then 1 else 0)"
  shows "frefs_ok k'"
proof -
  note L = frefs_okD(1) [OF ok i(1)]
  have "fd_slots k' g = (if g = f then insert (i, fd) (fd_slots k g) else fd_slots k g)" for g
    using i L by (auto simp: fd_slots_def k'(1) nth_list_update split: if_splits)
  moreover have "(i, fd) \<notin> fd_slots k f" using i by (simp add: fd_slots_def)
  ultimately have "f_ref (ftable k' g) = int (card (fd_slots k' g))" if "g < NFILE" for g
    using k'(2) frefs_okD(3) [OF ok that] by simp
  then show ?thesis using ok L i f unfolding frefs_ok_def by (auto simp: k'(1) nth_list_update)
qed

lemma frefs_ok_close:
  assumes ok: "frefs_ok k" and i: "i < NPROC" "fd < NOFILE" "ofiles k i ! fd = Some f"
    and k': "ofiles k' = (ofiles k)(i := (ofiles k i)[fd := None])"
      "\<forall>g. f_ref (ftable k' g) = f_ref (ftable k g) - (if g = f then 1 else 0)"
  shows "frefs_ok k'"
proof -
  note L = frefs_okD(1) [OF ok i(1)]
  have s: "fd_slots k' g = (if g = f then fd_slots k g - {(i, fd)} else fd_slots k g)" for g
    using i L by (auto simp: fd_slots_def k'(1) nth_list_update split: if_splits)
  moreover have m: "(i, fd) \<in> fd_slots k f" using i by (simp add: fd_slots_def)
  then have "int (card (fd_slots k f - {(i, fd)})) = int (card (fd_slots k f)) - 1"
    using card_Suc_Diff1 [OF finite_fd_slots m] by linarith
  ultimately have "f_ref (ftable k' g) = int (card (fd_slots k' g))" if "g < NFILE" for g
    using k'(2) frefs_okD(3) [OF ok that] by simp
  then show ?thesis using ok L i unfolding frefs_ok_def by (auto simp: k'(1) nth_list_update)
qed

section \<open>\<open>fork\<close> and \<open>exit\<close>\<close>

lemma fork_files_run:
  assumes "frefs_ok k" "p < NPROC" "np < NPROC" "p \<noteq> np" "distinct fds" "\<forall>fd \<in> set fds. fd < NOFILE \<and> ofiles k np ! fd = None"
  shows "\<exists>k'. fork_files p np fds k = Inr k' \<and> frefs_ok k' \<and>
    ofiles k' = (ofiles k)(np := map (\<lambda>fd. if fd \<in> set fds then ofiles k p ! fd else ofiles k np ! fd) [0..<NOFILE])"
  using assms
proof (induction fds arbitrary: k)
  case Nil
  have "map ((!) (ofiles k np)) [0..<NOFILE] = ofiles k np"
    using frefs_okD(1) [OF Nil.prems(1,3)] by (metis map_nth)
  then show ?case using Nil by simp
next
  case (Cons fd fds)
  note L = frefs_okD(1) [OF Cons.prems(1,3)]
  have fd: "fd < NOFILE" "ofiles k np ! fd = None" "fd \<notin> set fds" using Cons.prems(5,6) by auto
  show ?case
  proof (cases "ofiles k p ! fd")
    case None
    then have "fork_files p np (fd # fds) k = fork_files p np fds k" by (simp add: ofiles_def)
    moreover have "(if x \<in> set (fd # fds) then ofiles k p ! x else ofiles k np ! x) =
      (if x \<in> set fds then ofiles k p ! x else ofiles k np ! x)" for x using None fd(2) by auto
    ultimately show ?thesis using Cons.IH [OF Cons.prems(1-4)] Cons.prems(5,6) by simp
  next
    case (Some f)
    have f: "f < NFILE" "1 \<le> f_ref (ftable k f)" using frefs_okD(2,4) [OF Cons.prems(1,2) fd(1) Some] by auto
    obtain k1 where k1: "k1 = set_proc np (\<lambda>x. x\<lparr>p_ofile := (p_ofile x)[fd := Some f]\<rparr>) (upd_file f (\<lambda>x. x\<lparr>f_ref := f_ref x + 1\<rparr>) k)" by blast
    have run: "fork_files p np (fd # fds) k = fork_files p np fds k1"
      using Some f(2) by (simp add: filedup_def k1 ofiles_def)
    have o1: "ofiles k1 = (ofiles k)(np := (ofiles k np)[fd := Some f])" by (simp add: k1)
    have ok1: "frefs_ok k1"
      by (rule frefs_ok_open [OF Cons.prems(1,3) fd(1,2) f(1) o1]) (simp add: k1)
    have d: "distinct fds" using Cons.prems(5) by simp
    have "\<forall>x \<in> set fds. x < NOFILE \<and> ofiles k1 np ! x = None" using Cons.prems(6) fd(3) by (simp add: o1) (metis nth_list_update_neq)
    from Cons.IH [OF ok1 Cons.prems(2-4) d this] obtain k' where
      k': "fork_files p np fds k1 = Inr k'" "frefs_ok k'"
        "ofiles k' = (ofiles k1)(np := map (\<lambda>x. if x \<in> set fds then ofiles k1 p ! x else ofiles k1 np ! x) [0..<NOFILE])" by blast
    have "(if x \<in> set fds then ofiles k1 p ! x else ofiles k1 np ! x) = (if x \<in> set (fd # fds) then ofiles k p ! x else ofiles k np ! x)"
      if "x < NOFILE" for x using that Some Cons.prems(4) L fd(3) by (auto simp: o1 nth_list_update)
    then have m: "map (\<lambda>x. if x \<in> set fds then ofiles k1 p ! x else ofiles k1 np ! x) [0..<NOFILE] =
      map (\<lambda>x. if x \<in> set (fd # fds) then ofiles k p ! x else ofiles k np ! x) [0..<NOFILE]" by (intro map_cong) auto
    have "(ofiles k1)(np := v) = (ofiles k)(np := v)" for v by (simp add: o1)
    then show ?thesis using k' unfolding m run by metis
  qed
qed

lemma exit_files_run:
  assumes "frefs_ok k" "i < NPROC" "\<forall>fd \<in> set fds. fd < NOFILE" "exit_files ln i fds k = Inr k'"
  shows "frefs_ok k' \<and> (\<forall>fd \<in> set fds. ofiles k' i ! fd = None) \<and> (\<forall>j. j \<noteq> i \<longrightarrow> ofiles k' j = ofiles k j) \<and>
    (\<forall>fd. ofiles k i ! fd = None \<longrightarrow> fd < NOFILE \<longrightarrow> ofiles k' i ! fd = None)"
  using assms
proof (induction fds arbitrary: k)
  case Nil
  then show ?case by simp
next
  case (Cons fd fds)
  have fd: "fd < NOFILE" using Cons.prems(3) by simp
  show ?case
  proof (cases "ofiles k i ! fd")
    case None
    then have "exit_files ln i fds k = Inr k'" using Cons.prems(4) by (simp add: ofiles_def)
    from Cons.IH [OF Cons.prems(1,2) _ this] Cons.prems(3) None fd show ?thesis by auto
  next
    case (Some f)
    then obtain k1 where k1: "fileclose ln f k = Inr k1"
      "exit_files ln i fds (set_proc i (\<lambda>p. p\<lparr>p_ofile := (p_ofile p)[fd := None]\<rparr>) k1) = Inr k'"
      using Cons.prems(4) by (auto simp: ofiles_def)
    note F = fileclose_effect [OF k1(1)]
    let ?k = "set_proc i (\<lambda>p. p\<lparr>p_ofile := (p_ofile p)[fd := None]\<rparr>) k1"
    have o1: "ofiles ?k = (ofiles k)(i := (ofiles k i)[fd := None])" using F by simp
    have ok1: "frefs_ok ?k"
      by (rule frefs_ok_close [OF Cons.prems(1,2) fd Some o1]) (use F in simp)
    from Cons.IH [OF ok1 Cons.prems(2) _ k1(2)] Cons.prems(3) have
      R: "frefs_ok k'" "\<forall>fd \<in> set fds. ofiles k' i ! fd = None" "\<forall>j. j \<noteq> i \<longrightarrow> ofiles k' j = ofiles ?k j"
        "\<forall>x. ofiles ?k i ! x = None \<longrightarrow> x < NOFILE \<longrightarrow> ofiles k' i ! x = None" by auto
    have "ofiles ?k i ! x = None" if "x = fd \<or> ofiles k i ! x = None" "x < NOFILE" for x
      using that frefs_okD(1) [OF Cons.prems(1,2)] unfolding o1 by (cases "x = fd") auto
    moreover have "ofiles ?k j = ofiles k j" if "j \<noteq> i" for j using that by (simp add: o1 del: set_ofile_simps)
    ultimately show ?thesis using R fd by simp
  qed
qed

text \<open>A process with one open file, the read end of a pipe.\<close>

definition demo_files :: kern where
  "demo_files = set_proc 0 (\<lambda>p. p\<lparr>p_ofile := (p_ofile p)[0 := Some 0]\<rparr>)
     (upd_file 0 (\<lambda>x. x\<lparr>f_type := FD_PIPE, f_ref := f_ref x + 1, readable := True\<rparr>) demo_kern)"

lemma demo_ofiles: "ofiles demo_kern i = replicate NOFILE None"
  "ofiles demo_files = (ofiles demo_kern)(0 := (replicate NOFILE None)[0 := Some 0])"
  by (simp_all add: ofiles_def demo_files_def demo_kern_def procof_def proc0_def set_proc_def upd_proc_def upd_file_def fun_eq_iff)

lemma demo_files_ok: "frefs_ok demo_files"
proof (rule frefs_ok_open)
  have "fd_slots demo_kern f = {}" for f by (auto simp: fd_slots_def demo_ofiles)
  then show "frefs_ok demo_kern" by (simp add: frefs_ok_def demo_ofiles) (simp add: demo_kern_def)
  show "ofiles demo_kern 0 ! 0 = None" by (simp add: demo_ofiles NOFILE_def)
  show "ofiles demo_files = (ofiles demo_kern)(0 := (ofiles demo_kern 0)[0 := Some 0])" by (simp only: demo_ofiles)
  show "\<forall>g. f_ref (ftable demo_files g) = f_ref (ftable demo_kern g) + (if g = 0 then 1 else 0)" by (simp add: demo_files_def)
qed (simp_all add: NPROC_def NOFILE_def NFILE_def)

lemma exit_files_none:
  "\<forall>fd \<in> set fds. ofiles k i ! fd = None \<Longrightarrow> exit_files ln i fds k = Inr k"
  by (induction fds) (auto simp: ofiles_def)

lemma demo_exit: "\<exists>k'. exit_files demo_linker 0 [0..<NOFILE] demo_files = Inr k'"
proof -
  obtain k1 where k1: "fileclose demo_linker 0 demo_files = Inr k1"
    by (simp add: fileclose_def demo_files_def demo_kern_def upd_file_def set_proc_def close_pipe_def pipeclose_def new_pipe_def Let_def)
  let ?k = "set_proc 0 (\<lambda>p. p\<lparr>p_ofile := (p_ofile p)[0 := None]\<rparr>) k1"
  have "ofiles ?k 0 ! fd = None" if "fd < NOFILE" for fd
    using that fileclose_effect [OF k1] by (simp add: demo_ofiles NOFILE_def nth_list_update)
  then have "exit_files demo_linker 0 [1..<NOFILE] ?k = Inr ?k" by (intro exit_files_none ballI) (simp only: set_upt atLeastLessThan_iff)
  moreover have "[0..<NOFILE] = 0 # [1..<NOFILE]" by (simp add: NOFILE_def upt_rec)
  moreover have "p_ofile (procof 0 demo_files) ! 0 = Some 0"
    using demo_ofiles(2) by (simp add: ofiles_def NOFILE_def fun_eq_iff)
  ultimately show ?thesis using k1 by simp
qed

text \<open>C8. \<open>fork\<close> shares the open files: for a child without open files the loop over the descriptors
  succeeds, gives the child exactly the parent's descriptors, and raises the reference counts so
  that they again equal the numbers of descriptors.\<close>

theorem fork_shares_files:
  assumes "frefs_ok k" and "p < NPROC" and "np < NPROC" and "p \<noteq> np" and "ofiles k np = replicate NOFILE None"
  shows "\<exists>k'. fork_files p np [0..<NOFILE] k = Inr k' \<and> frefs_ok k' \<and> ofiles k' = (ofiles k)(np := ofiles k p)"
proof -
  have e: "map (\<lambda>fd. if fd \<in> set [0..<NOFILE] then ofiles k p ! fd else ofiles k np ! fd) [0..<NOFILE] = ofiles k p"
    using frefs_okD(1) [OF assms(1,2)] by (intro nth_equalityI) auto
  show ?thesis using fork_files_run [OF assms(1-4), of "[0..<NOFILE]"] assms(5) unfolding e by simp
qed

theorem fork_shares_files_witness:
  "\<exists>k'. fork_files 0 1 [0..<NOFILE] demo_files = Inr k' \<and> frefs_ok k' \<and> ofiles k' 1 ! 0 = Some 0 \<and> f_ref (ftable k' 0) = 2"
proof -
  obtain k' where k': "fork_files 0 1 [0..<NOFILE] demo_files = Inr k'" "frefs_ok k'"
      "ofiles k' = (ofiles demo_files)(1 := ofiles demo_files 0)"
    using fork_shares_files [OF demo_files_ok, of 0 1] by (auto simp: NPROC_def demo_ofiles)
  have "fd_slots k' 0 = {(0, 0), (1, 0)}"
    using k'(3) by (auto simp: fd_slots_def demo_ofiles NPROC_def NOFILE_def nth_list_update split: if_splits)
  then have "f_ref (ftable k' 0) = 2" using frefs_okD(3) [OF k'(2), of 0] by (simp add: NFILE_def)
  then show ?thesis using k' by (auto simp: demo_ofiles NOFILE_def)
qed

text \<open>C9. \<open>exit\<close> closes all files of the process: when its loop ends, no descriptor of the process is
  open, those of other processes are unchanged, and the reference counts again equal the numbers of
  descriptors.\<close>

theorem exit_closes_files:
  assumes "frefs_ok k" and "i < NPROC" and "exit_files ln i [0..<NOFILE] k = Inr k'"
  shows "frefs_ok k' \<and> (\<forall>fd < NOFILE. ofiles k' i ! fd = None) \<and> (\<forall>j. j \<noteq> i \<longrightarrow> ofiles k' j = ofiles k j)"
  using exit_files_run [OF assms(1,2) _ assms(3)] by auto

theorem exit_closes_files_witness:
  "\<exists>k'. exit_files demo_linker 0 [0..<NOFILE] demo_files = Inr k' \<and> frefs_ok k' \<and> f_ref (ftable k' 0) = 0"
proof -
  obtain k' where k': "exit_files demo_linker 0 [0..<NOFILE] demo_files = Inr k'" using demo_exit by blast
  then have *: "frefs_ok k'" "\<forall>fd < NOFILE. ofiles k' 0 ! fd = None" "\<forall>j. j \<noteq> 0 \<longrightarrow> ofiles k' j = ofiles demo_files j"
    using exit_closes_files [OF demo_files_ok, of 0 demo_linker k'] by (auto simp: NPROC_def)
  have "ofiles k' i ! fd = None" if "fd < NOFILE" for i fd
    using *(2,3) that by (cases "i = 0") (auto simp: demo_ofiles)
  then have "fd_slots k' 0 = {}" by (auto simp: fd_slots_def)
  then have "f_ref (ftable k' 0) = 0" using frefs_okD(3) [OF *(1), of 0] by (simp add: NFILE_def)
  then show ?thesis using k' * by blast
qed

end
