(* ===== verification/Xv6_FsProps.thy ===== *)
theory Xv6_FsProps
  imports Xv6_Fs
begin

text \<open>
  Properties of the file system's path parser.
\<close>

section \<open>Path elements\<close>

text \<open>The reference: the nonempty parts of the path between slashes.\<close>

fun split_slash :: "u8 list \<Rightarrow> u8 list list" where
  "split_slash [] = [[]]"
| "split_slash (c # cs) =
     (if c = 0x2F then [] # split_slash cs else (case split_slash cs of [] \<Rightarrow> [[c]] | e # es \<Rightarrow> (c # e) # es))"

definition elems :: "u8 list \<Rightarrow> u8 list list" where
  "elems path = filter (\<lambda>e. e \<noteq> []) (split_slash path)"

lemma elems_simps [simp]: "elems [] = []" "elems (0x2F # p) = elems p"
  by (simp_all add: elems_def)

lemma elems_skip: "elems (dropWhile (\<lambda>ch. ch = 0x2F) p) = elems p"
  by (induction p) auto

lemma split_slash_not_Nil [simp]: "split_slash p \<noteq> []"
  by (cases p) (auto split: list.splits)

lemma split_slash_prefix:
  "0x2F \<notin> set e \<Longrightarrow> split_slash (e @ p) = (e @ hd (split_slash p)) # tl (split_slash p)"
  by (induction e) (auto split: list.splits)

lemma elems_word:
  assumes "e \<noteq> []" "0x2F \<notin> set e" "p = [] \<or> hd p = 0x2F"
  shows "elems (e @ p) = e # elems p"
proof -
  have "hd (split_slash p) = []" using assms(3) by (cases p) auto
  moreover have "filter (\<lambda>e. e \<noteq> []) (tl (split_slash p)) = elems p"
    using calculation by (cases "split_slash p") (auto simp: elems_def)
  ultimately show ?thesis using assms(1) by (simp add: elems_def split_slash_prefix [OF assms(2)])
qed

lemma elems_Nil_iff: "p = [] \<or> hd p \<noteq> 0x2F \<Longrightarrow> elems p = [] \<longleftrightarrow> p = []"
proof -
  assume "p = [] \<or> hd p \<noteq> 0x2F"
  then consider "p = []" | c cs where "p = c # cs" "c \<noteq> 0x2F" by (cases p) auto
  then show ?thesis by cases (auto simp: elems_def split: list.splits)
qed

text \<open>The name that a directory entry or a name buffer holds.\<close>

definition cname :: "u8 list \<Rightarrow> u8 list" where
  "cname n = takeWhile (\<lambda>c. c \<noteq> 0) n"

lemma takeWhile_all: "\<forall>x \<in> set xs. P x \<Longrightarrow> takeWhile P (xs @ ys) = xs @ takeWhile P ys"
  by (induction xs) auto

lemma skipelem_name:
  assumes "0 \<notin> set e" "length name = DIRSIZ"
    "name' = (if length e \<ge> DIRSIZ then put_bytes 0 (take DIRSIZ e) name else put_bytes 0 (e @ [0]) name)"
  shows "length name' = DIRSIZ" "cname name' = take DIRSIZ e"
proof -
  show "length name' = DIRSIZ" using assms(2,3) by (auto simp: put_bytes_def)
  have "\<forall>c \<in> set (take DIRSIZ e). c \<noteq> 0" using assms(1) by (auto dest: in_set_takeD)
  moreover have "name' = take DIRSIZ e @ (if length e \<ge> DIRSIZ then [] else 0 # drop (Suc (length e)) name)"
    using assms(2,3) by (auto simp: put_bytes_def)
  ultimately show "cname name' = take DIRSIZ e" unfolding cname_def
    using takeWhile_all [of "take DIRSIZ e" "\<lambda>c. c \<noteq> 0"] by (auto simp: cname_def)
qed

lemma skipelem_None: "elems path = [] \<Longrightarrow> skipelem path name = (None, name)"
proof -
  assume e: "elems path = []"
  let ?p = "dropWhile (\<lambda>ch. ch = 0x2F) path"
  have "?p = [] \<or> hd ?p \<noteq> 0x2F" using hd_dropWhile [of "\<lambda>ch. ch = 0x2F" path] by blast
  then have "?p = []" using elems_Nil_iff [of ?p] e elems_skip [of path] by simp
  then show ?thesis by (simp add: skipelem_def)
qed

lemma skipelem_Some:
  assumes "elems path = e # es" "0 \<notin> set path" "length name = DIRSIZ"
  shows "\<exists>rest name'. skipelem path name = (Some rest, name') \<and> elems rest = es \<and> (rest = [] \<longleftrightarrow> es = []) \<and>
    cname name' = take DIRSIZ e \<and> length name' = DIRSIZ \<and> 0 \<notin> set rest"
proof -
  let ?p = "dropWhile (\<lambda>ch. ch = 0x2F) path"
  let ?e = "takeWhile (\<lambda>ch. ch \<noteq> 0x2F) ?p" and ?q = "dropWhile (\<lambda>ch. ch \<noteq> 0x2F) ?p"
  let ?r = "dropWhile (\<lambda>ch. ch = 0x2F) ?q"
  define name' where "name' = (if length ?e \<ge> DIRSIZ then put_bytes 0 (take DIRSIZ ?e) name else put_bytes 0 (?e @ [0]) name)"
  have sub: "set ?e \<subseteq> set path" "set ?r \<subseteq> set path"
    by (auto dest!: set_takeWhileD set_dropWhileD)
  have ne: "?p \<noteq> []" using assms(1) elems_skip [of path] elems_simps(1) by (metis list.distinct(1))
  have hd: "hd ?p \<noteq> 0x2F" by (rule hd_dropWhile [OF ne])
  then have e1: "?e \<noteq> []" "0x2F \<notin> set ?e" using ne by (cases ?p; auto dest: set_takeWhileD)+
  have q: "?q = [] \<or> hd ?q = 0x2F" using hd_dropWhile [of "\<lambda>ch. ch \<noteq> 0x2F" ?p] by blast
  have "elems path = elems (?e @ ?q)" using elems_skip [of path] by simp
  also have "\<dots> = ?e # elems ?r" using elems_word [OF e1 q] elems_skip [of ?q] by simp
  finally have es: "e = ?e" "es = elems ?r" using assms(1) by simp_all
  have run: "skipelem path name = (Some ?r, name')"
    using ne by (simp only: skipelem_def Let_def name'_def if_False)
  have "?r = [] \<or> hd ?r \<noteq> 0x2F" using hd_dropWhile [of "\<lambda>ch. ch = 0x2F" ?q] by blast
  then have "?r = [] \<longleftrightarrow> es = []" using elems_Nil_iff [of ?r] es(2) by simp
  moreover have "0 \<notin> set ?e" "0 \<notin> set ?r" using sub assms(2) by auto
  ultimately show ?thesis using run es skipelem_name [OF _ assms(3) name'_def] by metis
qed

text \<open>The names that \<open>namex\<close> looks up one after the other, and whether nothing follows.\<close>

function path_names :: "u8 list \<Rightarrow> u8 list \<Rightarrow> (u8 list \<times> bool) list" where
  "path_names path name =
     (case skipelem path name of
        (None, name) \<Rightarrow> []
      | (Some path, name) \<Rightarrow> (cname name, path = []) # path_names path name)"
  by pat_completeness auto
termination
  by (relation "measure (\<lambda>(path, name). length path)") (auto dest!: skipelem_shorter [OF sym])

declare path_names.simps [simp del]

section \<open>Properties\<close>

text \<open>C36. \<open>skipelem\<close> parses paths: its repeated calls end, give exactly the nonempty parts of the path
  between slashes, cut to \<open>DIRSIZ\<close> bytes, and leave an empty rest exactly after the last one.\<close>

theorem path_names_elems:
  assumes "0 \<notin> set path" and "length name = DIRSIZ"
  shows "path_names path name =
    map (\<lambda>e. (take DIRSIZ e, False)) (butlast (elems path)) @
    (if elems path = [] then [] else [(take DIRSIZ (last (elems path)), True)])"
  using assms
proof (induction "elems path" arbitrary: path name)
  case Nil
  then show ?case by (subst path_names.simps) (simp add: skipelem_None)
next
  case (Cons e es)
  from skipelem_Some [OF Cons.hyps(2) [symmetric] Cons.prems] obtain rest name' where
    r: "skipelem path name = (Some rest, name')" "elems rest = es" "rest = [] \<longleftrightarrow> es = []"
      "cname name' = take DIRSIZ e" "length name' = DIRSIZ" "0 \<notin> set rest" by blast
  then have "path_names path name = (take DIRSIZ e, es = []) # path_names rest name'"
    by (subst path_names.simps) simp
  moreover have "path_names rest name' = map (\<lambda>e. (take DIRSIZ e, False)) (butlast es) @ (if es = [] then [] else [(take DIRSIZ (last es), True)])"
    using Cons.hyps(1) [OF r(2) [symmetric] r(6,5)] r(2) by simp
  ultimately show ?case by (simp add: Cons.hyps(2) [symmetric])
qed

theorem path_names_elems_witness:
  "path_names [0x2F, 0x61, 0x2F, 0x2F, 0x62, 0x63, 0x2F] (replicate DIRSIZ 0) = [([0x61], False), ([0x62, 0x63], True)]"
proof -
  have "elems [0x2F, 0x61, 0x2F, 0x2F, 0x62, 0x63, 0x2F] = [[0x61], [0x62, 0x63]]" by code_simp
  then show ?thesis using path_names_elems [of "[0x2F, 0x61, 0x2F, 0x2F, 0x62, 0x63, 0x2F]" "replicate DIRSIZ 0"]
    by (simp add: DIRSIZ_def)
qed

end
