(* ===== verification/Xv6_Mkfs.thy ===== *)
theory Xv6_Mkfs
  imports Xv6_Fstate
begin

text \<open>
  The image builder \<open>mkfs.c\<close>. The image is a function from block numbers to blocks with the length of the
  file; the files to copy are given with their names and contents. A failing assertion or host call
  is a \<open>Panic\<close>. The host is little-endian, as the unconverted uses of the superblock in the source
  need; then \<open>xint\<close> and \<open>xshort\<close> are identities, and the stores and loads are those of \<open>Xv6_Bytes\<close>.
\<close>

section \<open>Layout\<close>

definition NINODES :: nat where "NINODES = 200"
definition nbitmap :: nat where "nbitmap = (FSSIZE + SWAPBLOCKS) div (BSIZE * 8) + 1"
definition ninodeblocks :: nat where "ninodeblocks = NINODES div IPB + 1"
definition mk_nlog :: nat where "mk_nlog = LOGSIZE"
definition nmeta :: nat where "nmeta = 2 + mk_nlog + ninodeblocks + nbitmap"
definition mk_nblocks :: nat where "mk_nblocks = FSSIZE - nmeta"

definition mk_sb :: superblock where
  "mk_sb = \<lparr>sb_size = of_nat (FSSIZE + SWAPBLOCKS), nblocks = of_nat mk_nblocks, ninodes = of_nat NINODES, nlog = of_nat mk_nlog,
     logstart = of_nat (2 + SWAPBLOCKS), inodestart = of_nat (2 + mk_nlog + SWAPBLOCKS),
     bmapstart = of_nat (2 + mk_nlog + ninodeblocks + SWAPBLOCKS), swapblockstart = 2, nswapblocks = of_nat SWAPBLOCKS\<rparr>"

record mkfs =
  img :: "u32 \<Rightarrow> u8 list"
  img_len :: nat
  freeinode :: u32
  freeblock :: u32

record dinode =
  d_type :: u16
  d_major :: u16
  d_minor :: u16
  d_nlink :: u16
  d_size :: u32
  d_addrs :: "u32 list"

section \<open>Sectors and inodes\<close>

text \<open>The byte offset \<open>sec * BSIZE\<close> is a 32-bit product.\<close>

definition sect_at :: "u32 \<Rightarrow> u32" where
  "sect_at sec = sec * of_nat BSIZE div of_nat BSIZE"

definition wsect :: "u32 \<Rightarrow> u8 list \<Rightarrow> mkfs \<Rightarrow> mkfs" where
  "wsect sec b s = s\<lparr>img := (img s)(sect_at sec := b), img_len := max (img_len s) (unat (sect_at sec) + 1)\<rparr>"

definition rsect :: "u32 \<Rightarrow> mkfs \<Rightarrow> u8 list res" where
  "rsect sec s = (if unat (sect_at sec) < img_len s then Inr (img s (sect_at sec)) else Inl (Panic ''read''))"

definition put_dino :: "nat \<Rightarrow> dinode \<Rightarrow> u8 list \<Rightarrow> u8 list" where
  "put_dino o' di d =
     put_array (o' + 12) (d_addrs di) (put32 (o' + 8) (d_size di) (put16 (o' + 6) (d_nlink di)
       (put16 (o' + 4) (d_minor di) (put16 (o' + 2) (d_major di) (put16 o' (d_type di) d)))))"

definition get_dino :: "nat \<Rightarrow> u8 list \<Rightarrow> dinode" where
  "get_dino o' d = \<lparr>d_type = get16 d o', d_major = get16 d (o' + 2), d_minor = get16 d (o' + 4), d_nlink = get16 d (o' + 6),
     d_size = get32 d (o' + 8), d_addrs = get_array d (o' + 12) (NDIRECT + 1)\<rparr>"

definition ino_off :: "u32 \<Rightarrow> nat" where
  "ino_off inum = unat inum mod IPB * DINODE"

definition winode :: "u32 \<Rightarrow> dinode \<Rightarrow> mkfs \<Rightarrow> mkfs res" where
  "winode inum ip s =
     (let bn = IBLOCK inum mk_sb in
      rbind (rsect bn s) (\<lambda>b. Inr (wsect bn (put_dino (ino_off inum) ip b) s)))"

definition rinode :: "u32 \<Rightarrow> mkfs \<Rightarrow> dinode res" where
  "rinode inum s = rbind (rsect (IBLOCK inum mk_sb) s) (\<lambda>b. Inr (get_dino (ino_off inum) b))"

definition mk_ialloc :: "u16 \<Rightarrow> mkfs \<Rightarrow> (u32 \<times> mkfs) res" where
  "mk_ialloc ty s =
     (let inum = freeinode s; s = s\<lparr>freeinode := freeinode s + 1\<rparr> in
      rbind (winode inum \<lparr>d_type = ty, d_major = 0, d_minor = 0, d_nlink = 1, d_size = 0, d_addrs = replicate (NDIRECT + 1) 0\<rparr> s) (\<lambda>s.
      Inr (inum, s)))"

section \<open>Appending\<close>

text \<open>\<open>freeblock++\<close>.\<close>

definition new_block :: "mkfs \<Rightarrow> u32 \<times> mkfs" where
  "new_block s = (freeblock s, s\<lparr>freeblock := freeblock s + 1\<rparr>)"

text \<open>The block that holds block \<open>fbn\<close> of the file, allocated when it is missing.\<close>

definition iappend_block :: "nat \<Rightarrow> dinode \<Rightarrow> mkfs \<Rightarrow> (u32 \<times> dinode \<times> mkfs) res" where
  "iappend_block fbn din s =
     (if fbn < NDIRECT then
        let (din, s) = (if d_addrs din ! fbn = 0 then let (b, s) = new_block s in (din\<lparr>d_addrs := (d_addrs din)[fbn := b]\<rparr>, s) else (din, s))
        in Inr (d_addrs din ! fbn, din, s)
      else
        let (din, s) = (if d_addrs din ! NDIRECT = 0 then let (b, s) = new_block s in (din\<lparr>d_addrs := (d_addrs din)[NDIRECT := b]\<rparr>, s) else (din, s))
        in rbind (rsect (d_addrs din ! NDIRECT) s) (\<lambda>indirect.
           if get32 indirect (4 * (fbn - NDIRECT)) = 0 then
             let (b, s) = new_block s; indirect = put32 (4 * (fbn - NDIRECT)) b indirect;
                 s = wsect (d_addrs din ! NDIRECT) indirect s
             in Inr (get32 indirect (4 * (fbn - NDIRECT)), din, s)
           else Inr (get32 indirect (4 * (fbn - NDIRECT)), din, s)))"

lemma iappend_chunk: "0 < n \<Longrightarrow> 0 < min n ((off div BSIZE + 1) * BSIZE - off)"
proof -
  assume "0 < n"
  have "off < (off div 512 + 1) * 512" using dividend_less_times_div [of 512 off] by simp
  then show ?thesis using \<open>0 < n\<close> by (simp add: BSIZE_def)
qed

function iappend_loop :: "dinode \<Rightarrow> nat \<Rightarrow> u8 list \<Rightarrow> mkfs \<Rightarrow> (dinode \<times> nat \<times> mkfs) res" where
  "iappend_loop din off p s =
     (if p = [] then Inr (din, off, s)
      else
        let fbn = off div BSIZE in
        if \<not> fbn < MAXFILE then Inl (Panic ''fbn < MAXFILE'')
        else
          rbind (iappend_block fbn din s) (\<lambda>(x, din, s).
          let n1 = min (length p) ((fbn + 1) * BSIZE - off) in
          rbind (rsect x s) (\<lambda>b.
          iappend_loop din (off + n1) (drop n1 p) (wsect x (put_bytes (off - fbn * BSIZE) (take n1 p) b) s))))"
  by pat_completeness auto
termination
proof (relation "measure (\<lambda>(din, off, p, s). length p)", goal_cases)
  case (2 din off p s)
  then show ?case using iappend_chunk [of "length p" off] by auto
qed simp

declare iappend_loop.simps [simp del]

definition iappend :: "u32 \<Rightarrow> u8 list \<Rightarrow> mkfs \<Rightarrow> mkfs res" where
  "iappend inum xp s =
     rbind (rinode inum s) (\<lambda>din.
     rbind (iappend_loop din (unat (d_size din)) xp s) (\<lambda>(din, off, s).
     winode inum (din\<lparr>d_size := of_nat off\<rparr>) s))"

section \<open>The whole image\<close>

definition mk_bitmap :: "nat \<Rightarrow> u8 list" where
  "mk_bitmap used = fold (\<lambda>i b. b[i div 8 := b ! (i div 8) OR push_bit (i mod 8) 1]) [0..<used] (replicate BSIZE 0)"

definition mk_balloc :: "nat \<Rightarrow> mkfs \<Rightarrow> mkfs res" where
  "mk_balloc used s =
     (if used < BSIZE * 8 then Inr (wsect (bmapstart mk_sb) (mk_bitmap used) s) else Inl (Panic ''used < BSIZE*8''))"

definition sb_bytes :: "superblock \<Rightarrow> u8 list" where
  "sb_bytes sb = put_array 0 [sb_size sb, nblocks sb, ninodes sb, nlog sb, logstart sb, inodestart sb, bmapstart sb,
     swapblockstart sb, nswapblocks sb] (replicate BSIZE 0)"

text \<open>A directory entry; the name is cut or padded to \<open>DIRSIZ\<close> bytes.\<close>

definition dirent_bytes :: "u32 \<Rightarrow> u8 list \<Rightarrow> u8 list" where
  "dirent_bytes inum name = put16 0 (ucast inum) (replicate 2 0) @ take DIRSIZ (name @ replicate DIRSIZ 0)"

text \<open>The blocks in which \<open>read\<close> delivers a file.\<close>

function chunks :: "u8 list \<Rightarrow> u8 list list" where
  "chunks bs = (if bs = [] then [] else take BSIZE bs # chunks (drop BSIZE bs))"
  by pat_completeness auto
termination
  by (relation "measure length") (auto simp: BSIZE_def)

declare chunks.simps [simp del]

fun iappends :: "u32 \<Rightarrow> u8 list list \<Rightarrow> mkfs \<Rightarrow> mkfs res" where
  "iappends inum [] s = Inr s"
| "iappends inum (c # cs) s = rbind (iappend inum c s) (iappends inum cs)"

text \<open>One file of the command line; a leading underscore is dropped.\<close>

definition add_file :: "u32 \<Rightarrow> u8 list \<times> u8 list \<Rightarrow> mkfs \<Rightarrow> mkfs res" where
  "add_file rootino f s =
     (case f of (name, contents) \<Rightarrow>
        if 0x2F \<in> set name then Inl (Panic ''index(argv[i], / ) == 0'')
        else
          let name = (if name \<noteq> [] \<and> hd name = 0x5F then tl name else name) in
          rbind (mk_ialloc T_FILE s) (\<lambda>(inum, s).
          rbind (iappend rootino (dirent_bytes inum name) s) (\<lambda>s.
          iappends inum (chunks contents) s)))"

fun add_files :: "u32 \<Rightarrow> (u8 list \<times> u8 list) list \<Rightarrow> mkfs \<Rightarrow> mkfs res" where
  "add_files rootino [] s = Inr s"
| "add_files rootino (f # fs) s = rbind (add_file rootino f s) (add_files rootino fs)"

text \<open>The empty image with its superblock.\<close>

definition mk_empty :: mkfs where
  "mk_empty = wsect 1 (sb_bytes mk_sb) (fold (\<lambda>i. wsect (of_nat i) (replicate BSIZE 0)) [0..<FSSIZE + SWAPBLOCKS]
     \<lparr>img = (\<lambda>_. replicate BSIZE 0), img_len = 0, freeinode = 1, freeblock = of_nat nmeta\<rparr>)"

definition mk_root :: "mkfs \<Rightarrow> (u32 \<times> mkfs) res" where
  "mk_root s =
     rbind (mk_ialloc T_DIR s) (\<lambda>(rootino, s).
     if rootino \<noteq> ROOTINO then Inl (Panic ''rootino == ROOTINO'')
     else
       rbind (iappend rootino (dirent_bytes rootino [0x2E]) s) (\<lambda>s.
       rbind (iappend rootino (dirent_bytes rootino [0x2E, 0x2E]) s) (\<lambda>s.
       Inr (rootino, s))))"

definition mkfs_main :: "(u8 list \<times> u8 list) list \<Rightarrow> mkfs res" where
  "mkfs_main files =
     rbind (mk_root mk_empty) (\<lambda>(rootino, s).
     rbind (add_files rootino files s) (\<lambda>s.
     rbind (rinode rootino s) (\<lambda>din.
     rbind (winode rootino (din\<lparr>d_size := of_nat ((unat (d_size din) div BSIZE + 1) * BSIZE)\<rparr>) s) (\<lambda>s.
     mk_balloc (unat (freeblock s)) s))))"

section \<open>Sectors\<close>

lemma sect_at_small [simp]: "b < 0x800000 \<Longrightarrow> sect_at b = b"
proof -
  assume "b < 0x800000"
  then have b: "unat b < 0x800000" by (simp add: word_less_nat_alt)
  have "unat (b * 512) = unat b * 512" using b by (simp add: unat_word_ariths)
  then show ?thesis by (simp add: sect_at_def BSIZE_def word_unat_eq_iff unat_div)
qed

lemma sect_at_img [simp]: "b < 0xBB8 \<Longrightarrow> sect_at b = b"
  by (rule sect_at_small) (simp add: word_less_nat_alt)

definition img_ok :: "mkfs \<Rightarrow> bool" where
  "img_ok s \<longleftrightarrow> img_len s = FSSIZE + SWAPBLOCKS \<and> (\<forall>b. length (img s b) = BSIZE) \<and> of_nat nmeta \<le> freeblock s
     \<and> (\<forall>b. freeblock s \<le> b \<longrightarrow> b < of_nat (2 + SWAPBLOCKS) \<longrightarrow> img s b = replicate BSIZE 0)"

lemma layout [simp]:
  "nmeta = 59" "inodestart mk_sb = 2032" "bmapstart mk_sb = 2058" "logstart mk_sb = 2002"
  by (simp_all add: nmeta_def mk_nlog_def ninodeblocks_def nbitmap_def mk_sb_def LOGSIZE_def MAXOPBLOCKS_def
      NINODES_def IPB_def DINODE_def BSIZE_def FSSIZE_def SWAPBLOCKS_def)

lemma rsect_ok: "img_len s = FSSIZE + SWAPBLOCKS \<Longrightarrow> b < 0xBB8 \<Longrightarrow> rsect b s = Inr (img s b)"
  by (simp add: rsect_def FSSIZE_def SWAPBLOCKS_def word_less_nat_alt)

lemma wsect_ok:
  "img_len s = FSSIZE + SWAPBLOCKS \<Longrightarrow> b < 0xBB8 \<Longrightarrow> wsect b d s = s\<lparr>img := (img s)(b := d)\<rparr>"
  by (simp add: wsect_def FSSIZE_def SWAPBLOCKS_def word_less_nat_alt max_def)

section \<open>Files of the image\<close>

text \<open>Block \<open>n\<close> of a file, and the bytes of its first \<open>off\<close> positions.\<close>

definition fblock :: "mkfs \<Rightarrow> dinode \<Rightarrow> nat \<Rightarrow> u32" where
  "fblock s di n = (if n < NDIRECT then d_addrs di ! n else get32 (img s (d_addrs di ! NDIRECT)) (4 * (n - NDIRECT)))"

definition fbytes :: "mkfs \<Rightarrow> dinode \<Rightarrow> nat \<Rightarrow> u8 list" where
  "fbytes s di off = map (\<lambda>i. img s (fblock s di (i div BSIZE)) ! (i mod BSIZE)) [0..<off]"

text \<open>The blocks of a file with \<open>k\<close> data blocks.\<close>

definition fused :: "mkfs \<Rightarrow> dinode \<Rightarrow> nat \<Rightarrow> u32 list" where
  "fused s di k = map (fblock s di) [0..<k] @ (if NDIRECT < k then [d_addrs di ! NDIRECT] else [])"

definition file_ok :: "mkfs \<Rightarrow> dinode \<Rightarrow> nat \<Rightarrow> bool" where
  "file_ok s di k \<longleftrightarrow> length (d_addrs di) = NDIRECT + 1 \<and> k \<le> MAXFILE \<and> distinct (fused s di k)
     \<and> (\<forall>b\<in>set (fused s di k). of_nat nmeta \<le> b \<and> b < freeblock s)
     \<and> (\<forall>n<NDIRECT. k \<le> n \<longrightarrow> d_addrs di ! n = 0)
     \<and> (k \<le> NDIRECT \<longrightarrow> d_addrs di ! NDIRECT = 0)
     \<and> (\<forall>n<MAXFILE. NDIRECT < k \<longrightarrow> k \<le> n \<longrightarrow> fblock s di n = 0)"

text \<open>A file grows from \<open>k\<close> to \<open>k'\<close> blocks: it keeps the blocks it has, takes new ones from the
  free blocks only, and nothing outside the file is written.\<close>

definition grown :: "mkfs \<Rightarrow> dinode \<Rightarrow> nat \<Rightarrow> mkfs \<Rightarrow> dinode \<Rightarrow> nat \<Rightarrow> bool" where
  "grown s di k s' di' k' \<longleftrightarrow> k \<le> k' \<and> freeblock s \<le> freeblock s' \<and> freeinode s' = freeinode s
     \<and> di' = di\<lparr>d_addrs := d_addrs di'\<rparr> \<and> (\<forall>n<k. fblock s' di' n = fblock s di n)
     \<and> set (fused s di k) \<subseteq> set (fused s' di' k')
     \<and> set (fused s' di' k') \<subseteq> set (fused s di k) \<union> {freeblock s..<freeblock s'}
     \<and> (\<forall>b. b \<notin> set (fused s' di' k') \<longrightarrow> img s' b = img s b)"

lemma grown_refl: "grown s di k s di k"
  by (simp add: grown_def)

lemma grown_trans: "grown s di k s' di' k' \<Longrightarrow> grown s' di' k' s'' di'' k'' \<Longrightarrow> grown s di k s'' di'' k''"
proof -
  assume a: "grown s di k s' di' k'" and b: "grown s' di' k' s'' di'' k''"
  have "di'' = di'\<lparr>d_addrs := d_addrs di''\<rparr>" "di' = di\<lparr>d_addrs := d_addrs di'\<rparr>" using a b by (simp_all add: grown_def)
  then have d: "di'' = di\<lparr>d_addrs := d_addrs di''\<rparr>" by (metis dinode.surjective dinode.update_convs(6) dinode.select_convs)
  have f: "freeblock s \<le> freeblock s'" "freeblock s' \<le> freeblock s''" using a b by (simp_all add: grown_def)
  have "set (fused s'' di'' k'') \<subseteq> set (fused s di k) \<union> {freeblock s..<freeblock s''}"
  proof
    fix x assume "x \<in> set (fused s'' di'' k'')"
    then have "x \<in> set (fused s' di' k') \<or> freeblock s' \<le> x \<and> x < freeblock s''" using b unfolding grown_def by auto
    moreover have "x \<in> set (fused s' di' k') \<Longrightarrow> x \<in> set (fused s di k) \<or> freeblock s \<le> x \<and> x < freeblock s'"
      using a unfolding grown_def by auto
    ultimately show "x \<in> set (fused s di k) \<union> {freeblock s..<freeblock s''}" using f by (auto dest: order_trans less_le_trans)
  qed
  moreover have "\<forall>n<k. fblock s'' di'' n = fblock s di n" "k \<le> k''" "freeinode s'' = freeinode s" using a b by (auto simp: grown_def)
  moreover have "set (fused s di k) \<subseteq> set (fused s'' di'' k'')" using a b by (auto simp: grown_def)
  moreover have "\<forall>b. b \<notin> set (fused s'' di'' k'') \<longrightarrow> img s'' b = img s b" using a b unfolding grown_def by (metis subsetD)
  ultimately show ?thesis using d f unfolding grown_def by (metis order_trans)
qed

lemma file_okD:
  assumes "file_ok s di k"
  shows "length (d_addrs di) = 13" "k \<le> 140" "distinct (fused s di k)"
    "b \<in> set (fused s di k) \<Longrightarrow> 59 \<le> b \<and> b < freeblock s"
    "n < 12 \<Longrightarrow> k \<le> n \<Longrightarrow> d_addrs di ! n = 0" "k \<le> 12 \<Longrightarrow> d_addrs di ! 12 = 0"
    "n < 140 \<Longrightarrow> 12 < k \<Longrightarrow> k \<le> n \<Longrightarrow> fblock s di n = 0"
  using assms by (auto simp: file_ok_def NDIRECT_def MAXFILE_def NINDIRECT_def BSIZE_def)

lemma fblock_used: "n < k \<Longrightarrow> fblock s di n \<in> set (fused s di k)"
  by (simp add: fused_def)

lemma ind_used: "12 < k \<Longrightarrow> d_addrs di ! 12 \<in> set (fused s di k)"
  by (simp add: fused_def NDIRECT_def)

lemma img_okD:
  assumes "img_ok s"
  shows "img_len s = FSSIZE + SWAPBLOCKS" "length (img s b) = 512" "59 \<le> freeblock s"
    "freeblock s \<le> b \<Longrightarrow> b < 2002 \<Longrightarrow> img s b = replicate 512 0"
  using assms by (auto simp: img_ok_def BSIZE_def SWAPBLOCKS_def)

lemma block_present:
  assumes "img_ok s" "file_ok s di k" "n < k" "freeblock s \<le> 2002"
  shows "iappend_block n di s = Inr (fblock s di n, di, s)"
proof -
  have ne: "fblock s di n \<noteq> 0" using file_okD(4) [OF assms(2) fblock_used [OF assms(3)]] by auto
  show ?thesis
  proof (cases "n < 12")
    case True
    then show ?thesis using ne by (simp add: iappend_block_def fblock_def NDIRECT_def)
  next
    case False
    then have "12 < k" using assms(3) by simp
    then have i: "59 \<le> d_addrs di ! 12" "d_addrs di ! 12 < freeblock s"
      using file_okD(4) [OF assms(2) ind_used] by auto
    then have "d_addrs di ! 12 < 0xBB8" "d_addrs di ! 12 \<noteq> 0" using assms(4)
      by (auto simp: word_less_nat_alt word_le_nat_alt)
    then show ?thesis using False ne img_okD(1) [OF assms(1)] by (simp add: iappend_block_def fblock_def NDIRECT_def rsect_ok)
  qed
qed

lemma fused_low: "k \<le> 12 \<Longrightarrow> fused s di k = map ((!) (d_addrs di)) [0..<k]"
  by (auto simp: fused_def fblock_def NDIRECT_def)

lemma fused_high: "12 < k \<Longrightarrow> fused s di k = map (fblock s di) [0..<k] @ [d_addrs di ! 12]"
  by (simp add: fused_def NDIRECT_def)

lemma file_okI:
  assumes "length (d_addrs di) = 13" "k \<le> 140" "distinct (fused s di k)"
    "\<And>b. b \<in> set (fused s di k) \<Longrightarrow> 59 \<le> b \<and> b < freeblock s"
    "\<And>n. n < 12 \<Longrightarrow> k \<le> n \<Longrightarrow> d_addrs di ! n = 0" "k \<le> 12 \<Longrightarrow> d_addrs di ! 12 = 0"
    "\<And>n. n < 140 \<Longrightarrow> 12 < k \<Longrightarrow> k \<le> n \<Longrightarrow> fblock s di n = 0"
  shows "file_ok s di k"
  using assms by (auto simp: file_ok_def NDIRECT_def MAXFILE_def NINDIRECT_def BSIZE_def)

lemma succ_word: "(b::u32) \<le> 2001 \<Longrightarrow> b < b + 1 \<and> b + 1 < b + 2 \<and> b + 1 \<noteq> 0"
proof -
  assume "b \<le> 2001"
  then have b: "unat b \<le> 2001" by (simp add: word_le_nat_alt)
  then have "unat (b + 1) = unat b + 1" "unat (b + 2) = unat b + 2" by (simp_all add: unat_word_ariths)
  then show ?thesis using b by (auto simp: word_le_nat_alt word_less_nat_alt word_unat_eq_iff)
qed

text \<open>A direct block.\<close>

lemma block_direct:
  assumes "img_ok s" "file_ok s di k" "k < 12" "freeblock s \<le> 2001"
  defines "di' \<equiv> di\<lparr>d_addrs := (d_addrs di)[k := freeblock s]\<rparr>" and "s' \<equiv> s\<lparr>freeblock := freeblock s + 1\<rparr>"
  shows "iappend_block k di s = Inr (freeblock s, di', s')" "img_ok s'" "file_ok s' di' (k + 1)" "grown s di k s' di' (k + 1)"
    "fblock s' di' k = freeblock s"
proof -
  note L = file_okD [OF assms(2)] and I = img_okD [OF assms(1)] and W = succ_word [OF assms(4)]
  have f: "fused s' di' (k + 1) = fused s di k @ [freeblock s]"
    using assms(3) L(1) by (simp add: fused_low di'_def)
  show "iappend_block k di s = Inr (freeblock s, di', s')"
    using assms(3) L(1) L(5) [of k] by (simp add: iappend_block_def new_block_def NDIRECT_def di'_def s'_def)
  show "img_ok s'" using assms(1) W I(3) by (auto simp: img_ok_def s'_def)
  show "fblock s' di' k = freeblock s" using assms(3) L(1) by (simp add: fblock_def NDIRECT_def di'_def)
  show "file_ok s' di' (k + 1)"
  proof (rule file_okI)
    show "distinct (fused s' di' (k + 1))" using L(3,4) unfolding f by auto
    show "59 \<le> b \<and> b < freeblock s'" if "b \<in> set (fused s' di' (k + 1))" for b
      using that L(4) [of b] I(3) W unfolding f by (auto simp: s'_def)
  qed (use assms(3) L in \<open>auto simp: di'_def\<close>)
  show "grown s di k s' di' (k + 1)"
    unfolding grown_def f using assms(3) L(1) W by (auto simp: s'_def di'_def fblock_def NDIRECT_def)
qed

lemma entry_other:
  "n \<noteq> k \<Longrightarrow> 12 \<le> n \<Longrightarrow> 12 \<le> k \<Longrightarrow> get32 (put32 (4 * (k - 12)) v d) (4 * (n - 12)) = get32 d (4 * (n - 12))"
  by (rule get_put_other(1)) arith

text \<open>A further entry of the indirect block.\<close>

lemma block_entry:
  assumes "img_ok s" "file_ok s di k" "12 < k" "k < 140" "freeblock s \<le> 2001"
  defines "i \<equiv> d_addrs di ! 12"
  defines "s' \<equiv> s\<lparr>img := (img s)(i := put32 (4 * (k - 12)) (freeblock s) (img s i)), freeblock := freeblock s + 1\<rparr>"
  shows "iappend_block k di s = Inr (freeblock s, di, s')" "img_ok s'" "file_ok s' di (k + 1)" "grown s di k s' di (k + 1)"
    "fblock s' di k = freeblock s"
proof -
  note L = file_okD [OF assms(2)] and I = img_okD [OF assms(1)] and W = succ_word [OF assms(5)]
  have i: "59 \<le> i" "i < freeblock s" using L(4) [OF ind_used [OF assms(3)]] by (simp_all add: i_def)
  then have i': "i < 0xBB8" "i \<noteq> 0" using assms(5) by (auto simp: word_less_nat_alt word_le_nat_alt)
  have bl: "fblock s' di n = (if n = k then freeblock s else fblock s di n)" if "n < 140" for n
    using that assms(3,4) I(2) by (auto simp: fblock_def NDIRECT_def s'_def i_def entry_other)
  have f: "fused s' di (k + 1) = map (fblock s di) [0..<k] @ [freeblock s, i]"
    using assms(3,4) bl by (simp add: fused_high i_def)
  have fo: "fused s di k = map (fblock s di) [0..<k] @ [i]" using assms(3) by (simp add: fused_high i_def)
  have set_f: "set (fused s' di (k + 1)) = insert (freeblock s) (set (fused s di k))" unfolding f fo by auto
  have z: "get32 (img s i) (4 * (k - 12)) = 0" using L(7) [of k] assms(3,4) by (simp add: fblock_def NDIRECT_def i_def)
  show "iappend_block k di s = Inr (freeblock s, di, s')"
    using assms(3,4) I i' z by (simp add: iappend_block_def new_block_def NDIRECT_def i_def [symmetric] s'_def rsect_ok wsect_ok)
  show "img_ok s'" using assms(1) W I(3) i by (auto simp: img_ok_def s'_def BSIZE_def)
  show "fblock s' di k = freeblock s" using bl assms(4) by simp
  show "file_ok s' di (k + 1)"
  proof (rule file_okI)
    show "distinct (fused s' di (k + 1))" using L(3) L(4) [of "freeblock s"] unfolding f fo by auto
    show "59 \<le> b \<and> b < freeblock s'" if "b \<in> set (fused s' di (k + 1))" for b
      using that L(4) [of b] I(3) W unfolding set_f by (auto simp: s'_def)
  qed (use assms(3,4) L bl in auto)
  have "img s' b = img s b" if "b \<notin> set (fused s' di (k + 1))" for b
    using that unfolding f by (auto simp: s'_def)
  then show "grown s di k s' di (k + 1)"
    unfolding grown_def set_f using assms(3,4) bl W by (auto simp: s'_def)
qed

text \<open>The indirect block and its first entry.\<close>

lemma get32_zeros: "4 * n + 4 \<le> m \<Longrightarrow> get32 (replicate m 0) (4 * n) = 0"
  by (simp add: get32_def)

lemma block_indirect:
  assumes "img_ok s" "file_ok s di 12" "freeblock s \<le> 2001"
  defines "i \<equiv> freeblock s"
  defines "di' \<equiv> di\<lparr>d_addrs := (d_addrs di)[12 := i]\<rparr>"
  defines "s' \<equiv> s\<lparr>img := (img s)(i := put32 0 (i + 1) (replicate 512 0)), freeblock := i + 2\<rparr>"
  shows "iappend_block 12 di s = Inr (i + 1, di', s')" "img_ok s'" "file_ok s' di' 13" "grown s di 12 s' di' 13"
    "fblock s' di' 12 = i + 1"
proof -
  note L = file_okD [OF assms(2)] and I = img_okD [OF assms(1)] and W = succ_word [OF assms(3)]
  have i': "i < 0xBB8" "i \<noteq> 0" "i < 2002" "59 \<le> i" using I(3) assms(3) by (auto simp: word_less_nat_alt word_le_nat_alt i_def)
  have e: "i + 1 + 1 = i + 2" by simp
  have z: "img s i = replicate 512 0" using I(4) [of i] i' by (simp add: i_def)
  have bl: "fblock s' di' n = (if n < 12 then fblock s di n else if n = 12 then i + 1 else 0)" if "n < 140" for n
  proof (cases "n \<le> 12")
    case False
    then show ?thesis using that L(1) entry_other [of n 12 "i + 1" "replicate 512 0"] get32_zeros [of "n - 12" 512]
      by (simp add: fblock_def NDIRECT_def s'_def di'_def)
  qed (use L(1) in \<open>auto simp: fblock_def NDIRECT_def s'_def di'_def\<close>)
  have fo: "fused s di 12 = map (fblock s di) [0..<12]" by (simp add: fused_def NDIRECT_def)
  have f: "fused s' di' 13 = fused s di 12 @ [i + 1, i]"
  proof -
    have "[0..<13] = [0..<12] @ [12]" by (simp add: upt_rec)
    then show ?thesis using L(1) bl by (simp add: fused_high fo di'_def)
  qed
  show "iappend_block 12 di s = Inr (i + 1, di', s')"
    using L(1) L(6) I(1) i' z W get32_zeros [of 0 512]
    by (simp add: iappend_block_def new_block_def NDIRECT_def i_def [symmetric] s'_def di'_def rsect_ok wsect_ok e)
  show "img_ok s'" using assms(1) W I(3) by (auto simp: img_ok_def s'_def BSIZE_def i_def)
  show "fblock s' di' 12 = i + 1" using bl by simp
  show "file_ok s' di' 13"
  proof (rule file_okI)
    show "distinct (fused s' di' 13)" using L(3) L(4) [of i] L(4) [of "i + 1"] W unfolding f i_def by auto
    show "59 \<le> b \<and> b < freeblock s'" if "b \<in> set (fused s' di' 13)" for b
      using that L(4) [of b] I(3) W unfolding f i_def by (auto simp: s'_def i_def)
  qed (use L bl in \<open>auto simp: di'_def\<close>)
  have "img s' b = img s b" if "b \<notin> set (fused s' di' 13)" for b
    using that unfolding f by (auto simp: s'_def)
  then show "grown s di 12 s' di' 13"
    unfolding grown_def f using bl W by (auto simp: s'_def di'_def i_def)
qed

text \<open>All cases together.\<close>

lemma data_not_ind: "file_ok s di k \<Longrightarrow> j < k \<Longrightarrow> fblock s di j \<noteq> d_addrs di ! 12"
proof (cases "12 < k")
  case True
  assume a: "file_ok s di k" "j < k"
  then have "d_addrs di ! 12 \<notin> fblock s di ` {0..<k}" using file_okD(3) [OF a(1)] True by (simp add: fused_high)
  then show ?thesis using a(2) by (metis atLeastLessThan_iff imageI le0)
next
  case False
  assume a: "file_ok s di k" "j < k"
  then show ?thesis using file_okD(4) [OF a(1) fblock_used [OF a(2)]] file_okD(6) [OF a(1)] False by auto
qed

lemma fblock_inj: "file_ok s di k \<Longrightarrow> i < k \<Longrightarrow> j < k \<Longrightarrow> fblock s di i = fblock s di j \<longleftrightarrow> i = j"
proof -
  assume a: "file_ok s di k" "i < k" "j < k"
  have "distinct (map (fblock s di) [0..<k])" using file_okD(3) [OF a(1)] by (simp add: fused_def)
  then show ?thesis using a(2,3) by (auto simp: distinct_map inj_on_def)
qed

text \<open>What a file of \<open>k\<close> data blocks takes.\<close>

definition fcost :: "nat \<Rightarrow> nat" where
  "fcost k = k + (if NDIRECT < k then 1 else 0)"

lemma fcost_simps: "fcost (k + 1) = (if k = 12 then fcost k + 2 else fcost k + 1)"
  by (simp add: fcost_def NDIRECT_def)

lemma fcost_mono: "a \<le> b \<Longrightarrow> fcost a \<le> fcost b"
  by (simp add: fcost_def)

lemma block_run:
  assumes "img_ok s" "file_ok s di k" "n \<le> k" "n < 140" "unat (freeblock s) + fcost (max k (n + 1)) \<le> 2002 + fcost k"
  obtains di' s' where "iappend_block n di s = Inr (fblock s' di' n, di', s')" "img_ok s'" "file_ok s' di' (max k (n + 1))"
    "grown s di k s' di' (max k (n + 1))" "unat (freeblock s') + fcost k = unat (freeblock s) + fcost (max k (n + 1))"
    "\<And>j. j < k \<Longrightarrow> img s' (fblock s di j) = img s (fblock s di j)"
proof -
  have lim: "freeblock s \<le> 2001" if "n = k"
    using that assms(5) by (simp add: word_le_nat_alt fcost_simps [simplified] split: if_splits)
  have len: "unat (freeblock s + 1) = unat (freeblock s) + 1" "unat (freeblock s + 2) = unat (freeblock s) + 2" if "n = k"
    using lim [OF that] by (simp_all add: word_le_nat_alt unat_word_ariths)
  have fb: "fblock s di j < freeblock s" if "j < k" for j using file_okD(4) [OF assms(2) fblock_used [OF that]] by simp
  consider "n < k" | "n = k" "k < 12" | "n = k" "k = 12" | "n = k" "12 < k" using assms(3) by linarith
  then show ?thesis
  proof cases
    case 1
    have "freeblock s \<le> 2002" "max k (n + 1) = k" using assms(5) 1 by (simp_all add: word_le_nat_alt)
    then show ?thesis using that [of s di] block_present [OF assms(1,2) 1] assms(1,2) 1 grown_refl by simp
  next
    case 2
    note B = block_direct [OF assms(1,2) 2(2) lim [OF 2(1)]]
    show ?thesis
      by (rule that [of "s\<lparr>freeblock := freeblock s + 1\<rparr>" "di\<lparr>d_addrs := (d_addrs di)[k := freeblock s]\<rparr>"])
        (use B 2 len fcost_simps [of k] in simp_all)
  next
    case 3
    note B = block_indirect [OF assms(1) assms(2) [unfolded 3(2)] lim [OF 3(1)]]
    let ?s = "s\<lparr>img := (img s)(freeblock s := put32 0 (freeblock s + 1) (replicate 512 0)), freeblock := freeblock s + 2\<rparr>"
    have "img ?s (fblock s di j) = img s (fblock s di j)" if "j < k" for j using fb [OF that] by auto
    then show ?thesis
      by - (rule that [of ?s "di\<lparr>d_addrs := (d_addrs di)[12 := freeblock s]\<rparr>"], use B 3 len fcost_simps [of k] in simp_all)
  next
    case 4
    note B = block_entry [OF assms(1,2) 4(2) assms(4) [unfolded 4(1)] lim [OF 4(1)]]
    have "fblock s di j \<noteq> d_addrs di ! 12" if "j < k" for j using data_not_ind [OF assms(2) that] .
    then show ?thesis
      by - (rule that [of "s\<lparr>img := (img s)(d_addrs di ! 12 := put32 (4 * (k - 12)) (freeblock s) (img s (d_addrs di ! 12))),
        freeblock := freeblock s + 1\<rparr>" di], use B 4 len fcost_simps [of k] in simp_all)
  qed
qed

text \<open>A data block is overwritten.\<close>

lemma write_data:
  assumes "img_ok s" "file_ok s di k" "n < k" "length d = 512"
  defines "s' \<equiv> s\<lparr>img := (img s)(fblock s di n := d)\<rparr>"
  shows "img_ok s'" "fblock s' di = fblock s di" "file_ok s' di k" "grown s di k s' di k"
proof -
  have u: "fblock s di n \<in> set (fused s di k)" by (rule fblock_used [OF assms(3)])
  have "fblock s di n < freeblock s" using file_okD(4) [OF assms(2) u] by simp
  then show "img_ok s'" using assms(1,4) by (auto simp: img_ok_def s'_def BSIZE_def)
  have ni: "fblock s di n \<noteq> d_addrs di ! 12" by (rule data_not_ind [OF assms(2,3)])
  have fi: "img s' (d_addrs di ! 12) = img s (d_addrs di ! 12)" using ni by (simp add: s'_def)
  then show f: "fblock s' di = fblock s di" by (auto simp: fblock_def NDIRECT_def)
  have fu: "fused s' di k = fused s di k" by (simp add: fused_def f)
  show "file_ok s' di k" using assms(2) by (simp add: file_ok_def fu f) (simp add: s'_def)
  show "grown s di k s' di k" using u unfolding grown_def fu f by (auto simp: s'_def)
qed

definition nblk :: "nat \<Rightarrow> nat" where
  "nblk off = (off + 511) div 512"

lemma nblk_step:
  assumes "0 < n" "off + n \<le> (off div 512 + 1) * 512"
  shows "off div 512 \<le> nblk off" "nblk (off + n) = off div 512 + 1" "max (nblk off) (off div 512 + 1) = off div 512 + 1"
    "off div 512 < nblk off \<longleftrightarrow> nblk off = off div 512 + 1"
proof -
  define q r where "q = off div 512" and "r = off mod 512"
  have o: "off = q * 512 + r" "r < 512" by (simp_all add: q_def r_def)
  have "nblk off = q + (r + 511) div 512" "nblk (off + n) = q + (r + n + 511) div 512"
    using o(1) by (simp_all add: nblk_def algebra_simps)
  moreover have "(r + 511) div 512 \<le> 1" using o(2) by simp
  moreover have "(r + n + 511) div 512 = 1" using assms o by (simp add: q_def [symmetric])
  ultimately show "off div 512 \<le> nblk off" "nblk (off + n) = off div 512 + 1" "max (nblk off) (off div 512 + 1) = off div 512 + 1"
    "off div 512 < nblk off \<longleftrightarrow> nblk off = off div 512 + 1"
    by (auto simp: q_def [symmetric])
qed

lemma nblk_less: "i < off \<Longrightarrow> i div 512 < nblk off"
  by (simp add: nblk_def div_less_iff_less_mult)

lemma same_block: "i < off \<Longrightarrow> i div 512 = off div 512 \<Longrightarrow> i mod 512 < off mod (512::nat)"
  using div_mult_mod_eq [of i 512] div_mult_mod_eq [of off 512] by linarith

lemma later_block:
  assumes "off \<le> i" "i < (off div 512 + 1) * (512::nat)"
  shows "i div 512 = off div 512" "i mod 512 = off mod 512 + (i - off)"
proof -
  have "i div 512 < off div 512 + 1" by (rule less_mult_imp_div_less [OF assms(2)])
  moreover have "off div 512 \<le> i div 512" by (rule div_le_mono [OF assms(1)])
  ultimately show e: "i div 512 = off div 512" by simp
  then show "i mod 512 = off mod 512 + (i - off)"
    using div_mult_mod_eq [of i 512] div_mult_mod_eq [of off 512] assms(1) by linarith
qed

text \<open>One round of the loop: the contents grow by the bytes written.\<close>

lemma round_bytes:
  assumes "file_ok s' di' (nblk (off + length c))" "\<And>n. n < nblk off \<Longrightarrow> fblock s' di' n = fblock s di n"
    "\<And>n. n < nblk off \<Longrightarrow> img s' (fblock s di n) = img s (fblock s di n)"
    "c \<noteq> []" "off + length c \<le> (off div 512 + 1) * 512" "img_ok s'"
  defines "x \<equiv> fblock s' di' (off div 512)"
  defines "s'' \<equiv> s'\<lparr>img := (img s')(x := put_bytes (off mod 512) c (img s' x))\<rparr>"
  assumes "fblock s'' di' = fblock s' di'"
  shows "fbytes s'' di' (off + length c) = fbytes s di off @ c"
proof (rule nth_equalityI)
  have nb: "nblk (off + length c) = off div 512 + 1" "off div 512 \<le> nblk off"
    using nblk_step(1,2) [of "length c" off] assms(4,5) by simp_all
  have len: "off mod 512 + length c \<le> 512" using assms(5) div_mult_mod_eq [of off 512] unfolding add_mult_distrib by linarith
  have pb: "put_bytes (off mod 512) c (img s' x) ! j
      = (if off mod 512 \<le> j \<and> j < off mod 512 + length c then c ! (j - off mod 512) else img s' x ! j)" if "j < 512" for j
    using nth_put_bytes [of "off mod 512" c "img s' x" j] len that img_okD(2) [OF assms(6)] by simp
  fix i assume "i < length (fbytes s'' di' (off + length c))"
  then have i: "i < off + length c" by (simp add: fbytes_def)
  let ?b = "fblock s' di' (i div 512)"
  have e: "fbytes s'' di' (off + length c) ! i = img s'' ?b ! (i mod 512)"
    using i by (simp add: fbytes_def assms(9) BSIZE_def del: upt_Suc)
  show "fbytes s'' di' (off + length c) ! i = (fbytes s di off @ c) ! i"
  proof (cases "i < off")
    case True
    then have k: "i div 512 < nblk off" "i div 512 \<le> off div 512" by (simp_all add: nblk_less div_le_mono)
    then have old: "img s' ?b = img s (fblock s di (i div 512))" using assms(2,3) by simp
    have "img s'' ?b ! (i mod 512) = img s' ?b ! (i mod 512)"
    proof (cases "i div 512 = off div 512")
      case eq: True
      then have "i mod 512 < off mod 512" using same_block [OF True] by simp
      then show ?thesis using eq pb [of "i mod 512"] by (simp add: s''_def x_def)
    next
      case False
      then have "?b \<noteq> x" using fblock_inj [OF assms(1)] k(2) by (simp add: x_def nb)
      then show ?thesis by (simp add: s''_def)
    qed
    then show ?thesis using True old by (simp add: e nth_append) (simp add: fbytes_def BSIZE_def)
  next
    case False
    then have d: "i div 512 = off div 512" "i mod 512 = off mod 512 + (i - off)"
      using later_block [of off i] i assms(5) by simp_all
    have j: "i - off < length c" using i False by linarith
    then have "off mod 512 + (i - off) < 512" using len by linarith
    then have "put_bytes (off mod 512) c (img s' x) ! (off mod 512 + (i - off)) = c ! (i - off)" using pb j by simp
    then have "img s'' ?b ! (i mod 512) = c ! (i - off)" unfolding d by (simp add: s''_def x_def)
    moreover have "(fbytes s di off @ c) ! i = c ! (i - off)" using False by (simp add: nth_append) (simp add: fbytes_def)
    ultimately show ?thesis by (simp only: e)
  qed
qed (simp add: fbytes_def)

lemma round_run:
  assumes "img_ok s" "file_ok s di (nblk off)" "p \<noteq> []" "off + length p \<le> 140 * 512"
    "unat (freeblock s) + fcost (off div 512 + 1) \<le> 2002 + fcost (nblk off)"
  defines "n1 \<equiv> min (length p) ((off div 512 + 1) * 512 - off)"
  obtains di' s' where "iappend_loop di off p s = iappend_loop di' (off + n1) (drop n1 p) s'" "img_ok s'"
    "file_ok s' di' (nblk (off + n1))" "grown s di (nblk off) s' di' (nblk (off + n1))"
    "unat (freeblock s') + fcost (nblk off) = unat (freeblock s) + fcost (nblk (off + n1))"
    "fbytes s' di' (off + n1) = fbytes s di off @ take n1 p"
proof -
  have lt: "off < (off div 512 + 1) * 512" using dividend_less_times_div [of 512 off] by simp
  then have n1: "0 < n1" "off + n1 \<le> (off div 512 + 1) * 512" "n1 \<le> length p" using assms(3) by (auto simp: n1_def)
  note N = nblk_step [OF n1(1,2)]
  have c: "length (take n1 p) = n1" "take n1 p \<noteq> []" using n1(1,3) assms(3) by auto
  have f: "off div 512 < 140" using assms(3,4) by (simp add: div_less_iff_less_mult) (metis length_greater_0_conv less_add_same_cancel1 less_le_trans)
  have lim: "unat (freeblock s) + fcost (max (nblk off) (off div 512 + 1)) \<le> 2002 + fcost (nblk off)" using assms(5) N(3) by simp
  obtain di' s' where b': "iappend_block (off div 512) di s = Inr (fblock s' di' (off div 512), di', s')" "img_ok s'"
    "file_ok s' di' (max (nblk off) (off div 512 + 1))" "grown s di (nblk off) s' di' (max (nblk off) (off div 512 + 1))"
    "unat (freeblock s') + fcost (nblk off) = unat (freeblock s) + fcost (max (nblk off) (off div 512 + 1))"
    "\<And>j. j < nblk off \<Longrightarrow> img s' (fblock s di j) = img s (fblock s di j)"
    by (rule block_run [OF assms(1,2) N(1) f lim]) (rule that)
  have mx: "max (nblk off) (off div 512 + 1) = nblk (off + n1)" using N(2,3) by simp
  note b = b' [unfolded mx]
  define x where "x = fblock s' di' (off div 512)"
  define s'' where "s'' = s'\<lparr>img := (img s')(x := put_bytes (off mod 512) (take n1 p) (img s' x))\<rparr>"
  have k: "off div 512 < nblk (off + n1)" by (simp add: N(2))
  have x: "x < 0xBB8"
  proof -
    have "x < freeblock s'" using file_okD(4) [OF b(3) fblock_used [OF k]] by (simp add: x_def)
    moreover have "unat (freeblock s') \<le> 2002" using b(5) lim mx by simp
    ultimately show ?thesis by (simp add: word_less_nat_alt)
  qed
  have o: "off mod 512 + n1 \<le> 512" using n1(2) div_mult_mod_eq [of off 512] unfolding add_mult_distrib by linarith
  have W: "img_ok s''" "fblock s'' di' = fblock s' di'" "file_ok s'' di' (nblk (off + n1))"
    "grown s' di' (nblk (off + n1)) s'' di' (nblk (off + n1))"
    using write_data [OF b(2,3) k, of "put_bytes (off mod 512) (take n1 p) (img s' x)"] o c(1) img_okD(2) [OF b(2)]
    by (simp_all add: s''_def x_def)
  have m: "off - off div 512 * 512 = off mod 512" using div_mult_mod_eq [of off 512] by linarith
  have "iappend_loop di off p s = iappend_loop di' (off + n1) (drop n1 p) s''"
    using assms(3) f b(1) x img_okD(1) [OF b(2)]
    by (subst iappend_loop.simps) (simp add: Let_def BSIZE_def MAXFILE_def NDIRECT_def NINDIRECT_def x_def [symmetric] rsect_ok wsect_ok
        n1_def m s''_def)
  moreover have "fbytes s'' di' (off + n1) = fbytes s di off @ take n1 p"
    using round_bytes [of s' di' off "take n1 p" s di] b c n1 W(2) unfolding grown_def by (simp add: s''_def x_def)
  moreover have "unat (freeblock s'') + fcost (nblk off) = unat (freeblock s) + fcost (nblk (off + n1))"
    using b(5) by (simp add: s''_def)
  ultimately show ?thesis using that W grown_trans [OF b(4) W(4)] by blast
qed

lemma nblk_mono: "a \<le> b \<Longrightarrow> nblk a \<le> nblk b"
  by (simp add: nblk_def div_le_mono)

lemma iappend_loop_run:
  assumes "img_ok s" "file_ok s di (nblk off)" "off + length p \<le> 140 * 512"
    "unat (freeblock s) + fcost (nblk (off + length p)) \<le> 2002 + fcost (nblk off)"
  shows "\<exists>di' s'. iappend_loop di off p s = Inr (di', off + length p, s') \<and> img_ok s'
    \<and> file_ok s' di' (nblk (off + length p)) \<and> grown s di (nblk off) s' di' (nblk (off + length p))
    \<and> unat (freeblock s') + fcost (nblk off) = unat (freeblock s) + fcost (nblk (off + length p))
    \<and> fbytes s' di' (off + length p) = fbytes s di off @ p"
  using assms
proof (induction "length p" arbitrary: di off p s rule: less_induct)
  case less
  show ?case
  proof (cases "p = []")
    case True
    then show ?thesis using less.prems grown_refl by (simp add: iappend_loop.simps)
  next
    case False
    define n1 where "n1 = min (length p) ((off div 512 + 1) * 512 - off)"
    have lt: "off < (off div 512 + 1) * 512" using dividend_less_times_div [of 512 off] by simp
    then have n1: "0 < n1" "off + n1 \<le> (off div 512 + 1) * 512" "n1 \<le> length p" using False by (auto simp: n1_def)
    note N = nblk_step [OF n1(1,2)]
    have mono: "off div 512 + 1 \<le> nblk (off + length p)" using nblk_mono [of "off + n1" "off + length p"] n1(3) N(2) by simp
    then have lim: "unat (freeblock s) + fcost (off div 512 + 1) \<le> 2002 + fcost (nblk off)"
      using less.prems(4) fcost_mono [OF mono] by linarith
    obtain di1 s1 where r: "iappend_loop di off p s = iappend_loop di1 (off + n1) (drop n1 p) s1" "img_ok s1"
      "file_ok s1 di1 (nblk (off + n1))" "grown s di (nblk off) s1 di1 (nblk (off + n1))"
      "unat (freeblock s1) + fcost (nblk off) = unat (freeblock s) + fcost (nblk (off + n1))"
      "fbytes s1 di1 (off + n1) = fbytes s di off @ take n1 p"
      by (rule round_run [OF less.prems(1,2) False less.prems(3) lim, folded n1_def]) (rule that)
    have len: "off + n1 + length (drop n1 p) = off + length p" "length (drop n1 p) < length p" using n1 by simp_all
    have "unat (freeblock s1) + fcost (nblk (off + length p)) \<le> 2002 + fcost (nblk (off + n1))"
      using r(5) less.prems(4) by linarith
    then obtain di' s' where "iappend_loop di1 (off + n1) (drop n1 p) s1 = Inr (di', off + length p, s')" "img_ok s'"
      "file_ok s' di' (nblk (off + length p))" "grown s1 di1 (nblk (off + n1)) s' di' (nblk (off + length p))"
      "unat (freeblock s') + fcost (nblk (off + n1)) = unat (freeblock s1) + fcost (nblk (off + length p))"
      "fbytes s' di' (off + length p) = fbytes s1 di1 (off + n1) @ drop n1 p"
      using less.hyps [OF len(2) r(2,3), unfolded len(1)] less.prems(3) by auto
    then show ?thesis using r(1,5,6) grown_trans [OF r(4)] by auto
  qed
qed

end
