(* ===== verification/Xv6_MkfsProps.thy ===== *)
theory Xv6_MkfsProps
  imports Xv6_Mkfs Xv6_Fs Xv6_Kstate
begin

text \<open>
  What \<open>mkfs.c\<close> builds. An image stores a list of file contents, one per inode from 1 on; allocating an
  inode adds an empty file to the list and \<open>iappend\<close> appends to one file of it. The whole program
  then stores the root directory and every file it is given.
\<close>

section \<open>Inodes\<close>

definition ino :: "mkfs \<Rightarrow> u32 \<Rightarrow> dinode" where
  "ino s inum = get_dino (ino_off inum) (img s (IBLOCK inum mk_sb))"

lemma iblock:
  assumes "inum < 200"
  shows "IBLOCK inum mk_sb < 0xBB8" "2032 \<le> IBLOCK inum mk_sb" "IBLOCK inum mk_sb < 2058"
    "unat (IBLOCK inum mk_sb) = unat inum div 8 + 2032"
proof -
  have i: "unat inum < 200" using assms by (simp add: word_less_nat_alt)
  then have d: "unat inum div 8 < 25" by (simp add: div_less_iff_less_mult)
  show u: "unat (IBLOCK inum mk_sb) = unat inum div 8 + 2032"
    using d by (simp add: IBLOCK_def IPB_def BSIZE_def DINODE_def unat_word_ariths unat_div)
  show "IBLOCK inum mk_sb < 0xBB8" "2032 \<le> IBLOCK inum mk_sb" "IBLOCK inum mk_sb < 2058"
    using d u by (simp_all add: word_less_nat_alt word_le_nat_alt)
qed

lemma ino_off_bound: "ino_off inum + 64 \<le> 512"
proof -
  have "unat inum mod 8 \<le> 7" using mod_less_divisor [of 8 "unat inum"] by linarith
  then show ?thesis by (simp add: ino_off_def IPB_def BSIZE_def DINODE_def)
qed

lemma get_put_dino:
  assumes "o' + 64 \<le> length d" "length (d_addrs di) = 13"
  shows "get_dino o' (put_dino o' di d) = di"
  using assms by (simp add: get_dino_def put_dino_def NDIRECT_def)

lemma get_put_dino_other:
  assumes "o' + 64 \<le> j \<or> j + 64 \<le> o'" "length (d_addrs di) = 13"
  shows "get_dino j (put_dino o' di d) = get_dino j d"
proof -
  have "get_array (put_dino o' di d) (j + 12) 13 = get_array d (j + 12) 13"
    unfolding get_array_def
  proof (rule map_cong [OF refl])
    fix k assume "k \<in> set [0..<13]"
    then have "k < 13" by simp
    then show "get32 (put_dino o' di d) (j + 12 + 4 * k) = get32 d (j + 12 + 4 * k)"
      using assms unfolding put_dino_def by auto
  qed
  then show ?thesis using assms by (auto simp: get_dino_def NDIRECT_def) (auto simp: put_dino_def)
qed

lemma rinode_run: "img_ok s \<Longrightarrow> inum < 200 \<Longrightarrow> rinode inum s = Inr (ino s inum)"
  using iblock(1) img_okD(1) by (simp add: rinode_def rsect_ok ino_def)

lemma winode_run:
  assumes "img_ok s" "inum < 200" "length (d_addrs di) = 13"
  obtains s' where "winode inum di s = Inr s'" "img_ok s'" "freeblock s' = freeblock s" "freeinode s' = freeinode s"
    "\<And>b. b < 2032 \<or> b = 2058 \<Longrightarrow> img s' b = img s b" "ino s' inum = di" "\<And>j. j < 200 \<Longrightarrow> j \<noteq> inum \<Longrightarrow> ino s' j = ino s j"
proof -
  note B = iblock [OF assms(2)] and I = img_okD [OF assms(1)]
  let ?b = "IBLOCK inum mk_sb"
  define s' where "s' = s\<lparr>img := (img s)(?b := put_dino (ino_off inum) di (img s ?b))\<rparr>"
  have nb: "\<not> ?b < 2002" using B(2) by (simp add: word_less_nat_alt word_le_nat_alt)
  have len: "length (put_dino (ino_off inum) di (img s ?b)) = 512" using I(2) by (simp add: put_dino_def)
  have "ino s' j = ino s j" if "j < 200" "j \<noteq> inum" for j
  proof (cases "IBLOCK j mk_sb = ?b")
    case True
    then have "unat j div 8 = unat inum div 8" using B(4) iblock(4) [OF that(1)] by simp
    moreover have "unat j \<noteq> unat inum" using that(2) by (simp add: word_unat_eq_iff)
    ultimately have "unat j mod 8 \<noteq> unat inum mod 8" by (metis div_mult_mod_eq)
    then have "ino_off inum + 64 \<le> ino_off j \<or> ino_off j + 64 \<le> ino_off inum"
      by (simp add: ino_off_def IPB_def BSIZE_def DINODE_def) linarith
    then show ?thesis using True assms(3) by (simp add: ino_def s'_def get_put_dino_other)
  next
    case False
    then show ?thesis by (simp add: ino_def s'_def)
  qed
  moreover have "winode inum di s = Inr s'" using B(1) I(1) by (simp add: winode_def Let_def rsect_ok wsect_ok s'_def)
  moreover have "img_ok s'" using assms(1) nb len by (auto simp: img_ok_def s'_def BSIZE_def SWAPBLOCKS_def)
  moreover have "ino s' inum = di" using ino_off_bound I(2) assms(3) by (simp add: ino_def s'_def get_put_dino)
  moreover have "img s' b = img s b" if "b < 2032 \<or> b = 2058" for b using that B(2,3) by (auto simp: s'_def)
  ultimately show ?thesis using that [of s'] by (simp add: s'_def)
qed

section \<open>What an image stores\<close>

text \<open>A file whose blocks are untouched is untouched.\<close>

lemma file_frame:
  assumes "file_ok s di k" "\<forall>b\<in>set (fused s di k). img s' b = img s b" "freeblock s \<le> freeblock s'"
  shows "fused s' di k = fused s di k" "file_ok s' di k" "nblk off \<le> k \<Longrightarrow> fbytes s' di off = fbytes s di off"
proof -
  have hi: "fblock s' di n = fblock s di n" if "12 < k" for n
    using bspec [OF assms(2) ind_used [OF that]] by (simp add: fblock_def NDIRECT_def)
  have bl: "fblock s' di n = fblock s di n" if "n < k" for n
    using hi that by (cases "12 < k") (auto simp: fblock_def NDIRECT_def)
  show f: "fused s' di k = fused s di k" using bl by (simp add: fused_def)
  show "file_ok s' di k" using assms(1,3) hi unfolding file_ok_def f by (auto simp: NDIRECT_def dest: less_le_trans)
  show "fbytes s' di off = fbytes s di off" if "nblk off \<le> k"
  proof -
    have "i div 512 < k" if "i < off" for i using nblk_less [OF that] \<open>nblk off \<le> k\<close> by simp
    then show ?thesis using bl bspec [OF assms(2) fblock_used] by (simp add: fbytes_def BSIZE_def)
  qed
qed

definition fi :: "mkfs \<Rightarrow> nat \<Rightarrow> dinode" where
  "fi s i = ino s (of_nat (i + 1))"

definition file_blocks :: "mkfs \<Rightarrow> nat \<Rightarrow> u8 list \<Rightarrow> u32 list" where
  "file_blocks s i f = fused s (fi s i) (nblk (length f))"

text \<open>Inode \<open>i + 1\<close> of the image is a file of the given type and contents.\<close>

definition stored :: "mkfs \<Rightarrow> nat \<Rightarrow> u16 \<times> u8 list \<Rightarrow> bool" where
  "stored s i f \<longleftrightarrow> file_ok s (fi s i) (nblk (length (snd f))) \<and> fbytes s (fi s i) (length (snd f)) = snd f
     \<and> d_size (fi s i) = of_nat (length (snd f)) \<and> d_type (fi s i) = fst f \<and> d_nlink (fi s i) = 1"

definition total_cost :: "(u16 \<times> u8 list) list \<Rightarrow> nat" where
  "total_cost F = sum_list (map (\<lambda>f. fcost (nblk (length (snd f)))) F)"

definition stores :: "mkfs \<Rightarrow> (u16 \<times> u8 list) list \<Rightarrow> bool" where
  "stores s F \<longleftrightarrow> img_ok s \<and> length F < NINODES \<and> freeinode s = of_nat (length F + 1)
     \<and> unat (freeblock s) = nmeta + total_cost F \<and> unat (freeblock s) \<le> 2 + SWAPBLOCKS
     \<and> (\<forall>i<length F. stored s i (F ! i))
     \<and> (\<forall>i<length F. \<forall>j<length F. i \<noteq> j \<longrightarrow> set (file_blocks s i (snd (F ! i))) \<inter> set (file_blocks s j (snd (F ! j))) = {})
     \<and> img s 1 = sb_bytes mk_sb
     \<and> (\<forall>b. logstart mk_sb \<le> b \<and> b < inodestart mk_sb \<longrightarrow> img s b = replicate BSIZE 0)"

lemma storesD:
  assumes "stores s F"
  shows "img_ok s" "length F < 200" "freeinode s = of_nat (length F + 1)" "unat (freeblock s) = 59 + total_cost F"
    "unat (freeblock s) \<le> 2002" "freeblock s \<le> 2002" "i < length F \<Longrightarrow> stored s i (F ! i)"
    "i < length F \<Longrightarrow> j < length F \<Longrightarrow> i \<noteq> j \<Longrightarrow> set (file_blocks s i (snd (F ! i))) \<inter> set (file_blocks s j (snd (F ! j))) = {}"
    "img s 1 = sb_bytes mk_sb" "2002 \<le> b \<Longrightarrow> b < 2032 \<Longrightarrow> img s b = replicate 512 0"
  using assms by (auto simp: stores_def NINODES_def SWAPBLOCKS_def BSIZE_def word_le_nat_alt)

lemma storesI:
  assumes "img_ok s" "length F < 200" "freeinode s = of_nat (length F + 1)" "unat (freeblock s) = 59 + total_cost F"
    "unat (freeblock s) \<le> 2002" "\<And>i. i < length F \<Longrightarrow> stored s i (F ! i)"
    "\<And>i j. i < length F \<Longrightarrow> j < length F \<Longrightarrow> i \<noteq> j \<Longrightarrow> set (file_blocks s i (snd (F ! i))) \<inter> set (file_blocks s j (snd (F ! j))) = {}"
    "img s 1 = sb_bytes mk_sb" "\<And>b. 2002 \<le> b \<Longrightarrow> b < 2032 \<Longrightarrow> img s b = replicate 512 0"
  shows "stores s F"
  using assms by (auto simp: stores_def NINODES_def SWAPBLOCKS_def BSIZE_def)

lemma inum_of:
  assumes "i + 1 < 200"
  shows "(of_nat (i + 1) :: u32) < 200" "unat (of_nat (i + 1) :: u32) = i + 1"
proof -
  show "unat (of_nat (i + 1) :: u32) = i + 1" using assms unfolding unat_of_nat by simp
  then show "(of_nat (i + 1) :: u32) < 200" using assms by (simp only: word_less_nat_alt) simp
qed

lemma inum_inj: "i + 1 < 200 \<Longrightarrow> j + 1 < 200 \<Longrightarrow> i \<noteq> j \<Longrightarrow> (of_nat (i + 1) :: u32) \<noteq> of_nat (j + 1)"
  using inum_of(2) [of i] inum_of(2) [of j] by (metis add_right_cancel)

lemma stored_blocks: "stored s i f \<Longrightarrow> b \<in> set (file_blocks s i (snd f)) \<Longrightarrow> 59 \<le> b \<and> b < freeblock s"
  unfolding stored_def file_blocks_def by (auto dest: file_okD(4))

lemma stored_frame:
  assumes "stored s i f" "fi s' i = fi s i" "\<And>b. b \<in> set (file_blocks s i (snd f)) \<Longrightarrow> img s' b = img s b"
    "freeblock s \<le> freeblock s'"
  shows "stored s' i f" "file_blocks s' i (snd f) = file_blocks s i (snd f)"
proof -
  have ok: "file_ok s (fi s i) (nblk (length (snd f)))" using assms(1) by (simp add: stored_def)
  have "\<forall>b\<in>set (fused s (fi s i) (nblk (length (snd f)))). img s' b = img s b" using assms(3) by (simp add: file_blocks_def)
  note F = file_frame [OF ok this assms(4)]
  show "stored s' i f" using assms(1,2) F(2) F(3) [OF order_refl] by (simp add: stored_def)
  show "file_blocks s' i (snd f) = file_blocks s i (snd f)" using F(1) assms(2) by (simp add: file_blocks_def)
qed

text \<open>A new inode is an empty file.\<close>

lemma mk_ialloc_run:
  assumes "stores s F" "length F + 1 < 200"
  obtains s' where "mk_ialloc ty s = Inr (of_nat (length F + 1), s')" "stores s' (F @ [(ty, [])])"
proof -
  note D = storesD [OF assms(1)] and N = inum_of [OF assms(2)]
  let ?di = "\<lparr>d_type = ty, d_major = 0, d_minor = 0, d_nlink = 1, d_size = 0, d_addrs = replicate (NDIRECT + 1) 0\<rparr>"
  let ?s = "s\<lparr>freeinode := freeinode s + 1\<rparr>"
  have ok: "img_ok ?s" using D(1) by (simp add: img_ok_def)
  have l13: "length (d_addrs ?di) = 13" by (simp add: NDIRECT_def)
  obtain s' where w: "winode (of_nat (length F + 1)) ?di ?s = Inr s'" "img_ok s'" "freeblock s' = freeblock ?s"
    "freeinode s' = freeinode ?s" "\<And>b. b < 2032 \<or> b = 2058 \<Longrightarrow> img s' b = img ?s b"
    "ino s' (of_nat (length F + 1)) = ?di" "\<And>j. j < 200 \<Longrightarrow> j \<noteq> of_nat (length F + 1) \<Longrightarrow> ino s' j = ino ?s j"
    by (rule winode_run [OF ok N(1) l13]) (rule that)
  have new: "fi s' (length F) = ?di" using w(6) by (simp add: fi_def)
  have zero: "nblk 0 = 0" "file_ok s' ?di 0" "fbytes s' ?di 0 = []" "fused s' ?di 0 = []"
    by (auto simp: nblk_def file_ok_def fused_def fbytes_def NDIRECT_def)
  have old: "stored s' i (F ! i)" "file_blocks s' i (snd (F ! i)) = file_blocks s i (snd (F ! i))" if i: "i < length F" for i
  proof -
    have e: "fi s' i = fi s i"
      using w(7) [OF inum_of(1) inum_inj] i assms(2) by (simp add: fi_def ino_def)
    have im: "img s' b = img s b" if "b \<in> set (file_blocks s i (snd (F ! i)))" for b
    proof -
      have "b < 2032" using stored_blocks [OF D(7) [OF i] that] D(5) by (simp add: word_less_nat_alt)
      then show ?thesis using w(5) by simp
    qed
    have le: "freeblock s \<le> freeblock s'" using w(3) by simp
    show "stored s' i (F ! i)" by (rule stored_frame(1) [OF D(7) [OF i] e im le])
    show "file_blocks s' i (snd (F ! i)) = file_blocks s i (snd (F ! i))" by (rule stored_frame(2) [OF D(7) [OF i] e im le])
  qed
  have "stores s' (F @ [(ty, [])])"
  proof (rule storesI)
    show "unat (freeblock s') = 59 + total_cost (F @ [(ty, [])])"
      using D(4) w(3) by (simp add: total_cost_def zero fcost_def)
    show "stored s' i ((F @ [(ty, [])]) ! i)" if "i < length (F @ [(ty, [])])" for i
      using that old(1) [of i] zero new by (cases "i < length F") (auto simp: nth_append stored_def less_Suc_eq)
    show "set (file_blocks s' i (snd ((F @ [(ty, [])]) ! i))) \<inter> set (file_blocks s' j (snd ((F @ [(ty, [])]) ! j))) = {}"
      if "i < length (F @ [(ty, [])])" "j < length (F @ [(ty, [])])" "i \<noteq> j" for i j
      using that old(2) D(8) [of i j] zero new by (auto simp: nth_append less_Suc_eq file_blocks_def)
    show "img s' b = replicate 512 0" if "2002 \<le> b" "b < 2032" for b using D(10) [OF that] w(5) that by simp
    show "img s' 1 = sb_bytes mk_sb" using D(9) w(5) [of 1] by (simp add: word_less_nat_alt)
  qed (use D assms(2) w in \<open>simp_all add: add.commute\<close>)
  moreover have "mk_ialloc ty s = Inr (of_nat (length F + 1), s')" using w(1) D(3) by (simp add: mk_ialloc_def Let_def)
  ultimately show ?thesis using that by blast
qed

section \<open>Appending to a file\<close>

lemma total_cost_update:
  assumes "i < length F"
  shows "total_cost (F[i := f]) + fcost (nblk (length (snd (F ! i)))) = total_cost F + fcost (nblk (length (snd f)))"
proof -
  let ?c = "\<lambda>f. fcost (nblk (length (snd (f :: u16 \<times> u8 list))))"
  have "map ?c F ! i \<le> sum_list (map ?c F)" by (rule elem_le_sum_list) (use assms in simp)
  then show ?thesis using assms sum_list_update [of i "map ?c F" "?c f"] by (simp add: total_cost_def map_update)
qed

lemma d_size_irrelevant [simp]:
  "fblock s (di\<lparr>d_size := x\<rparr>) = fblock s di" "fused s (di\<lparr>d_size := x\<rparr>) k = fused s di k"
  "file_ok s (di\<lparr>d_size := x\<rparr>) k = file_ok s di k" "fbytes s (di\<lparr>d_size := x\<rparr>) off = fbytes s di off"
proof -
  show f: "fblock s (di\<lparr>d_size := x\<rparr>) = fblock s di" by (simp add: fblock_def fun_eq_iff)
  then show "fused s (di\<lparr>d_size := x\<rparr>) k = fused s di k" by (simp add: fused_def)
  with f show "file_ok s (di\<lparr>d_size := x\<rparr>) k = file_ok s di k" by (simp add: file_ok_def)
  show "fbytes s (di\<lparr>d_size := x\<rparr>) off = fbytes s di off" by (simp add: fbytes_def f)
qed

text \<open>The loop and the final write of the inode, on the inode table.\<close>

lemma iappend_effect:
  assumes "stores s F" "i < length F" "length (snd (F ! i)) + length p \<le> 140 * 512"
    "59 + total_cost (F[i := (fst (F ! i), snd (F ! i) @ p)]) \<le> 2002"
  defines "off \<equiv> length (snd (F ! i))"
  obtains di' s1 s2 where "iappend (of_nat (i + 1)) p s = Inr s2" "img_ok s2" "freeblock s2 = freeblock s1" "freeinode s2 = freeinode s"
    "grown s (fi s i) (nblk off) s1 di' (nblk (off + length p))" "file_ok s1 di' (nblk (off + length p))"
    "unat (freeblock s1) = 59 + total_cost (F[i := (fst (F ! i), snd (F ! i) @ p)])"
    "fbytes s1 di' (off + length p) = snd (F ! i) @ p" "\<And>b. b < 2032 \<Longrightarrow> img s2 b = img s1 b"
    "fi s2 i = di'\<lparr>d_size := of_nat (off + length p)\<rparr>" "\<And>j. j < length F \<Longrightarrow> j \<noteq> i \<Longrightarrow> fi s2 j = fi s1 j"
proof -
  note D = storesD [OF assms(1)]
  note S = D(7) [OF assms(2), unfolded stored_def, folded off_def]
  have i: "i + 1 < 200" using assms(2) D(2) by simp
  note N = inum_of [OF i] and T = total_cost_update [OF assms(2), of "(fst (F ! i), snd (F ! i) @ p)", folded off_def]
  have sz: "unat (d_size (fi s i)) = off" using S assms(3) by (simp add: unat_of_nat off_def)
  have "unat (freeblock s) + fcost (nblk (off + length p)) \<le> 2002 + fcost (nblk off)"
    using T assms(4) D(4) by (simp add: off_def)
  then obtain di' s1 where L: "iappend_loop (fi s i) off p s = Inr (di', off + length p, s1)" "img_ok s1"
    "file_ok s1 di' (nblk (off + length p))" "grown s (fi s i) (nblk off) s1 di' (nblk (off + length p))"
    "unat (freeblock s1) + fcost (nblk off) = unat (freeblock s) + fcost (nblk (off + length p))"
    "fbytes s1 di' (off + length p) = snd (F ! i) @ p"
    using iappend_loop_run [OF D(1), of "fi s i" off p] S assms(3) by (auto simp: off_def)
  have l13: "length (d_addrs (di'\<lparr>d_size := of_nat (off + length p)\<rparr>)) = 13" using file_okD(1) [OF L(3)] by simp
  obtain s2 where w: "winode (of_nat (i + 1)) (di'\<lparr>d_size := of_nat (off + length p)\<rparr>) s1 = Inr s2" "img_ok s2"
    "freeblock s2 = freeblock s1" "freeinode s2 = freeinode s1" "\<And>b. b < 2032 \<or> b = 2058 \<Longrightarrow> img s2 b = img s1 b"
    "ino s2 (of_nat (i + 1)) = di'\<lparr>d_size := of_nat (off + length p)\<rparr>"
    "\<And>j. j < 200 \<Longrightarrow> j \<noteq> of_nat (i + 1) \<Longrightarrow> ino s2 j = ino s1 j"
    by (rule winode_run [OF L(2) N(1) l13]) (rule that)
  have "iappend (of_nat (i + 1)) p s = Inr s2"
    using rinode_run [OF D(1) N(1)] L(1) w(1) sz by (simp add: iappend_def fi_def)
  moreover have "fi s2 j = fi s1 j" if "j < length F" "j \<noteq> i" for j
  proof -
    have j: "j + 1 < 200" using that(1) D(2) by simp
    show ?thesis unfolding fi_def by (rule w(7) [OF inum_of(1) [OF j] inum_inj [OF j i that(2)]])
  qed
  moreover have "unat (freeblock s1) = 59 + total_cost (F[i := (fst (F ! i), snd (F ! i) @ p)])"
    using L(5) T D(4) by (simp add: off_def)
  moreover have "freeinode s2 = freeinode s" using w(4) L(4) by (simp add: grown_def)
  moreover have "fi s2 i = di'\<lparr>d_size := of_nat (off + length p)\<rparr>" using w(6) by (simp only: fi_def)
  ultimately show ?thesis using that [of s2 s1 di'] w(2,3,5) L(3,4,6) by blast
qed

text \<open>The other files.\<close>

lemma other_file:
  assumes "stores s F" "i < length F" "j < length F" "j \<noteq> i" "grown s (fi s i) (nblk (length (snd (F ! i)))) s1 di' k"
    "freeblock s2 = freeblock s1" "unat (freeblock s1) \<le> 2002" "\<And>b. b < 2032 \<Longrightarrow> img s2 b = img s1 b" "fi s2 j = fi s1 j"
    "\<And>b. b \<in> set (fused s1 di' k) \<Longrightarrow> b < 2002 \<and> 59 \<le> b"
  shows "stored s2 j (F ! j)" "file_blocks s2 j (snd (F ! j)) = file_blocks s j (snd (F ! j))"
    "set (file_blocks s j (snd (F ! j))) \<inter> set (fused s1 di' k) = {}"
proof -
  note D = storesD [OF assms(1)]
  note Sj = D(7) [OF assms(3)]
  have same: "img s1 b = img s b" if "b \<notin> set (fused s1 di' k)" for b using assms(5) that by (simp add: grown_def)
  show dis: "set (file_blocks s j (snd (F ! j))) \<inter> set (fused s1 di' k) = {}"
  proof (rule ccontr)
    assume "set (file_blocks s j (snd (F ! j))) \<inter> set (fused s1 di' k) \<noteq> {}"
    then obtain b where b: "b \<in> set (file_blocks s j (snd (F ! j)))" "b \<in> set (fused s1 di' k)" by blast
    then have "b < freeblock s" "b \<notin> set (fused s (fi s i) (nblk (length (snd (F ! i)))))"
      using stored_blocks [OF Sj b(1)] D(8) [OF assms(3,2,4)] by (auto simp: file_blocks_def)
    then show False using assms(5) b(2) unfolding grown_def by (meson UnE atLeastLessThan_iff not_le subsetD)
  qed
  have im: "img s2 b = img s b" if "b \<in> set (file_blocks s j (snd (F ! j)))" for b
  proof -
    have "b < 2032" using stored_blocks [OF Sj that] D(5) by (simp add: word_less_nat_alt)
    then show ?thesis using assms(8) [of b] same [of b] dis that by auto
  qed
  have j: "j + 1 < 200" using assms(3) D(2) by simp
  have "(2002::u32) < 2032" by (simp add: word_less_nat_alt)
  then have "IBLOCK (of_nat (j + 1)) mk_sb \<notin> set (fused s1 di' k)"
    using assms(10) iblock(2) [OF inum_of(1) [OF j]] by (meson less_le_trans less_trans not_less_iff_gr_or_eq)
  then have e: "fi s2 j = fi s j" using assms(9) same by (simp add: fi_def ino_def)
  have le: "freeblock s \<le> freeblock s2" using assms(5,6) by (simp add: grown_def)
  show "stored s2 j (F ! j)" by (rule stored_frame(1) [OF Sj e im le])
  show "file_blocks s2 j (snd (F ! j)) = file_blocks s j (snd (F ! j))" by (rule stored_frame(2) [OF Sj e im le])
qed

lemma iappend_stores:
  assumes "stores s F" "i < length F" "length (snd (F ! i)) + length p \<le> 140 * 512"
    "59 + total_cost (F[i := (fst (F ! i), snd (F ! i) @ p)]) \<le> 2002"
  shows "\<exists>s'. iappend (of_nat (i + 1)) p s = Inr s' \<and> stores s' (F[i := (fst (F ! i), snd (F ! i) @ p)])"
proof -
  define off F' where "off = length (snd (F ! i))" and "F' = F[i := (fst (F ! i), snd (F ! i) @ p)]"
  note D = storesD [OF assms(1)]
  note S = D(7) [OF assms(2), unfolded stored_def, folded off_def]
  obtain di' s1 s2 where E: "iappend (of_nat (i + 1)) p s = Inr s2" "img_ok s2" "freeblock s2 = freeblock s1" "freeinode s2 = freeinode s"
    "grown s (fi s i) (nblk off) s1 di' (nblk (off + length p))" "file_ok s1 di' (nblk (off + length p))"
    "unat (freeblock s1) = 59 + total_cost F'" "fbytes s1 di' (off + length p) = snd (F ! i) @ p"
    "\<And>b. b < 2032 \<Longrightarrow> img s2 b = img s1 b" "fi s2 i = di'\<lparr>d_size := of_nat (off + length p)\<rparr>"
    "\<And>j. j < length F \<Longrightarrow> j \<noteq> i \<Longrightarrow> fi s2 j = fi s1 j"
    by (rule iappend_effect [OF assms, folded off_def F'_def]) (rule that)
  let ?U = "set (fused s1 di' (nblk (off + length p)))"
  have lim: "unat (freeblock s1) \<le> 2002" using E(7) assms(4) by (simp add: F'_def)
  have Ub: "b < 2002 \<and> 59 \<le> b" if "b \<in> ?U" for b using file_okD(4) [OF E(6) that] lim by (auto simp: word_less_nat_alt)
  have same: "img s1 b = img s b" if "b \<notin> ?U" for b using E(5) that by (simp add: grown_def)
  have low: "(2002::u32) < 2032" "(1::u32) < 2032" "(1::u32) < 59" by (simp_all add: word_less_nat_alt)
  have le: "freeblock s \<le> freeblock s2" using E(3,5) by (simp add: grown_def)
  have this_file: "stored s2 i (F' ! i)" "set (file_blocks s2 i (snd (F' ! i))) = ?U"
  proof -
    have "\<forall>b\<in>?U. img s2 b = img s1 b" using Ub E(9) by (meson less_trans low)
    note G = file_frame [OF E(6) this, unfolded E(3), OF order_refl]
    have di: "di' = (fi s i)\<lparr>d_addrs := d_addrs di'\<rparr>" using E(5) by (simp only: grown_def)
    have "d_type di' = d_type (fi s i)" "d_nlink di' = d_nlink (fi s i)" by (subst di, simp)+
    then show "stored s2 i (F' ! i)" "set (file_blocks s2 i (snd (F' ! i))) = ?U"
      using G(1,2) G(3) [OF order_refl] E(8,10) S assms(2) by (simp_all add: stored_def file_blocks_def F'_def off_def)
  qed
  have other: "stored s2 j (F ! j)" "file_blocks s2 j (snd (F ! j)) = file_blocks s j (snd (F ! j))"
    "set (file_blocks s j (snd (F ! j))) \<inter> ?U = {}" if "j < length F" "j \<noteq> i" for j
    using other_file [OF assms(1,2) that E(5) [unfolded off_def] E(3) lim E(9) E(11) [OF that]] Ub by (simp_all add: off_def)
  have "stores s2 F'"
  proof (rule storesI)
    show "stored s2 j (F' ! j)" if "j < length F'" for j
      using that this_file(1) other(1) [of j] by (cases "j = i") (simp_all add: F'_def)
    show "set (file_blocks s2 j (snd (F' ! j))) \<inter> set (file_blocks s2 k (snd (F' ! k))) = {}"
      if "j < length F'" "k < length F'" "j \<noteq> k" for j k
      using that this_file(2) other(2,3) [of j] other(2,3) [of k] D(8) [of j k] assms(2)
      by (cases "j = i"; cases "k = i") (auto simp: F'_def)
    show "img s2 b = replicate 512 0" if "2002 \<le> b" "b < 2032" for b
      using D(10) [OF that] E(9) [OF that(2)] same [of b] Ub [of b] that(1) by fastforce
    show "img s2 1 = sb_bytes mk_sb"
      using D(9) E(9) [OF low(2)] same [of 1] Ub [of 1] low(3) by (metis not_le)
  qed (use D E lim in \<open>simp_all add: F'_def\<close>)
  then show ?thesis using E(1) by (auto simp: F'_def)
qed

section \<open>The whole program\<close>

text \<open>The contents \<open>main\<close> writes, as a list of files: the abstract counterpart of the image.\<close>

definition fname :: "u8 list \<Rightarrow> u8 list" where
  "fname name = (if name \<noteq> [] \<and> hd name = 0x5F then tl name else name)"

definition spec_append :: "nat \<Rightarrow> u8 list \<Rightarrow> (u16 \<times> u8 list) list \<Rightarrow> (u16 \<times> u8 list) list" where
  "spec_append i p F = F[i := (fst (F ! i), snd (F ! i) @ p)]"

definition spec_file :: "(u16 \<times> u8 list) list \<Rightarrow> u8 list \<times> u8 list \<Rightarrow> (u16 \<times> u8 list) list" where
  "spec_file F f = spec_append 0 (dirent_bytes (of_nat (length F + 1)) (fname (fst f))) F @ [(T_FILE, snd f)]"

definition spec_files :: "(u16 \<times> u8 list) list \<Rightarrow> (u8 list \<times> u8 list) list \<Rightarrow> (u16 \<times> u8 list) list" where
  "spec_files F fs = foldl spec_file F fs"

definition spec_root :: "(u16 \<times> u8 list) list" where
  "spec_root = [(T_DIR, dirent_bytes 1 [0x2E] @ dirent_bytes 1 [0x2E, 0x2E])]"

lemma length_spec_append [simp]: "length (spec_append i p F) = length F"
  by (simp add: spec_append_def)

lemma length_dirent [simp]: "length (dirent_bytes i n) = 16"
  by (simp add: dirent_bytes_def DIRSIZ_def)

lemma total_cost_append [simp]: "total_cost (F @ G) = total_cost F + total_cost G" "total_cost [] = 0"
  by (simp_all add: total_cost_def)

lemma spec_append_append:
  "i < length F \<Longrightarrow> spec_append i q (spec_append i p F) = spec_append i (p @ q) F"
  by (simp add: spec_append_def)

lemma spec_append_cost: "i < length F \<Longrightarrow> total_cost F \<le> total_cost (spec_append i p F)"
  using total_cost_update [of i F "(fst (F ! i), snd (F ! i) @ p)"]
    fcost_mono [OF nblk_mono [of "length (snd (F ! i))" "length (snd (F ! i) @ p)"]]
  by (simp add: spec_append_def)

lemma iappend_refines:
  assumes "stores s F" "i < length F" "length (snd (F ! i)) + length p \<le> 140 * 512" "total_cost (spec_append i p F) \<le> 1943"
  obtains s' where "iappend (of_nat (i + 1)) p s = Inr s'" "stores s' (spec_append i p F)"
  using iappend_stores [OF assms(1-3)] assms(4) by (auto simp: spec_append_def)

lemma iappends_refines:
  assumes "stores s F" "i < length F" "length (snd (F ! i)) + length (concat cs) \<le> 140 * 512"
    "total_cost (spec_append i (concat cs) F) \<le> 1943"
  shows "\<exists>s'. iappends (of_nat (i + 1)) cs s = Inr s' \<and> stores s' (spec_append i (concat cs) F)"
  using assms
proof (induction cs arbitrary: s F)
  case Nil
  then show ?case by (simp add: spec_append_def)
next
  case (Cons c cs)
  let ?F = "spec_append i c F"
  have e: "spec_append i (concat cs) ?F = spec_append i (concat (c # cs)) F" using Cons.prems(2) by (simp add: spec_append_append)
  have "total_cost ?F \<le> 1943"
    using spec_append_cost [of i ?F "concat cs"] Cons.prems(2,4) unfolding e by simp
  then obtain s1 where s1: "iappend (of_nat (i + 1)) c s = Inr s1" "stores s1 ?F"
    using iappend_refines [OF Cons.prems(1,2), of c] Cons.prems(3) by auto
  have "length (snd (?F ! i)) + length (concat cs) \<le> 140 * 512" using Cons.prems(2,3) by (simp add: spec_append_def)
  then show ?case using Cons.IH [OF s1(2)] Cons.prems(2,4) s1(1) unfolding e by (simp del: of_nat_Suc of_nat_add)
qed

lemma concat_chunks: "concat (chunks bs) = bs"
  by (induction bs rule: chunks.induct) (subst chunks.simps, simp)

lemma add_file_refines:
  assumes "stores s F" "F \<noteq> []" "length F + 1 < 200" "0x2F \<notin> set (fst f)" "length (snd f) \<le> 140 * 512"
    "length (snd (F ! 0)) + 16 \<le> 140 * 512" "total_cost (spec_file F f) \<le> 1943"
  shows "\<exists>s'. add_file ROOTINO f s = Inr s' \<and> stores s' (spec_file F f)"
proof -
  let ?d = "dirent_bytes (of_nat (length F + 1)) (fname (fst f))"
  obtain s1 where s1: "mk_ialloc T_FILE s = Inr (of_nat (length F + 1), s1)" "stores s1 (F @ [(T_FILE, [])])"
    by (rule mk_ialloc_run [OF assms(1,3)]) (rule that)
  have d: "spec_append 0 ?d (F @ [(T_FILE, [])]) = spec_append 0 ?d F @ [(T_FILE, [])]"
    using assms(2) by (simp add: spec_append_def nth_append list_update_append1)
  have c: "total_cost (spec_append 0 ?d F @ [(T_FILE, [])]) \<le> 1943"
    using assms(7) by (simp add: spec_file_def total_cost_def fcost_def nblk_def)
  obtain s2 where s2: "iappend 1 ?d s1 = Inr s2" "stores s2 (spec_append 0 ?d F @ [(T_FILE, [])])"
    using iappend_refines [OF s1(2), of 0 ?d, unfolded d, OF _ _ c] assms(2,6) by (auto simp: nth_append)
  have e: "spec_append (length F) (concat (chunks (snd f))) (spec_append 0 ?d F @ [(T_FILE, [])]) = spec_file F f"
    by (simp add: spec_append_def spec_file_def concat_chunks nth_append list_update_append)
  obtain s3 where s3: "iappends (of_nat (length F + 1)) (chunks (snd f)) s2 = Inr s3" "stores s3 (spec_file F f)"
    using iappends_refines [OF s2(2), of "length F" "chunks (snd f)", unfolded e] assms(5,7) by (auto simp: nth_append concat_chunks)
  show ?thesis using s1(1) s2(1) s3 assms(4)
    by (simp add: add_file_def fname_def [symmetric] ROOTINO_def split_beta Let_def del: of_nat_Suc of_nat_add)
qed

text \<open>The empty image.\<close>

lemma zero_image:
  "n \<le> 3000 \<Longrightarrow> fold (\<lambda>i. wsect (of_nat i) z) [0..<n] \<lparr>img = (\<lambda>_. z), img_len = 0, freeinode = a, freeblock = b\<rparr>
     = \<lparr>img = (\<lambda>_. z), img_len = n, freeinode = a, freeblock = b\<rparr>"
proof (induction n)
  case (Suc n)
  have u: "unat (of_nat n :: u32) = n" using Suc.prems unfolding unat_of_nat by simp
  then have "(of_nat n :: u32) < 0x800000" using Suc.prems by (simp only: word_less_nat_alt) simp
  then show ?case using Suc u by (simp add: wsect_def fun_upd_idem)
qed simp

lemma mk_empty_eq:
  "mk_empty = \<lparr>img = (\<lambda>_. replicate BSIZE 0)(1 := sb_bytes mk_sb), img_len = FSSIZE + SWAPBLOCKS, freeinode = 1, freeblock = of_nat nmeta\<rparr>"
proof -
  have "FSSIZE + SWAPBLOCKS \<le> 3000" by (simp add: FSSIZE_def SWAPBLOCKS_def)
  note z = zero_image [OF this]
  have one: "(1::u32) < 0xBB8" by (simp add: word_less_nat_alt)
  show ?thesis unfolding mk_empty_def z by (subst wsect_ok [OF _ one]) simp_all
qed

lemma sb_bytes_roundtrip: "length (sb_bytes sb) = 512" "sb_of (sb_bytes sb) = sb"
  by (simp_all add: sb_bytes_def sb_of_def BSIZE_def)

lemma mk_empty_stores: "stores mk_empty []"
proof (rule storesI)
  have "\<not> (59::u32) \<le> 1" "\<not> (2002::u32) \<le> 1" by (simp_all add: word_le_nat_alt)
  then show "img_ok mk_empty" "\<And>b. 2002 \<le> b \<Longrightarrow> b < 2032 \<Longrightarrow> img mk_empty b = replicate 512 0"
    by (auto simp: mk_empty_eq img_ok_def sb_bytes_roundtrip BSIZE_def)
qed (simp_all add: mk_empty_eq)

lemma mk_root_stores: "\<exists>s. mk_root mk_empty = Inr (ROOTINO, s) \<and> stores s spec_root"
proof -
  obtain s1 where s1: "mk_ialloc T_DIR mk_empty = Inr (1, s1)" "stores s1 [(T_DIR, [])]"
    by (rule mk_ialloc_run [OF mk_empty_stores, of T_DIR]) (use that in auto)
  note cost = total_cost_def spec_append_def nblk_def fcost_def NDIRECT_def
  obtain s2 where s2: "iappend 1 (dirent_bytes 1 [0x2E]) s1 = Inr s2" "stores s2 (spec_append 0 (dirent_bytes 1 [0x2E]) [(T_DIR, [])])"
    by (rule iappend_refines [OF s1(2), of 0 "dirent_bytes 1 [0x2E]"]) (use that in \<open>auto simp: cost\<close>)
  have e: "spec_append 0 (dirent_bytes 1 [0x2E, 0x2E]) (spec_append 0 (dirent_bytes 1 [0x2E]) [(T_DIR, [])]) = spec_root"
    by (simp add: spec_append_def spec_root_def)
  obtain s3 where s3: "iappend 1 (dirent_bytes 1 [0x2E, 0x2E]) s2 = Inr s3" "stores s3 spec_root"
    by (rule iappend_refines [OF s2(2), of 0 "dirent_bytes 1 [0x2E, 0x2E]", unfolded e]) (use that in \<open>auto simp: cost spec_root_def\<close>)
  show ?thesis using s1(1) s2(1) s3 by (simp add: mk_root_def ROOTINO_def)
qed

text \<open>All files of the command line.\<close>

lemma spec_files_simps [simp]: "spec_files F [] = F" "spec_files F (f # fs) = spec_files (spec_file F f) fs"
  by (simp_all add: spec_files_def)

lemma spec_file_props:
  assumes "F \<noteq> []"
  shows "spec_file F f \<noteq> []" "length (spec_file F f) = length F + 1" "total_cost F \<le> total_cost (spec_file F f)"
    "length (snd (spec_file F f ! 0)) = length (snd (F ! 0)) + 16"
  using assms spec_append_cost [of 0 F "dirent_bytes (of_nat (length F + 1)) (fname (fst f))"]
  by (simp_all add: spec_file_def nth_append) (simp add: spec_append_def)

lemma spec_files_cost: "F \<noteq> [] \<Longrightarrow> total_cost F \<le> total_cost (spec_files F fs)"
proof (induction fs arbitrary: F)
  case (Cons f fs)
  then show ?case using Cons.IH [OF spec_file_props(1) [OF Cons.prems], of f] spec_file_props(3) [OF Cons.prems, of f] by simp
qed simp

lemma add_files_refines:
  assumes "stores s F" "F \<noteq> []" "length F + length fs < 200" "\<forall>f\<in>set fs. 0x2F \<notin> set (fst f) \<and> length (snd f) \<le> 140 * 512"
    "length (snd (F ! 0)) + 16 * length fs \<le> 140 * 512" "total_cost (spec_files F fs) \<le> 1943"
  shows "\<exists>s'. add_files ROOTINO fs s = Inr s' \<and> stores s' (spec_files F fs)"
  using assms
proof (induction fs arbitrary: s F)
  case (Cons f fs)
  note P = spec_file_props [OF Cons.prems(2), of f]
  have "total_cost (spec_file F f) \<le> 1943" using Cons.prems(6) spec_files_cost [OF P(1), of fs] by simp
  then obtain s1 where s1: "add_file ROOTINO f s = Inr s1" "stores s1 (spec_file F f)"
    using add_file_refines [OF Cons.prems(1,2), of f] Cons.prems(3-5) by auto
  then show ?case using Cons.IH [OF s1(2) P(1)] Cons.prems(3-6) P(2,4) by simp
qed simp

fun dir_entries :: "nat \<Rightarrow> (u8 list \<times> u8 list) list \<Rightarrow> u8 list" where
  "dir_entries k [] = []"
| "dir_entries k (f # fs) = dirent_bytes (of_nat k) (fname (fst f)) @ dir_entries (k + 1) fs"

definition root_bytes :: "(u8 list \<times> u8 list) list \<Rightarrow> u8 list" where
  "root_bytes files = dirent_bytes 1 [0x2E] @ dirent_bytes 1 [0x2E, 0x2E] @ dir_entries 2 files"

definition mk_contents :: "(u8 list \<times> u8 list) list \<Rightarrow> (u16 \<times> u8 list) list" where
  "mk_contents files = (T_DIR, root_bytes files) # map (\<lambda>f. (T_FILE, snd f)) files"

lemma length_dir_entries: "length (dir_entries k fs) = 16 * length fs"
  by (induction fs arbitrary: k) simp_all

lemma length_root_bytes: "length (root_bytes fs) = 16 * (length fs + 2)"
  by (simp add: root_bytes_def length_dir_entries)

lemma spec_files_eq:
  "F \<noteq> [] \<Longrightarrow> spec_files F fs = spec_append 0 (dir_entries (length F + 1) fs) F @ map (\<lambda>f. (T_FILE, snd f)) fs"
proof (induction fs arbitrary: F)
  case Nil
  then show ?case by (simp add: spec_append_def)
next
  case (Cons f fs)
  let ?d = "dirent_bytes (of_nat (length F + 1)) (fname (fst f))"
  have "spec_append 0 (dir_entries (length F + 1 + 1) fs) (spec_append 0 ?d F @ [(T_FILE, snd f)])
      = spec_append 0 (?d @ dir_entries (length F + 1 + 1) fs) F @ [(T_FILE, snd f)]"
    using Cons.prems by (simp add: spec_append_def nth_append list_update_append1)
  then show ?case using Cons.IH [OF spec_file_props(1) [OF Cons.prems, of f]] spec_file_props(2) [OF Cons.prems, of f]
    by (simp add: spec_file_def)
qed

lemma spec_files_root: "spec_files spec_root files = mk_contents files"
  by (simp add: spec_files_eq spec_root_def spec_append_def mk_contents_def root_bytes_def numeral_2_eq_2)

text \<open>The command lines \<open>main\<close> can serve.\<close>

definition mk_fits :: "(u8 list \<times> u8 list) list \<Rightarrow> bool" where
  "mk_fits files \<longleftrightarrow> (\<forall>f\<in>set files. 0x2F \<notin> set (fst f) \<and> length (snd f) \<le> MAXFILE * BSIZE)
     \<and> length files + 1 < NINODES \<and> nmeta + total_cost (mk_contents files) \<le> 2 + SWAPBLOCKS"

lemma mk_fitsD:
  assumes "mk_fits files"
  shows "\<forall>f\<in>set files. 0x2F \<notin> set (fst f) \<and> length (snd f) \<le> 140 * 512" "length files + 1 < 200"
    "total_cost (mk_contents files) \<le> 1943"
  using assms by (auto simp: mk_fits_def MAXFILE_def NDIRECT_def NINDIRECT_def BSIZE_def NINODES_def SWAPBLOCKS_def)

lemma mk_files_stores:
  assumes "mk_fits files"
  obtains s0 s where "mk_root mk_empty = Inr (ROOTINO, s0)" "add_files ROOTINO files s0 = Inr s" "stores s (mk_contents files)"
proof -
  note D = mk_fitsD [OF assms]
  obtain s0 where s0: "mk_root mk_empty = Inr (ROOTINO, s0)" "stores s0 spec_root" using mk_root_stores by blast
  have "length (snd (spec_root ! 0)) = 32" "length spec_root = 1" by (simp_all add: spec_root_def)
  then show ?thesis
    using add_files_refines [OF s0(2), of files, unfolded spec_files_root] D that [OF s0(1)] by (auto simp: spec_root_def)
qed

text \<open>The last steps of \<open>main\<close>: the size of the root directory and the bitmap.\<close>

definition root_size :: "nat \<Rightarrow> nat" where
  "root_size n = (16 * (n + 2) div BSIZE + 1) * BSIZE"

lemma main_tail:
  assumes "mk_fits files"
  obtains s1 s where "stores s1 (mk_contents files)" "mkfs_main files = Inr s" "freeblock s = freeblock s1"
    "fi s 0 = (fi s1 0)\<lparr>d_size := of_nat (root_size (length files))\<rparr>"
    "\<And>i. i < length files \<Longrightarrow> fi s (i + 1) = fi s1 (i + 1)"
    "\<And>b. b < 2032 \<Longrightarrow> img s b = img s1 b" "img s 2058 = mk_bitmap (59 + total_cost (mk_contents files))"
proof -
  obtain s0 s1 where m: "mk_root mk_empty = Inr (ROOTINO, s0)" "add_files ROOTINO files s0 = Inr s1" "stores s1 (mk_contents files)"
    by (rule mk_files_stores [OF assms]) (rule that)
  note D = storesD [OF m(3)] and F = mk_fitsD [OF assms]
  have r: "ROOTINO < 200" "ROOTINO = of_nat (0 + 1)" by (simp_all add: ROOTINO_def word_less_nat_alt)
  have st: "stored s1 0 (T_DIR, root_bytes files)" using D(7) [of 0] by (simp add: mk_contents_def)
  then have l13: "length (d_addrs ((fi s1 0)\<lparr>d_size := of_nat (root_size (length files))\<rparr>)) = 13"
    by (auto simp: stored_def dest: file_okD(1))
  have "d_size (fi s1 0) = of_nat (16 * (length files + 2))" using st by (simp only: stored_def snd_conv length_root_bytes)
  then have sz: "unat (d_size (fi s1 0)) = 16 * (length files + 2)" using F(2) by (simp only: unat_of_nat) simp
  obtain s2 where w: "winode ROOTINO ((fi s1 0)\<lparr>d_size := of_nat (root_size (length files))\<rparr>) s1 = Inr s2" "img_ok s2"
    "freeblock s2 = freeblock s1" "freeinode s2 = freeinode s1" "\<And>b. b < 2032 \<or> b = 2058 \<Longrightarrow> img s2 b = img s1 b"
    "ino s2 ROOTINO = (fi s1 0)\<lparr>d_size := of_nat (root_size (length files))\<rparr>"
    "\<And>j. j < 200 \<Longrightarrow> j \<noteq> ROOTINO \<Longrightarrow> ino s2 j = ino s1 j"
    by (rule winode_run [OF D(1) r(1) l13]) (rule that)
  define s where "s = s2\<lparr>img := (img s2)(2058 := mk_bitmap (59 + total_cost (mk_contents files)))\<rparr>"
  have b: "(2058::u32) < 0xBB8" "\<not> (2058::u32) < 2032" by (simp_all add: word_less_nat_alt)
  have keep: "ino s j = ino s2 j" if "j < 200" for j using iblock(3) [OF that] by (auto simp: ino_def s_def)
  have "mkfs_main files = Inr s"
    using m(1,2) rinode_run [OF D(1) r(1)] w(1,3) D(4,5) sz wsect_ok [OF img_okD(1) [OF w(2)] b(1)]
    by (simp add: mkfs_main_def mk_balloc_def BSIZE_def root_size_def s_def fi_def r(2) [simplified])
  moreover have "fi s 0 = (fi s1 0)\<lparr>d_size := of_nat (root_size (length files))\<rparr>"
    using w(6) keep [OF r(1)] by (simp only: fi_def r(2))
  moreover have "fi s (i + 1) = fi s1 (i + 1)" if "i < length files" for i
  proof -
    have j: "i + 1 + 1 < 200" using that F(2) by simp
    show ?thesis unfolding fi_def
      using w(7) [OF inum_of(1) [OF j]] keep [OF inum_of(1) [OF j]] inum_inj [OF j, of 0] r(2) by simp
  qed
  moreover have "img s b = img s1 b" if "b < 2032" for b using w(5) [of b] that b(2) by (auto simp: s_def)
  ultimately show ?thesis using that [of s1 s] m(3) w(3) by (simp add: s_def)
qed

section \<open>Bitmap\<close>

lemma bit_set_iff: "bit_set d i \<longleftrightarrow> bit (d ! (i div 8)) (i mod 8)"
  by (simp add: bit_set_def bit_iff_and_push_bit_not_eq_0)

lemma mk_bitmap_Suc:
  "mk_bitmap (Suc n) = (mk_bitmap n)[n div 8 := mk_bitmap n ! (n div 8) OR push_bit (n mod 8) 1]"
  by (simp add: mk_bitmap_def)

lemma mk_bitmap_bits: "n \<le> 4096 \<Longrightarrow> length (mk_bitmap n) = 512 \<and> (\<forall>i<4096. bit_set (mk_bitmap n) i \<longleftrightarrow> i < n)"
proof (induction n)
  case 0
  have "i div 8 < 512" if "i < 4096" for i :: nat using that by (simp add: div_less_iff_less_mult)
  then show ?case by (simp add: mk_bitmap_def bit_set_iff BSIZE_def)
next
  case (Suc n)
  then have IH: "length (mk_bitmap n) = 512" "\<And>i. i < 4096 \<Longrightarrow> bit_set (mk_bitmap n) i \<longleftrightarrow> i < n" by simp_all
  have "bit_set (mk_bitmap (Suc n)) i \<longleftrightarrow> i < Suc n" if "i < 4096" for i
  proof -
    have n8: "n div 8 < 512" "n mod 8 < 8" using Suc.prems by (simp_all add: div_less_iff_less_mult)
    have "i div 8 = n div 8 \<and> i mod 8 = n mod 8 \<longleftrightarrow> i = n" by (metis div_mult_mod_eq)
    then show ?thesis using IH(1) IH(2) [OF that] n8
      by (cases "i div 8 = n div 8") (auto simp: mk_bitmap_Suc bit_set_iff bit_simps less_Suc_eq)
  qed
  then show ?case using IH(1) by (simp add: mk_bitmap_Suc)
qed

section \<open>The image\<close>

text \<open>C5. mkfs: when the files fit (every name without a slash, every file at most \<open>MAXFILE\<close> blocks, fewer than
  \<open>NINODES\<close> inodes, and all blocks below the log), \<open>main\<close> succeeds. The image has the superblock in block 1 and
  an empty log; file \<open>i\<close> is inode \<open>i + 2\<close>, a regular file with exactly the given bytes; the root
  directory starts with its entries in order, and its size is rounded up past a block.\<close>

theorem mkfs_stores_files:
  assumes "mk_fits files"
  shows "\<exists>s. mkfs_main files = Inr s \<and> sb_of (img s 1) = mk_sb
    \<and> (\<forall>b. logstart mk_sb \<le> b \<and> b < inodestart mk_sb \<longrightarrow> img s b = replicate BSIZE 0)
    \<and> (\<forall>i<length files. stored s (i + 1) (T_FILE, snd (files ! i)))
    \<and> d_type (fi s 0) = T_DIR \<and> unat (d_size (fi s 0)) = root_size (length files)
    \<and> fbytes s (fi s 0) (16 * (length files + 2)) = root_bytes files"
proof -
  obtain s1 s where m: "stores s1 (mk_contents files)" "mkfs_main files = Inr s" "freeblock s = freeblock s1"
    "fi s 0 = (fi s1 0)\<lparr>d_size := of_nat (root_size (length files))\<rparr>"
    "\<And>i. i < length files \<Longrightarrow> fi s (i + 1) = fi s1 (i + 1)"
    "\<And>b. b < 2032 \<Longrightarrow> img s b = img s1 b" "img s 2058 = mk_bitmap (59 + total_cost (mk_contents files))"
    by (rule main_tail [OF assms]) (rule that)
  note D = storesD [OF m(1)]
  have low: "img s b = img s1 b" if "b < freeblock s1" for b using m(6) [of b] that D(5) by (simp add: word_less_nat_alt)
  have le: "freeblock s1 \<le> freeblock s" using m(3) by simp
  have "stored s (i + 1) (T_FILE, snd (files ! i))" if i: "i < length files" for i
  proof -
    have st: "stored s1 (i + 1) (T_FILE, snd (files ! i))" using D(7) [of "i + 1"] i by (simp add: mk_contents_def)
    show ?thesis by (rule stored_frame(1) [OF st m(5) [OF i] _ le]) (use stored_blocks [OF st] low in blast)
  qed
  moreover have r: "stored s1 0 (T_DIR, root_bytes files)" using D(7) [of 0] by (simp add: mk_contents_def)
  then have "fbytes s (fi s1 0) (16 * (length files + 2)) = root_bytes files"
    using file_frame(3) [of s1 "fi s1 0" _ s "16 * (length files + 2)", OF _ _ le order_refl] low
    by (auto simp: stored_def length_root_bytes dest: file_okD(4))
  moreover have "root_size (length files) < 2 ^ 32"
    using mk_fitsD(2) [OF assms] by (simp add: root_size_def BSIZE_def) 
  moreover have "img s 1 = img s1 1" using m(6) [of 1] by (simp add: word_less_nat_alt)
  ultimately show ?thesis using m(2,4,6) D(9,10) r by (auto simp: sb_bytes_roundtrip stored_def unat_of_nat BSIZE_def)
qed

text \<open>Witness: one program whose file name starts with an underscore.\<close>

definition demo_image :: "(u8 list \<times> u8 list) list" where
  "demo_image = [([0x5F, 0x6C, 0x73], [0x68, 0x69])]"

lemma demo_cost: "total_cost (mk_contents demo_image) = 2"
  by (simp add: total_cost_def demo_image_def mk_contents_def length_root_bytes nblk_def fcost_def NDIRECT_def)

lemma demo_fits: "mk_fits demo_image"
  by (simp add: mk_fits_def demo_cost)
    (simp add: demo_image_def MAXFILE_def NDIRECT_def NINDIRECT_def BSIZE_def NINODES_def SWAPBLOCKS_def)

theorem mkfs_stores_files_witness:
  "\<exists>s. mkfs_main demo_image = Inr s \<and> stored s 1 (T_FILE, [0x68, 0x69]) \<and> unat (d_size (fi s 0)) = 512"
  using mkfs_stores_files [OF demo_fits] by (auto simp: demo_image_def root_size_def BSIZE_def)

section \<open>The image under the kernel\<close>

text \<open>Every block of every file lies below the log.\<close>

lemma main_blocks:
  assumes "mk_fits files" "mkfs_main files = Inr s" "i \<le> length files" "b \<in> set (file_blocks s i (snd (mk_contents files ! i)))"
  shows "59 \<le> unat b" "unat b < 2002"
proof -
  obtain s1 s' where m: "stores s1 (mk_contents files)" "mkfs_main files = Inr s'" "freeblock s' = freeblock s1"
    "fi s' 0 = (fi s1 0)\<lparr>d_size := of_nat (root_size (length files))\<rparr>"
    "\<And>i. i < length files \<Longrightarrow> fi s' (i + 1) = fi s1 (i + 1)"
    "\<And>b. b < 2032 \<Longrightarrow> img s' b = img s1 b" "img s' 2058 = mk_bitmap (59 + total_cost (mk_contents files))"
    by (rule main_tail [OF assms(1)]) (rule that)
  have s: "s' = s" using m(2) assms(2) by simp
  note D = storesD [OF m(1)]
  define f where "f = mk_contents files ! i"
  have st: "stored s1 i f" using D(7) [of i] assms(3) by (simp add: f_def mk_contents_def)
  have "img s b = img s1 b" if "b < freeblock s1" for b using m(6) [of b] that D(5) by (simp add: s word_less_nat_alt)
  then have low: "\<forall>b\<in>set (file_blocks s1 i (snd f)). img s b = img s1 b" using stored_blocks [OF st] by blast
  have e: "fused s (fi s i) k = fused s (fi s1 i) k" for k
    using m(4) m(5) [of "i - 1"] assms(3) by (cases "i = 0") (simp_all add: s)
  have "file_blocks s i (snd f) = file_blocks s1 i (snd f)"
    using file_frame(1) [of s1 "fi s1 i" "nblk (length (snd f))" s] st low m(3) by (simp add: file_blocks_def e stored_def s)
  then have "59 \<le> b \<and> b < freeblock s1" using stored_blocks [OF st] assms(4) by (simp add: f_def)
  then show "59 \<le> unat b" "unat b < 2002" using D(5) by (simp_all add: word_le_nat_alt word_less_nat_alt)
qed

text \<open>C37. mkfs and swap: every block of every file and directory of the image lies in the swap area. For each
  there is a slot such that swapping a page out to that slot replaces the block by bytes of the
  page.\<close>

theorem swap_overwrites_image:
  assumes "mk_fits files" "mkfs_main files = Inr s" "i \<le> length files"
    "b \<in> set (file_blocks s i (snd (mk_contents files ! i)))" "bio_idle st"
  shows "\<exists>idx<NSLOTS. \<exists>k<8. \<exists>st'. write_pag_to_disk me m page (2 + 8 * of_nat idx) st = Inr st'
    \<and> content st' b = mread m (page + of_nat (k * 512)) 512"
proof -
  note B = main_blocks [OF assms(1-4)]
  define idx k where "idx = (unat b - 2) div 8" and "k = (unat b - 2) mod 8"
  have d: "unat b = 2 + 8 * idx + k" "k < 8" using B(1) by (simp_all add: idx_def k_def)
  then have idx: "idx < 250" using B(2) by linarith
  let ?blk = "2 + 8 * of_nat idx :: u32"
  have u: "unat ?blk = 2 + 8 * idx" using idx by (simp add: unat_word_ariths unat_of_nat)
  have "?blk + of_nat k = b" using d idx by (simp add: word_unat_eq_iff unat_word_ariths unat_of_nat)
  moreover have "unat ?blk + 8 \<le> unat blimit" using idx by (simp only: u) (simp add: FSSIZE_def SWAPBLOCKS_def)
  ultimately show ?thesis
    using write_pag_to_disk_spec [OF assms(5), of ?blk me m page] d(2) idx by (auto simp: NSLOTS_def SWAPBLOCKS_def)
qed

text \<open>Witness: the only block of the demo program.\<close>

theorem swap_overwrites_image_witness:
  "\<exists>s b idx k st'. mkfs_main demo_image = Inr s \<and> b \<in> set (file_blocks s 1 [0x68, 0x69]) \<and> idx < NSLOTS
    \<and> write_pag_to_disk 1 (\<lambda>_. 7) 0x80300000 (2 + 8 * of_nat idx) bio_boot = Inr st'
    \<and> content st' b = mread (\<lambda>_. 7) (0x80300000 + of_nat (k * 512)) 512"
proof -
  obtain s where s: "mkfs_main demo_image = Inr s" by (rule main_tail [OF demo_fits])
  have b: "fblock s (fi s 1) 0 \<in> set (file_blocks s 1 (snd (mk_contents demo_image ! 1)))"
    unfolding file_blocks_def by (rule fblock_used) (simp add: demo_image_def mk_contents_def nblk_def)
  have "1 \<le> length demo_image" by (simp add: demo_image_def)
  from swap_overwrites_image [OF demo_fits s this b bio_boot_idle, of 1 "\<lambda>_. 7" "0x80300000"] s b show ?thesis
    by (auto simp: mk_contents_def demo_image_def)
qed

text \<open>C38. mkfs: the bitmap marks exactly the blocks below the first block \<open>main\<close> did not use. The log, the
  inodes and the bitmap itself lie behind the swap area and are marked free.\<close>

theorem mkfs_bitmap_marks:
  assumes "mk_fits files" "mkfs_main files = Inr s" "i < FSSIZE + SWAPBLOCKS"
  shows "(bit_set (img s (bmapstart mk_sb)) i \<longleftrightarrow> i < nmeta + total_cost (mk_contents files))
    \<and> (unat (logstart mk_sb) \<le> i \<longrightarrow> \<not> bit_set (img s (bmapstart mk_sb)) i)"
proof -
  have c: "total_cost (mk_contents files) \<le> 1943" by (rule mk_fitsD(3) [OF assms(1)])
  have "img s 2058 = mk_bitmap (59 + total_cost (mk_contents files))"
    by (rule main_tail [OF assms(1)]) (use assms(2) in simp)
  then show ?thesis
    using mk_bitmap_bits [of "59 + total_cost (mk_contents files)"] c assms(3) by (simp add: FSSIZE_def SWAPBLOCKS_def)
qed

text \<open>Witness: the bitmap block of the demo image is itself marked free.\<close>

theorem mkfs_bitmap_marks_witness:
  "\<exists>s. mkfs_main demo_image = Inr s \<and> bit_set (img s 2058) 59 \<and> \<not> bit_set (img s 2058) 2058"
proof -
  obtain s where s: "mkfs_main demo_image = Inr s" by (rule main_tail [OF demo_fits])
  have "(2058::nat) < FSSIZE + SWAPBLOCKS" "(59::nat) < FSSIZE + SWAPBLOCKS" by (simp_all add: FSSIZE_def SWAPBLOCKS_def)
  then show ?thesis
    using s mkfs_bitmap_marks [OF demo_fits s, of 59] mkfs_bitmap_marks [OF demo_fits s, of 2058]
    by (simp add: demo_cost)
qed

end
