(* ===== verification/Xv6_Spinlock.thy ===== *)
theory Xv6_Spinlock
  imports Xv6_Mem
begin

text \<open>
  Spin locks (\<open>spinlock.c\<close>) with the interrupt flag of each processor. The operations are split where
  another processor can come between: \<open>acquire\<close> before, at and after its atomic exchange, \<open>release\<close> before
  and at the store that frees the lock. \<open>lstep\<close> interleaves processors that take and release one
  lock. The barriers are not modelled: memory accesses take effect in program order.
\<close>

section \<open>State\<close>

record spinlock =
  lk_locked :: u32
  lk_cpu :: "nat option"
  lk_pcs :: "u32 list"

record cpu =
  ncli :: int
  intena :: bool
  iflag :: bool

definition initlock :: "spinlock \<Rightarrow> spinlock" where
  "initlock lk = lk\<lparr>lk_locked := 0, lk_cpu := None\<rparr>"

section \<open>Interrupts\<close>

definition pushcli :: "cpu \<Rightarrow> cpu" where
  "pushcli k =
     (let eflags = iflag k; k = k\<lparr>iflag := False\<rparr>;
          k = (if ncli k = 0 then k\<lparr>intena := eflags\<rparr> else k)
      in k\<lparr>ncli := ncli k + 1\<rparr>)"

definition popcli :: "cpu \<Rightarrow> cpu res" where
  "popcli k =
     (if iflag k then Inl (Panic ''popcli - interruptible'')
      else
        let k = k\<lparr>ncli := ncli k - 1\<rparr> in
        if ncli k < 0 then Inl (Panic ''popcli'')
        else Inr (if ncli k = 0 \<and> intena k then k\<lparr>iflag := True\<rparr> else k))"

text \<open>\<open>mycpu()\<close> finds the processor by its interrupt controller's id; \<open>apicids\<close> are the ids that
  \<open>mpinit\<close> found.\<close>

definition mycpu :: "bool \<Rightarrow> u8 \<Rightarrow> u8 list \<Rightarrow> nat res" where
  "mycpu fl lapicid apicids =
     (if fl then Inl (Panic ''mycpu called with interrupts enabled'')
      else case first_index (\<lambda>a. a = lapicid) apicids of
        Some i \<Rightarrow> Inr i
      | None \<Rightarrow> Inl (Panic ''unknown apicid''))"

section \<open>The lock\<close>

text \<open>Following the chain of frame pointers from the word before the first argument.\<close>

fun getcallerpcs_loop :: "memory \<Rightarrow> nat \<Rightarrow> u32 \<Rightarrow> u32 list" where
  "getcallerpcs_loop m 0 ebp = []"
| "getcallerpcs_loop m (Suc n) ebp =
     (if ebp = 0 \<or> ebp < KERNBASE \<or> ebp = 0xFFFFFFFF then replicate (Suc n) 0
      else ld32 m (ebp + 4) # getcallerpcs_loop m n (ld32 m ebp))"

definition getcallerpcs :: "memory \<Rightarrow> u32 \<Rightarrow> u32 list" where
  "getcallerpcs m v = getcallerpcs_loop m 10 (v - 8)"

text \<open>\<open>c\<close> is the processor that runs the code.\<close>

definition holding :: "nat \<Rightarrow> spinlock \<Rightarrow> cpu \<Rightarrow> (bool \<times> cpu) res" where
  "holding c lk k =
     (let k = pushcli k; r = (lk_locked lk \<noteq> 0 \<and> lk_cpu lk = Some c) in
      rbind (popcli k) (\<lambda>k. Inr (r, k)))"

definition acquire_begin :: "nat \<Rightarrow> spinlock \<Rightarrow> cpu \<Rightarrow> cpu res" where
  "acquire_begin c lk k =
     rbind (holding c lk (pushcli k)) (\<lambda>(r, k).
     if r then Inl (Panic ''acquire'') else Inr k)"

text \<open>One execution of \<open>xchg(&lk->locked, 1)\<close>: the old value and the new lock.\<close>

definition acquire_xchg :: "spinlock \<Rightarrow> u32 \<times> spinlock" where
  "acquire_xchg lk = (lk_locked lk, lk\<lparr>lk_locked := 1\<rparr>)"

definition acquire_end :: "memory \<Rightarrow> u32 \<Rightarrow> nat \<Rightarrow> spinlock \<Rightarrow> spinlock" where
  "acquire_end m v c lk = lk\<lparr>lk_cpu := Some c, lk_pcs := getcallerpcs m v\<rparr>"

text \<open>The whole of \<open>acquire\<close> when nobody else runs: on a held lock it spins for ever.\<close>

definition acquire :: "memory \<Rightarrow> u32 \<Rightarrow> nat \<Rightarrow> spinlock \<Rightarrow> cpu \<Rightarrow> (spinlock \<times> cpu) res" where
  "acquire m v c lk k =
     rbind (acquire_begin c lk k) (\<lambda>k.
     case acquire_xchg lk of (old, lk) \<Rightarrow>
       if old \<noteq> 0 then Inl (Sleeps ''acquire'') else Inr (acquire_end m v c lk, k))"

definition release_begin :: "nat \<Rightarrow> spinlock \<Rightarrow> cpu \<Rightarrow> (spinlock \<times> cpu) res" where
  "release_begin c lk k =
     rbind (holding c lk k) (\<lambda>(r, k).
     if \<not> r then Inl (Panic ''release'')
     else Inr (lk\<lparr>lk_pcs := (lk_pcs lk)[0 := 0], lk_cpu := None\<rparr>, k))"

definition release_end :: "spinlock \<Rightarrow> cpu \<Rightarrow> (spinlock \<times> cpu) res" where
  "release_end lk k = rbind (popcli k) (\<lambda>k. Inr (lk\<lparr>lk_locked := 0\<rparr>, k))"

definition release :: "nat \<Rightarrow> spinlock \<Rightarrow> cpu \<Rightarrow> (spinlock \<times> cpu) res" where
  "release c lk k = rbind (release_begin c lk k) (\<lambda>(lk, k). release_end lk k)"

section \<open>Interleaving\<close>

text \<open>Where a processor is: outside, spinning, past the exchange, in its critical section, or about
  to store 0.\<close>

datatype point = Out | Spin | Got | Held | Freeing

record lsys =
  lock :: spinlock
  cpus :: "nat \<Rightarrow> cpu"
  point :: "nat \<Rightarrow> point"

definition at :: "nat \<Rightarrow> point \<Rightarrow> cpu \<Rightarrow> spinlock \<Rightarrow> lsys \<Rightarrow> lsys" where
  "at c p k lk s = s\<lparr>lock := lk, cpus := (cpus s)(c := k), point := (point s)(c := p)\<rparr>"

inductive lstep :: "lsys \<Rightarrow> lsys \<Rightarrow> bool" where
  begin_acquire: "point s c = Out \<Longrightarrow> acquire_begin c (lock s) (cpus s c) = Inr k \<Longrightarrow> lstep s (at c Spin k (lock s) s)"
| spin: "point s c = Spin \<Longrightarrow> acquire_xchg (lock s) = (old, lk) \<Longrightarrow> old \<noteq> 0 \<Longrightarrow> lstep s (at c Spin (cpus s c) lk s)"
| got: "point s c = Spin \<Longrightarrow> acquire_xchg (lock s) = (0, lk) \<Longrightarrow> lstep s (at c Got (cpus s c) lk s)"
| end_acquire: "point s c = Got \<Longrightarrow> lstep s (at c Held (cpus s c) (acquire_end m v c (lock s)) s)"
| begin_release: "point s c = Held \<Longrightarrow> release_begin c (lock s) (cpus s c) = Inr (lk, k) \<Longrightarrow> lstep s (at c Freeing k lk s)"
| end_release: "point s c = Freeing \<Longrightarrow> release_end (lock s) (cpus s c) = Inr (lk, k) \<Longrightarrow> lstep s (at c Out k lk s)"

definition inside :: "point \<Rightarrow> bool" where
  "inside p \<longleftrightarrow> p = Got \<or> p = Held \<or> p = Freeing"

text \<open>A processor outside has no lock pending; one that waits for the lock or has it runs with interrupts off.\<close>

definition cpu_ok :: "point \<Rightarrow> cpu \<Rightarrow> bool" where
  "cpu_ok p k \<longleftrightarrow> (if p = Out then ncli k = 0 else ncli k = 1 \<and> \<not> iflag k)"

definition lock_inv :: "lsys \<Rightarrow> bool" where
  "lock_inv s \<longleftrightarrow>
     (\<forall>c c'. inside (point s c) \<longrightarrow> inside (point s c') \<longrightarrow> c = c') \<and>
     (lk_locked (lock s) = 0 \<longleftrightarrow> \<not> (\<exists>c. inside (point s c))) \<and>
     (\<forall>c. lk_cpu (lock s) = Some c \<longleftrightarrow> point s c = Held) \<and>
     (\<forall>c. cpu_ok (point s c) (cpus s c))"

lemma holding_eq:
  assumes "1 \<le> ncli k" "\<not> iflag k"
  shows "holding c lk k = Inr (lk_locked lk \<noteq> 0 \<and> lk_cpu lk = Some c, k)"
  using assms by (simp add: holding_def pushcli_def popcli_def Let_def)

lemma pushcli_simps: "ncli (pushcli k) = ncli k + 1" "\<not> iflag (pushcli k)"
  by (simp_all add: pushcli_def Let_def)

lemma lock_invD:
  assumes "lock_inv s"
  shows "inside (point s c) \<Longrightarrow> inside (point s c') \<Longrightarrow> c = c'"
    "lk_locked (lock s) = 0 \<longleftrightarrow> \<not> (\<exists>c. inside (point s c))"
    "lk_cpu (lock s) = Some c \<longleftrightarrow> point s c = Held" "cpu_ok (point s c) (cpus s c)"
  using assms by (auto simp: lock_inv_def)

text \<open>Neither panic of the lock is ever reached.\<close>

lemma acquire_begin_runs:
  assumes "lock_inv s" "point s c = Out"
  shows "acquire_begin c (lock s) (cpus s c) = Inr (pushcli (cpus s c))"
proof -
  have "ncli (cpus s c) = 0" using lock_invD(4) [OF assms(1), of c] assms(2) by (simp add: cpu_ok_def)
  moreover have "lk_cpu (lock s) \<noteq> Some c" using lock_invD(3) [OF assms(1), of c] assms(2) by simp
  ultimately show ?thesis by (simp add: acquire_begin_def holding_eq pushcli_simps)
qed

lemma release_begin_runs:
  assumes "lock_inv s" "point s c = Held"
  shows "release_begin c (lock s) (cpus s c) = Inr (lock s\<lparr>lk_pcs := (lk_pcs (lock s))[0 := 0], lk_cpu := None\<rparr>, cpus s c)"
proof -
  have "1 \<le> ncli (cpus s c)" "\<not> iflag (cpus s c)" using lock_invD(4) [OF assms(1), of c] assms(2) by (auto simp: cpu_ok_def)
  moreover have "lk_locked (lock s) \<noteq> 0" using lock_invD(2) [OF assms(1)] assms(2) by (auto simp: inside_def)
  ultimately show ?thesis using lock_invD(3) [OF assms(1), of c] assms(2) by (simp add: release_begin_def holding_eq)
qed

lemma release_end_runs:
  assumes "lock_inv s" "point s c = Freeing"
  shows "\<exists>k. release_end (lock s) (cpus s c) = Inr (lock s\<lparr>lk_locked := 0\<rparr>, k) \<and> ncli k = 0 \<and> iflag k = intena (cpus s c)"
  using lock_invD(4) [OF assms(1), of c] assms(2) by (simp add: cpu_ok_def release_end_def popcli_def Let_def)

lemma at_simps [simp]:
  "lock (at c p k lk s) = lk" "cpus (at c p k lk s) c' = (if c' = c then k else cpus s c')"
  "point (at c p k lk s) c' = (if c' = c then p else point s c')"
  by (simp_all add: at_def)

lemma lock_inv_at:
  assumes inv: "lock_inv s" and k: "cpu_ok p k" and h: "lk_cpu lk = Some c \<longleftrightarrow> p = Held"
    and others: "\<And>c'. c' \<noteq> c \<Longrightarrow> lk_cpu lk = Some c' \<longleftrightarrow> lk_cpu (lock s) = Some c'"
    and alone: "inside p \<Longrightarrow> \<forall>c'. c' \<noteq> c \<longrightarrow> \<not> inside (point s c')"
    and free: "lk_locked lk = 0 \<longleftrightarrow> \<not> inside p \<and> (\<forall>c'. c' \<noteq> c \<longrightarrow> \<not> inside (point s c'))"
  shows "lock_inv (at c p k lk s)"
  unfolding lock_inv_def
proof (intro conjI allI impI)
  fix a b
  assume "inside (point (at c p k lk s) a)" "inside (point (at c p k lk s) b)"
  then show "a = b" using alone lock_invD(1) [OF inv, of a b] by (cases "a = c"; cases "b = c") auto
next
  show "lk_locked (lock (at c p k lk s)) = 0 \<longleftrightarrow> \<not> (\<exists>c'. inside (point (at c p k lk s) c'))"
    using free by (auto split: if_splits)
next
  fix a
  show "lk_cpu (lock (at c p k lk s)) = Some a \<longleftrightarrow> point (at c p k lk s) a = Held"
    using h others [of a] lock_invD(3) [OF inv, of a] by (cases "a = c") auto
  show "cpu_ok (point (at c p k lk s) a) (cpus (at c p k lk s) a)"
    using k lock_invD(4) [OF inv, of a] by simp
qed

text \<open>Who else is inside when one processor is, or when the lock is free.\<close>

lemma inside_alone: "lock_inv s \<Longrightarrow> inside (point s c) \<Longrightarrow> \<forall>c'. c' \<noteq> c \<longrightarrow> \<not> inside (point s c')"
  using lock_invD(1) by blast

lemma inside_locked: "lock_inv s \<Longrightarrow> inside (point s c) \<Longrightarrow> lk_locked (lock s) \<noteq> 0"
  using lock_invD(2) by blast

lemma outside_free:
  "lock_inv s \<Longrightarrow> \<not> inside (point s c) \<Longrightarrow> lk_locked (lock s) = 0 \<longleftrightarrow> (\<forall>c'. c' \<noteq> c \<longrightarrow> \<not> inside (point s c'))"
  using lock_invD(2) by metis

lemma lstep_inv:
  assumes "lstep s s'" and inv: "lock_inv s"
  shows "lock_inv s'"
  using assms(1)
proof cases
  case (begin_acquire c k)
  then have "k = pushcli (cpus s c)" "ncli (cpus s c) = 0" "\<not> inside (point s c)" "lk_cpu (lock s) \<noteq> Some c"
    using acquire_begin_runs [OF inv] lock_invD(3,4) [OF inv, of c] by (auto simp: cpu_ok_def inside_def)
  then show ?thesis unfolding begin_acquire(1)
    by (intro lock_inv_at [OF inv]) (use outside_free [OF inv] in \<open>simp_all add: inside_def cpu_ok_def pushcli_simps\<close>)
next
  case (spin c old lk)
  then have "lk_locked lk = 1" "lk_cpu lk = lk_cpu (lock s)" "lk_locked (lock s) \<noteq> 0" "\<not> inside (point s c)" "cpu_ok Spin (cpus s c)" "lk_cpu (lock s) \<noteq> Some c"
    using lock_invD(3,4) [OF inv, of c] by (auto simp: acquire_xchg_def inside_def)
  then show ?thesis unfolding spin(1)
    by (intro lock_inv_at [OF inv]) (use outside_free [OF inv] in \<open>simp_all add: inside_def\<close>)
next
  case (got c lk)
  then have "lk_locked lk = 1" "lk_cpu lk = lk_cpu (lock s)" "lk_locked (lock s) = 0" "\<not> inside (point s c)" "cpu_ok Got (cpus s c)" "lk_cpu (lock s) \<noteq> Some c"
    using lock_invD(3,4) [OF inv, of c] by (auto simp: acquire_xchg_def inside_def cpu_ok_def)
  then show ?thesis unfolding got(1)
    by (intro lock_inv_at [OF inv]) (use outside_free [OF inv, of c] in \<open>simp_all add: inside_def\<close>)
next
  case (end_acquire c m v)
  then have a: "inside (point s c)" "cpu_ok Held (cpus s c)" using lock_invD(4) [OF inv, of c] by (auto simp: inside_def cpu_ok_def)
  note b = inside_alone [OF inv a(1)] inside_locked [OF inv a(1)]
  have "lk_cpu (lock s) \<noteq> Some c'" if "c' \<noteq> c" for c' using b(1) that lock_invD(3) [OF inv, of c'] by (auto simp: inside_def)
  then show ?thesis unfolding end_acquire(1)
    by (intro lock_inv_at [OF inv]) (use a b in \<open>simp_all add: acquire_end_def inside_def\<close>)
next
  case (begin_release c lk k)
  then have a: "inside (point s c)" "cpu_ok Freeing (cpus s c)" "k = cpus s c" "lk = lock s\<lparr>lk_pcs := (lk_pcs (lock s))[0 := 0], lk_cpu := None\<rparr>"
    using lock_invD(4) [OF inv, of c] release_begin_runs [OF inv] by (auto simp: inside_def cpu_ok_def)
  note b = inside_alone [OF inv a(1)] inside_locked [OF inv a(1)]
  have "lk_cpu (lock s) \<noteq> Some c'" if "c' \<noteq> c" for c' using b(1) that lock_invD(3) [OF inv, of c'] by (auto simp: inside_def)
  then show ?thesis unfolding begin_release(1)
    by (intro lock_inv_at [OF inv]) (use a b in \<open>simp_all add: inside_def\<close>)
next
  case (end_release c lk k)
  then have a: "inside (point s c)" "lk = lock s\<lparr>lk_locked := 0\<rparr>" "ncli k = 0" "lk_cpu (lock s) \<noteq> Some c"
    using release_end_runs [OF inv end_release(2)] lock_invD(3) [OF inv, of c] by (auto simp: inside_def)
  note b = inside_alone [OF inv a(1)]
  show ?thesis unfolding end_release(1)
    by (intro lock_inv_at [OF inv]) (use a b in \<open>simp_all add: inside_def cpu_ok_def\<close>)
qed

definition lsys0 :: "(nat \<Rightarrow> bool) \<Rightarrow> lsys" where
  "lsys0 ifl = \<lparr>lock = initlock \<lparr>lk_locked = 0, lk_cpu = None, lk_pcs = replicate 10 0\<rparr>,
     cpus = (\<lambda>c. \<lparr>ncli = 0, intena = False, iflag = ifl c\<rparr>), point = (\<lambda>_. Out)\<rparr>"

lemma lock_reachable: "lstep\<^sup>*\<^sup>* (lsys0 ifl) s \<Longrightarrow> lock_inv s"
proof (induction rule: rtranclp_induct)
  case base
  show ?case by (simp add: lock_inv_def lsys0_def initlock_def inside_def cpu_ok_def)
next
  case (step y z)
  then show ?case by (blast intro: lstep_inv)
qed

text \<open>C33. A spin lock excludes: in every state that processors reach by taking and releasing the lock, in
  any order, at most one of them is between its exchange and its freeing store; processors that wait
  or hold run with interrupts off; no check of \<open>acquire\<close>, \<open>release\<close> or \<open>popcli\<close> panics; and when no processor
  has the lock, the next exchange of a spinning one takes it.\<close>

theorem spinlock_excludes:
  assumes "lstep\<^sup>*\<^sup>* (lsys0 ifl) s"
  shows "(inside (point s c) \<longrightarrow> inside (point s c') \<longrightarrow> c = c') \<and> (point s c \<noteq> Out \<longrightarrow> \<not> iflag (cpus s c)) \<and>
    (point s c = Out \<longrightarrow> (\<exists>k. acquire_begin c (lock s) (cpus s c) = Inr k)) \<and>
    (point s c = Held \<longrightarrow> (\<exists>r. release_begin c (lock s) (cpus s c) = Inr r)) \<and>
    (point s c = Freeing \<longrightarrow> (\<exists>r. release_end (lock s) (cpus s c) = Inr r)) \<and>
    ((\<forall>c. \<not> inside (point s c)) \<longrightarrow> fst (acquire_xchg (lock s)) = 0)"
proof -
  note inv = lock_reachable [OF assms]
  have "\<not> iflag (cpus s c)" if "point s c \<noteq> Out" using lock_invD(4) [OF inv, of c] that by (simp add: cpu_ok_def)
  then show ?thesis
    using lock_invD(1) [OF inv, of c c'] lock_invD(2) [OF inv] acquire_begin_runs [OF inv, of c] release_begin_runs [OF inv, of c]
      release_end_runs [OF inv, of c] by (auto simp: acquire_xchg_def)
qed

text \<open>Processor 0 holds the lock and processor 1 spins.\<close>

lemma demo_lock: "\<exists>s. lstep\<^sup>*\<^sup>* (lsys0 (\<lambda>_. True)) s \<and> point s 0 = Held \<and> point s 1 = Spin"
proof -
  let ?s = "lsys0 (\<lambda>_. True)"
  have i0: "lock_inv ?s" by (rule lock_reachable [OF rtranclp.rtrancl_refl])
  obtain s1 where s1: "s1 = at 0 Spin (pushcli (cpus ?s 0)) (lock ?s) ?s" by blast
  have r1: "lstep ?s s1" unfolding s1 by (rule lstep.begin_acquire) (simp add: lsys0_def, rule acquire_begin_runs [OF i0], simp add: lsys0_def)
  obtain s2 where s2: "s2 = at 0 Got (cpus s1 0) (lock s1\<lparr>lk_locked := 1\<rparr>) s1" by blast
  have r2: "lstep s1 s2" unfolding s2 by (rule lstep.got) (simp_all add: s1 acquire_xchg_def lsys0_def initlock_def)
  obtain s3 where s3: "s3 = at 0 Held (cpus s2 0) (acquire_end (\<lambda>_. 0) 0 0 (lock s2)) s2" by blast
  have r3: "lstep s2 s3" unfolding s3 by (rule lstep.end_acquire) (simp add: s2)
  have "lstep\<^sup>*\<^sup>* ?s s3" using r1 r2 r3 by (meson rtranclp.rtrancl_refl rtranclp.rtrancl_into_rtrancl)
  then have i3: "lock_inv s3" by (rule lock_reachable)
  have o: "point s3 1 = Out" by (simp add: s1 s2 s3 lsys0_def)
  have r4: "lstep s3 (at 1 Spin (pushcli (cpus s3 1)) (lock s3) s3)"
    by (rule lstep.begin_acquire [OF o]) (rule acquire_begin_runs [OF i3 o])
  then show ?thesis using \<open>lstep\<^sup>*\<^sup>* ?s s3\<close> by (intro exI [of _ "at 1 Spin (pushcli (cpus s3 1)) (lock s3) s3"]) (auto simp: s3)
qed

theorem spinlock_excludes_witness:
  "\<exists>s. lstep\<^sup>*\<^sup>* (lsys0 (\<lambda>_. True)) s \<and> point s 0 = Held \<and> point s 1 = Spin \<and> \<not> iflag (cpus s 1) \<and>
    (\<exists>r. release_begin 0 (lock s) (cpus s 0) = Inr r)"
proof -
  from demo_lock obtain s where s: "lstep\<^sup>*\<^sup>* (lsys0 (\<lambda>_. True)) s" "point s 0 = Held" "point s 1 = Spin" by blast
  then show ?thesis using spinlock_excludes [OF s(1), of 0 0] spinlock_excludes [OF s(1), of 1 1] by (intro exI [of _ s]) simp
qed

end
