(* ===== verification/Xv6_Grep.thy ===== *)
theory Xv6_Grep
  imports Xv6_Prelude
begin

text \<open>
  The user program \<open>grep.c\<close>. A C string is the list of its bytes before the NUL. The reads of a
  run are given as the list of the byte blocks that \<open>read\<close> returns. The matcher is proved to accept
  exactly the language that a pattern denotes.
\<close>

section \<open>The matcher\<close>

function matchhere :: "u8 list \<Rightarrow> u8 list \<Rightarrow> bool" and matchstar :: "u8 \<Rightarrow> u8 list \<Rightarrow> u8 list \<Rightarrow> bool" where
  "matchhere re text =
     (case re of
        [] \<Rightarrow> True
      | r # re' \<Rightarrow>
          if re' \<noteq> [] \<and> hd re' = 0x2A then matchstar r (tl re') text
          else if r = 0x24 \<and> re' = [] then text = []
          else (case text of [] \<Rightarrow> False | c # text' \<Rightarrow> (r = 0x2E \<or> r = c) \<and> matchhere re' text'))"
| "matchstar c re text =
     (matchhere re text \<or> (case text of [] \<Rightarrow> False | x # text' \<Rightarrow> (x = c \<or> c = 0x2E) \<and> matchstar c re text'))"
  by pat_completeness auto
termination
  by (relation "measures [\<lambda>x. case x of Inl (re, text) \<Rightarrow> 2 * length re | Inr (c, re, text) \<Rightarrow> 2 * length re + 1,
      \<lambda>x. case x of Inl (re, text) \<Rightarrow> length text | Inr (c, re, text) \<Rightarrow> length text]")
    (auto simp: neq_Nil_conv)

declare matchhere.simps [simp del] matchstar.simps [simp del]

text \<open>The loop of \<open>match\<close> over the suffixes of the text.\<close>

fun match_from :: "u8 list \<Rightarrow> u8 list \<Rightarrow> bool" where
  "match_from re text = (matchhere re text \<or> (case text of [] \<Rightarrow> False | _ # text' \<Rightarrow> match_from re text'))"

declare match_from.simps [simp del]

definition match :: "u8 list \<Rightarrow> u8 list \<Rightarrow> bool" where
  "match re text = (if re \<noteq> [] \<and> hd re = 0x5E then matchhere (tl re) text else match_from re text)"

section \<open>The search through a file\<close>

text \<open>\<open>strchr(p, '\n')\<close> in the bytes of the buffer, which a NUL ends.\<close>

definition newline_at :: "u8 list \<Rightarrow> nat option" where
  "newline_at b = (case first_index (\<lambda>c. c = 0x0A \<or> c = 0) b of
     Some q \<Rightarrow> if b ! q = 0x0A then Some q else None | None \<Rightarrow> None)"

lemma newline_at_less: "newline_at b = Some q \<Longrightarrow> q < length b"
  by (auto simp: newline_at_def split: option.splits if_splits dest: first_index_SomeD)

text \<open>The inner loop: what is written and the bytes after the last newline.\<close>

function grep_lines :: "u8 list \<Rightarrow> u8 list \<Rightarrow> u8 list \<times> u8 list" where
  "grep_lines pattern p =
     (case newline_at p of
        None \<Rightarrow> ([], p)
      | Some q \<Rightarrow>
          let (out, rest) = grep_lines pattern (drop (q + 1) p) in
          ((if match pattern (take q p) then take (q + 1) p else []) @ out, rest))"
  by pat_completeness auto
termination
  by (relation "measure (\<lambda>(pattern, p). length p)") (auto dest: newline_at_less)

declare grep_lines.simps [simp del]

text \<open>The outer loop: \<open>buf\<close> holds the \<open>m\<close> bytes kept from the reads before.\<close>

fun grep_loop :: "u8 list \<Rightarrow> u8 list \<Rightarrow> u8 list list \<Rightarrow> u8 list" where
  "grep_loop pattern buf [] = []"
| "grep_loop pattern buf (r # rs) =
     (let b = buf @ r; (out, rest) = grep_lines pattern b in
      out @ grep_loop pattern (if rest = b then [] else rest) rs)"

definition grep :: "u8 list \<Rightarrow> u8 list list \<Rightarrow> u8 list" where
  "grep pattern reads = grep_loop pattern [] reads"

section \<open>The language of a pattern\<close>

text \<open>A pattern is a sequence of items: one byte of a class, any number of bytes of a class, or the
  end of the text.\<close>

datatype item = One u8 | Many u8 | End

fun items :: "u8 list \<Rightarrow> item list" where
  "items [] = []"
| "items [r] = (if r = 0x24 then [End] else [One r])"
| "items (r # r' # re) = (if r' = 0x2A then Many r # items re else One r # items (r' # re))"

definition in_class :: "u8 \<Rightarrow> u8 \<Rightarrow> bool" where
  "in_class r c \<longleftrightarrow> r = 0x2E \<or> c = r"

text \<open>The texts that start with a match of the items.\<close>

fun denotes :: "item list \<Rightarrow> u8 list set" where
  "denotes [] = UNIV"
| "denotes (One r # is) = {c # w | c w. in_class r c \<and> w \<in> denotes is}"
| "denotes (Many r # is) = {u @ w | u w. (\<forall>c \<in> set u. in_class r c) \<and> w \<in> denotes is}"
| "denotes (End # is) = {[]}"

lemma many_Nil: "[] \<in> denotes (Many r # is) \<longleftrightarrow> [] \<in> denotes is"
  by auto

lemma many_I: "w \<in> denotes is \<Longrightarrow> \<forall>c \<in> set u. in_class r c \<Longrightarrow> u @ w \<in> denotes (Many r # is)"
  by auto

lemma many_Cons:
  "x # w \<in> denotes (Many r # is) \<longleftrightarrow> x # w \<in> denotes is \<or> in_class r x \<and> w \<in> denotes (Many r # is)"
proof
  assume "x # w \<in> denotes (Many r # is)"
  then obtain u v where u: "x # w = u @ v" "\<forall>c \<in> set u. in_class r c" "v \<in> denotes is" by auto
  then show "x # w \<in> denotes is \<or> in_class r x \<and> w \<in> denotes (Many r # is)" by (cases u) auto
next
  assume "x # w \<in> denotes is \<or> in_class r x \<and> w \<in> denotes (Many r # is)"
  then show "x # w \<in> denotes (Many r # is)"
  proof
    assume "x # w \<in> denotes is"
    then show ?thesis using many_I [of "x # w" "is" "[]" r] by simp
  next
    assume "in_class r x \<and> w \<in> denotes (Many r # is)"
    then obtain u v where "w = u @ v" "\<forall>c \<in> set (x # u). in_class r c" "v \<in> denotes is" by auto
    then show ?thesis using many_I [of v "is" "x # u" r] by simp
  qed
qed

lemma matchhere_denotes: "matchhere re t \<longleftrightarrow> t \<in> denotes (items re)"
  and matchstar_denotes: "matchstar c re t \<longleftrightarrow> t \<in> denotes (Many c # items re)"
proof (induction re t and c re t rule: matchhere_matchstar.induct)
  case (1 re t)
  show ?case
  proof (cases re rule: items.cases)
    case 1
    then show ?thesis by (simp add: matchhere.simps)
  next
    case (2 r)
    then show ?thesis using "1.IH"(2) by (auto simp: matchhere.simps [of "[r]"] in_class_def matchhere.simps [of "[]"] split: list.splits)
  next
    case (3 r r' re')
    then show ?thesis using "1.IH"(1,2) by (subst matchhere.simps) (auto simp: in_class_def split: list.splits)
  qed
next
  case (2 c re t)
  show ?case
  proof (cases t)
    case Nil
    then show ?thesis using "2.IH"(1) by (subst matchstar.simps) (simp add: many_Nil)
  next
    case (Cons x w)
    then show ?thesis using "2.IH" unfolding Cons many_Cons by (subst matchstar.simps) (auto simp: in_class_def)
  qed
qed

lemma match_from_iff: "match_from re t \<longleftrightarrow> (\<exists>u w. t = u @ w \<and> matchhere re w)"
proof (induction t)
  case Nil
  then show ?case by (simp add: match_from.simps)
next
  case (Cons x t)
  show ?case
  proof
    assume "match_from re (x # t)"
    then have "matchhere re (x # t) \<or> match_from re t" by (simp add: match_from.simps)
    then show "\<exists>u w. x # t = u @ w \<and> matchhere re w" using Cons.IH by (metis append_Cons append_Nil)
  next
    assume "\<exists>u w. x # t = u @ w \<and> matchhere re w"
    then obtain u w where u: "x # t = u @ w" "matchhere re w" by blast
    then have "matchhere re (x # t) \<or> match_from re t" using Cons.IH by (cases u) auto
    then show "match_from re (x # t)" by (simp add: match_from.simps [of re "x # t"])
  qed
qed

section \<open>Lines\<close>

definition plain :: "u8 list \<Rightarrow> bool" where
  "plain l \<longleftrightarrow> 0x0A \<notin> set l \<and> 0 \<notin> set l"

definition join :: "u8 list list \<Rightarrow> u8 list" where
  "join ls = concat (map (\<lambda>l. l @ [0x0A]) ls)"

lemma join_simps [simp]: "join [] = []" "join (l # ls) = l @ 0x0A # join ls" "join (ls @ ls') = join ls @ join ls'"
  by (simp_all add: join_def)

lemma newline_at_line: "plain l \<Longrightarrow> newline_at (l @ 0x0A # b) = Some (length l)"
proof -
  assume l: "plain l"
  then have "first_index (\<lambda>c. c = 0x0A \<or> c = 0) (l @ 0x0A # b) = Some (length l)"
    unfolding first_index_Some_iff plain_def by (auto simp: nth_append in_set_conv_nth)
  then show ?thesis by (simp add: newline_at_def)
qed

lemma newline_at_plain: "plain l \<Longrightarrow> newline_at l = None"
proof -
  assume "plain l"
  then have "first_index (\<lambda>c. c = 0x0A \<or> c = 0) l = None" by (auto simp: first_index_None plain_def)
  then show ?thesis by (simp add: newline_at_def)
qed

lemma grep_lines_join:
  "\<forall>l \<in> set ls. plain l \<Longrightarrow> plain t \<Longrightarrow> grep_lines re (join ls @ t) = (join (filter (match re) ls), t)"
proof (induction ls)
  case Nil
  then show ?case by (simp add: grep_lines.simps [of re t] newline_at_plain)
next
  case (Cons l ls)
  then have "newline_at (l @ 0x0A # join ls @ t) = Some (length l)" by (simp add: newline_at_line)
  then show ?case using Cons by (simp add: grep_lines.simps [of re "l @ 0x0A # join ls @ t"])
qed

text \<open>Every block without NUL is a sequence of lines and a rest.\<close>

lemma split_lines:
  assumes "0 \<notin> set b"
  shows "\<exists>ls t. b = join ls @ t \<and> (\<forall>l \<in> set ls. plain l) \<and> plain t"
  using assms
proof (induction b)
  case Nil
  then show ?case by (intro exI [of _ "[]"]) (simp add: plain_def)
next
  case (Cons c b)
  then obtain ls t where b: "b = join ls @ t" "\<forall>l \<in> set ls. plain l" "plain t" by auto
  consider "c = 0x0A" | "c \<noteq> 0x0A" "ls = []" | l ls' where "c \<noteq> 0x0A" "ls = l # ls'" by (cases ls) auto
  then show ?case
  proof cases
    case 1
    then have "c # b = join ([] # ls) @ t" using b(1) by simp
    then show ?thesis using b by (metis insert_iff list.set(1,2) plain_def empty_iff)
  next
    case 2
    then have "c # b = join [] @ (c # t)" "plain (c # t)" using b Cons.prems by (auto simp: plain_def)
    then show ?thesis by (metis empty_iff list.set(1))
  next
    case 3
    then have "c # b = join ((c # l) # ls') @ t" "plain (c # l)" using b Cons.prems by (auto simp: plain_def)
    then show ?thesis using b 3(2) by (metis insert_iff list.set(2))
  qed
qed

lemma line_cancel:
  assumes "plain l" "plain l'" "l @ 0x0A # a = l' @ 0x0A # b"
  shows "l = l' \<and> a = b"
  using assms by (induction l arbitrary: l') (case_tac l'; auto simp: plain_def)+

lemma join_prefix:
  "join ls @ a = join ls' @ t \<Longrightarrow> \<forall>l \<in> set ls. plain l \<Longrightarrow> \<forall>l \<in> set ls'. plain l \<Longrightarrow> plain t \<Longrightarrow>
   \<exists>ls2. ls' = ls @ ls2 \<and> a = join ls2 @ t"
proof (induction ls arbitrary: ls')
  case Nil
  then show ?case by simp
next
  case (Cons l ls)
  show ?case
  proof (cases ls')
    case Nil
    then have "0x0A \<in> set t" using Cons.prems(1) by (auto dest!: arg_cong [where f = set])
    then show ?thesis using Cons.prems(4) by (simp add: plain_def)
  next
    case (Cons l' ls'')
    then have "l = l' \<and> join ls @ a = join ls'' @ t" using Cons.prems by (intro line_cancel) auto
    then show ?thesis using Cons Cons.IH [of ls''] Cons.prems by auto
  qed
qed

lemma grep_loop_lines:
  "buf @ concat rs = join ls @ t \<Longrightarrow> \<forall>l \<in> set ls. plain l \<Longrightarrow> plain t \<Longrightarrow> \<forall>r \<in> set rs. 0x0A \<in> set r \<Longrightarrow> plain buf \<Longrightarrow>
   grep_loop re buf rs = join (filter (match re) ls)"
proof (induction rs arbitrary: buf ls)
  case Nil
  then have "0x0A \<notin> set (join ls @ t)" by (auto simp: plain_def)
  then have "ls = []" by (cases ls) auto
  then show ?case by simp
next
  case (Cons r rs)
  have "0 \<notin> set (join ls @ t)" using Cons.prems(2,3) by (auto simp: join_def plain_def)
  then have "0 \<notin> set (buf @ r)" using Cons.prems(1) by (metis Un_iff append_assoc concat.simps(2) set_append)
  then obtain ls1 t1 where b: "buf @ r = join ls1 @ t1" "\<forall>l \<in> set ls1. plain l" "plain t1" using split_lines by blast
  then have "join ls1 @ (t1 @ concat rs) = join ls @ t" using Cons.prems(1) by (metis append_assoc concat.simps(2))
  from join_prefix [OF this b(2) Cons.prems(2,3)] obtain ls2 where l2: "ls = ls1 @ ls2" "t1 @ concat rs = join ls2 @ t" by blast
  have "0x0A \<in> set (buf @ r)" using Cons.prems(4) by simp
  then have "t1 \<noteq> buf @ r" using b(3) by (auto simp: plain_def)
  moreover have "grep_loop re t1 rs = join (filter (match re) ls2)"
    using Cons.prems l2 b(3) by (intro Cons.IH) auto
  moreover have "grep_lines re (buf @ r) = (join (filter (match re) ls1), t1)" unfolding b(1) by (rule grep_lines_join [OF b(2,3)])
  ultimately show ?case by (simp add: l2(1) Let_def)
qed

section \<open>Properties\<close>

text \<open>C34. \<open>match\<close> terminates on every pattern and text and decides the language of the pattern: a pattern
  that starts with a caret matches a text that starts with one of its instances, any other
  pattern a text with an instance anywhere.\<close>

theorem match_decides_language:
  "match re text \<longleftrightarrow>
     (if re \<noteq> [] \<and> hd re = 0x5E then text \<in> denotes (items (tl re))
      else (\<exists>u w. text = u @ w \<and> w \<in> denotes (items re)))"
  by (simp add: match_def match_from_iff matchhere_denotes)

text \<open>C35. \<open>grep\<close> writes the matching lines of its input, in order: if the reads give the lines
  \<open>ls\<close> and then an unterminated rest, all without NUL, and every read brings at least one newline,
  then the output is the matching ones of these lines.\<close>

theorem grep_writes_matching_lines:
  assumes "concat reads = join ls @ t" and "\<forall>l \<in> set ls. plain l" and "plain t" and "\<forall>r \<in> set reads. 0x0A \<in> set r"
  shows "grep re reads = join (filter (match re) ls)"
  unfolding grep_def by (rule grep_loop_lines) (use assms in \<open>auto simp: plain_def\<close>)

theorem grep_writes_matching_lines_witness:
  "grep [0x61, 0x24] [[0x61, 0x0A, 0x62], [0x61, 0x0A, 0x62, 0x0A]] = [0x61, 0x0A, 0x62, 0x61, 0x0A]"
proof -
  have "match [0x61, 0x24] [0x61]" "match [0x61, 0x24] [0x62, 0x61]" "\<not> match [0x61, 0x24] [0x62]" by code_simp+
  then show ?thesis
    using grep_writes_matching_lines [of "[[0x61, 0x0A, 0x62], [0x61, 0x0A, 0x62, 0x0A]]" "[[0x61], [0x62, 0x61], [0x62]]" "[]" "[0x61, 0x24]"]
    by (simp add: plain_def)
qed

text \<open>A read without a newline loses the line it starts: \<open>grep\<close> empties the buffer.\<close>

lemma grep_drops_split_line: "grep [0x61] [[0x61], [0x0A]] = []" "match [0x61] [0x61]"
  by code_simp+

end
