(* ===== verification/Xv6_Sh.thy ===== *)
theory Xv6_Sh
  imports Xv6_Prelude
begin

text \<open>
  The parser of the shell \<open>sh.c\<close>. The line is the string before its NUL; a pointer into it is a
  position, and \<open>es\<close> is its length. A parsed command keeps the positions of its strings, as the
  source does, and \<open>nulterminate\<close> writes the NULs into the buffer. Allocations succeed. The recursive
  functions take fuel; that what \<open>parsecmd\<close> gives is enough is a theorem.
\<close>

section \<open>Commands\<close>

datatype cmd =
    EXEC "(nat \<times> nat) list"
  | REDIR cmd nat nat int int
  | PIPE cmd cmd
  | LIST cmd cmd
  | BACK cmd

definition MAXARGS :: nat where "MAXARGS = 10"

text \<open>The modes of \<open>open\<close> that the shell uses.\<close>

definition RDONLY :: int where "RDONLY = 0"
definition WRCREATE :: int where "WRCREATE = 0x201"

datatype perr = Panicked string | Out_of_fuel

type_synonym 'a pres = "perr + 'a"

definition pbind :: "'a pres \<Rightarrow> ('a \<Rightarrow> 'b pres) \<Rightarrow> 'b pres" where
  "pbind m f = (case m of Inl e \<Rightarrow> Inl e | Inr x \<Rightarrow> f x)"

section \<open>Tokens\<close>

definition NUL :: char where "NUL = CHR 0x00"
definition whitespace :: string where "whitespace = [CHR '' '', CHR 0x09, CHR 0x0D, CHR 0x0A, CHR 0x0B]"
definition symbols :: string where "symbols = ''<|>&;()''"

fun strchr :: "string \<Rightarrow> char \<Rightarrow> bool" where
  "strchr [] c = False"
| "strchr (d # s) c = (d = c \<or> strchr s c)"

text \<open>\<open>*s\<close>: at the end of the line, the NUL.\<close>

definition chr_at :: "string \<Rightarrow> nat \<Rightarrow> char" where
  "chr_at l s = (if s < length l then l ! s else NUL)"

text \<open>\<open>while(s < es && P(*s)) s++;\<close>\<close>

function skip :: "(char \<Rightarrow> bool) \<Rightarrow> string \<Rightarrow> nat \<Rightarrow> nat" where
  "skip P l s = (if s < length l \<and> P (chr_at l s) then skip P l (s + 1) else s)"
  by pat_completeness auto
termination
  by (relation "measure (\<lambda>(P, l, s). length l - s)") auto

declare skip.simps [simp del]

definition gettoken :: "string \<Rightarrow> nat \<Rightarrow> char \<times> nat \<times> nat \<times> nat" where
  "gettoken l s =
     (let q = skip (strchr whitespace) l s; c = chr_at l q;
          (ret, eq) =
            (if c = NUL then (c, q)
             else if c \<in> {CHR ''|'', CHR ''('', CHR '')'', CHR '';'', CHR ''&'', CHR ''<''} then (c, q + 1)
             else if c = CHR ''>'' then (if chr_at l (q + 1) = CHR ''>'' then (CHR ''+'', q + 2) else (c, q + 1))
             else (CHR ''a'', skip (\<lambda>c. \<not> strchr whitespace c \<and> \<not> strchr symbols c) l q))
      in (ret, q, eq, skip (strchr whitespace) l eq))"

definition peek :: "string \<Rightarrow> nat \<Rightarrow> string \<Rightarrow> bool \<times> nat" where
  "peek l s toks =
     (let s = skip (strchr whitespace) l s in (chr_at l s \<noteq> NUL \<and> strchr toks (chr_at l s), s))"

section \<open>Progress\<close>

lemma skip_ge: "s \<le> skip P l s"
  by (induction P l s rule: skip.induct) (subst skip.simps, auto)

lemma skip_le: "s \<le> length l \<Longrightarrow> skip P l s \<le> length l"
  by (induction P l s rule: skip.induct) (subst skip.simps, auto)

lemma skip_stop: "skip P l s < length l \<Longrightarrow> \<not> P (chr_at l (skip P l s))"
  by (induction P l s rule: skip.induct) (subst skip.simps, subst (asm) skip.simps, auto split: if_splits)

lemma skip_skip [simp]: "skip P l (skip P l s) = skip P l s"
  using skip_stop [of P l s] by (subst skip.simps) auto

lemma chr_at_end: "chr_at l s \<noteq> NUL \<Longrightarrow> s < length l"
  by (auto simp: chr_at_def split: if_splits)

text \<open>A token other than the end of the line is not empty.\<close>

lemma gettoken_bounds:
  assumes "gettoken l s = (r, q, eq, s')"
  shows "s \<le> q" "q \<le> eq" "eq \<le> s'" "s \<le> length l \<Longrightarrow> s' \<le> length l" "r \<noteq> NUL \<Longrightarrow> q < eq" "r \<noteq> NUL \<Longrightarrow> q < length l"
proof -
  have q: "q = skip (strchr whitespace) l s" and s': "s' = skip (strchr whitespace) l eq"
    using assms by (auto simp: gettoken_def Let_def split: if_splits)
  show "s \<le> q" "eq \<le> s'" by (simp_all add: q s' skip_ge)
  let ?w = "skip (\<lambda>c. \<not> strchr whitespace c \<and> \<not> strchr symbols c) l q"
  have r: "r \<noteq> NUL \<longleftrightarrow> chr_at l q \<noteq> NUL" using assms q by (auto simp: gettoken_def Let_def NUL_def split: if_splits)
  show "q < length l" if "r \<noteq> NUL" using that r chr_at_end by blast
  have "q < ?w" if "q < length l" "\<not> strchr symbols (chr_at l q)"
  proof -
    have "\<not> strchr whitespace (chr_at l q)" using skip_stop [of "strchr whitespace" l s] that(1) q by simp
    then show ?thesis using that skip_ge [of "q + 1"] by (subst skip.simps) (auto simp: Suc_le_eq)
  qed
  then show a: "q < eq" if "r \<noteq> NUL"
    using assms that r q chr_at_end [of l q] by (auto simp: gettoken_def Let_def symbols_def split: if_splits)
  show "q \<le> eq" using assms q a by (cases "r = NUL") (auto simp: gettoken_def Let_def skip_ge split: if_splits)
  have "eq \<le> length l" if "s \<le> length l"
    using assms q chr_at_end [of l q] chr_at_end [of l "q + 1"] skip_le [OF that] skip_le [of q l]
    by (auto simp: gettoken_def Let_def NUL_def split: if_splits)
  then show "s' \<le> length l" if "s \<le> length l" using that skip_le s' by simp
qed

lemma peek_bounds:
  assumes "peek l s toks = (b, s')"
  shows "s \<le> s'" "s \<le> length l \<Longrightarrow> s' \<le> length l" "b \<Longrightarrow> s' < length l"
  using assms skip_ge skip_le chr_at_end by (auto simp: peek_def Let_def)

text \<open>What \<open>peek\<close> finds, \<open>gettoken\<close> consumes.\<close>

lemma peek_gettoken:
  assumes "peek l s toks = (True, s')" "gettoken l s' = (r, q, eq, s'')"
  shows "s' < s''" "r \<noteq> NUL"
proof -
  have a: "s' = skip (strchr whitespace) l s" "chr_at l s' \<noteq> NUL" using assms(1) by (auto simp: peek_def Let_def)
  then show r: "r \<noteq> NUL" using assms(2) by (auto simp: gettoken_def Let_def NUL_def split: if_splits)
  show "s' < s''" using gettoken_bounds [OF assms(2)] r by linarith
qed

section \<open>Redirections and arguments\<close>

text \<open>The redirections found so far, each with the positions of its file, its mode and its descriptor.\<close>

type_synonym redirs = "(nat \<times> nat \<times> int \<times> int) list"

definition redircmds :: "cmd \<Rightarrow> redirs \<Rightarrow> cmd" where
  "redircmds c rs = foldl (\<lambda>c (q, eq, mode, fd). REDIR c q eq mode fd) c rs"

function parseredirs :: "redirs \<Rightarrow> string \<Rightarrow> nat \<Rightarrow> (redirs \<times> nat) pres" where
  "parseredirs rs l s =
     (let (b, s) = peek l s ''<>'' in
      if b then
        let (tok, _, _, s) = gettoken l s; (t, q, eq, s) = gettoken l s in
        if t \<noteq> CHR ''a'' then Inl (Panicked ''missing file for redirection'')
        else parseredirs (rs @ [if tok = CHR ''<'' then (q, eq, RDONLY, 0) else (q, eq, WRCREATE, 1)]) l s
      else Inr (rs, s))"
  by pat_completeness auto
termination
proof (relation "measure (\<lambda>(rs, l, s). length l - s)", goal_cases)
  case (2 rs l s b_s b s1 tok_r tok r2 x r3 y s2 t_r t u q v eq s3)
  then have p: "peek l s ''<>'' = (True, s1)" "gettoken l s1 = (tok, x, y, s2)" "gettoken l s2 = (t, q, eq, s3)"
    by auto
  have "s \<le> s1" "s1 < length l" using peek_bounds [OF p(1)] by simp_all
  moreover have "s1 < s2" by (rule peek_gettoken(1) [OF p(1,2)])
  moreover have "s2 \<le> s3" using gettoken_bounds(1-3) [OF p(3)] by linarith
  ultimately show ?case by auto
qed simp

declare parseredirs.simps [simp del]

lemma parseredirs_bounds:
  assumes "parseredirs rs l s = Inr (rs', s')"
  shows "s \<le> s'" "s \<le> length l \<Longrightarrow> s' \<le> length l"
proof -
  have "s \<le> s' \<and> (s \<le> length l \<longrightarrow> s' \<le> length l)"
    using assms
  proof (induction rs l s rule: parseredirs.induct)
    case (1 rs l s)
    obtain b s1 where p: "peek l s ''<>'' = (b, s1)" by fastforce
    obtain tok x y s2 where g: "gettoken l s1 = (tok, x, y, s2)" by (metis prod_cases4)
    obtain u q e s3 where h: "gettoken l s2 = (u, q, e, s3)" by (metis prod_cases4)
    note B = peek_bounds [OF p] gettoken_bounds [OF g] gettoken_bounds [OF h]
    show ?case
    proof (cases b)
      case True
      then have "s3 \<le> s' \<and> (s3 \<le> length l \<longrightarrow> s' \<le> length l)"
        using "1.prems" "1.IH" [OF p [symmetric] refl True g [symmetric] refl refl refl h [symmetric] refl refl refl] p g h
        by (subst (asm) parseredirs.simps) (auto split: if_splits)
      then show ?thesis using B by linarith
    next
      case False
      then show ?thesis using "1.prems" B p by (subst (asm) parseredirs.simps) auto
    qed
  qed
  then show "s \<le> s'" "s \<le> length l \<Longrightarrow> s' \<le> length l" by simp_all
qed

text \<open>The loop of \<open>parseexec\<close>; the \<open>execcmd\<close> that the source fills in place is completed at the end.\<close>

function parseexec_loop :: "(nat \<times> nat) list \<Rightarrow> redirs \<Rightarrow> string \<Rightarrow> nat \<Rightarrow> (cmd \<times> nat) pres" where
  "parseexec_loop argv rs l s =
     (let (b, s) = peek l s ''|)&;'' in
      if b then Inr (redircmds (EXEC argv) rs, s)
      else
        let (tok, q, eq, s) = gettoken l s in
        if tok = NUL then Inr (redircmds (EXEC argv) rs, s)
        else if tok \<noteq> CHR ''a'' then Inl (Panicked ''syntax'')
        else if length (argv @ [(q, eq)]) \<ge> MAXARGS then Inl (Panicked ''too many args'')
        else
          case parseredirs rs l s of
            Inl e \<Rightarrow> Inl e
          | Inr (rs, s) \<Rightarrow> parseexec_loop (argv @ [(q, eq)]) rs l s)"
  by pat_completeness auto
termination
proof (relation "measure (\<lambda>(argv, rs, l, s). length l - s)", goal_cases)
  case (2 argv rs l s ps b s1 pt tok pq q pe eq s2 pr rs2 s3)
  then have p: "peek l s ''|)&;'' = (False, s1)" "gettoken l s1 = (tok, q, eq, s2)" "parseredirs rs l s2 = Inr (rs2, s3)" "tok \<noteq> NUL"
    by auto
  have "s \<le> s1" using peek_bounds(1) [OF p(1)] by simp
  moreover have "s1 < s2" "q < length l" "s1 \<le> q" using gettoken_bounds [OF p(2)] p(4) by linarith+
  moreover have "s2 \<le> s3" by (rule parseredirs_bounds(1) [OF p(3)])
  ultimately show ?case by auto
qed simp

declare parseexec_loop.simps [simp del]

text \<open>The loop over \<open>&\<close> in \<open>parseline\<close>.\<close>

function back_loop :: "cmd \<Rightarrow> string \<Rightarrow> nat \<Rightarrow> cmd \<times> nat" where
  "back_loop c l s =
     (let (b, s) = peek l s ''&'' in
      if b then let (_, _, _, s) = gettoken l s in back_loop (BACK c) l s else (c, s))"
  by pat_completeness auto
termination
proof (relation "measure (\<lambda>(c, l, s). length l - s)", goal_cases)
  case (2 c l s ps b s1 p1 x p2 y p3 z s2)
  then have p: "peek l s ''&'' = (True, s1)" "gettoken l s1 = (x, y, z, s2)" by auto
  then show ?case using peek_bounds [OF p(1)] peek_gettoken(1) [OF p] by auto
qed simp

declare back_loop.simps [simp del]

section \<open>Lines\<close>

text \<open>The position behind one token, for the calls that use only that.\<close>

definition after_token :: "string \<Rightarrow> nat \<Rightarrow> nat" where
  "after_token l s = (case gettoken l s of (_, _, _, s) \<Rightarrow> s)"

fun parseline :: "nat \<Rightarrow> string \<Rightarrow> nat \<Rightarrow> (cmd \<times> nat) pres"
  and parsepipe :: "nat \<Rightarrow> string \<Rightarrow> nat \<Rightarrow> (cmd \<times> nat) pres"
  and parseexec :: "nat \<Rightarrow> string \<Rightarrow> nat \<Rightarrow> (cmd \<times> nat) pres"
  and parseblock :: "nat \<Rightarrow> string \<Rightarrow> nat \<Rightarrow> (cmd \<times> nat) pres" where
  "parseline 0 l s = Inl Out_of_fuel"
| "parseline (Suc n) l s =
     pbind (parsepipe n l s) (\<lambda>(c, s).
     let (c, s) = back_loop c l s; (b, s) = peek l s '';'' in
     if b then pbind (parseline n l (after_token l s)) (\<lambda>(d, s). Inr (LIST c d, s)) else Inr (c, s))"
| "parsepipe 0 l s = Inl Out_of_fuel"
| "parsepipe (Suc n) l s =
     pbind (parseexec n l s) (\<lambda>(c, s).
     let (b, s) = peek l s ''|'' in
     if b then pbind (parsepipe n l (after_token l s)) (\<lambda>(d, s). Inr (PIPE c d, s)) else Inr (c, s))"
| "parseexec 0 l s = Inl Out_of_fuel"
| "parseexec (Suc n) l s =
     (let (b, s) = peek l s ''('' in
      if b then parseblock n l s
      else pbind (parseredirs [] l s) (\<lambda>(rs, s). parseexec_loop [] rs l s))"
| "parseblock 0 l s = Inl Out_of_fuel"
| "parseblock (Suc n) l s =
     (let (b, s) = peek l s ''('' in
      if \<not> b then Inl (Panicked ''parseblock'')
      else
        pbind (parseline n l (after_token l s)) (\<lambda>(c, s).
        let (b, s) = peek l s '')'' in
        if \<not> b then Inl (Panicked ''syntax - missing )'')
        else pbind (parseredirs [] l (after_token l s)) (\<lambda>(rs, s). Inr (redircmds c rs, s))))"

fun nulterminate :: "cmd \<Rightarrow> string \<Rightarrow> string" where
  "nulterminate (EXEC argv) b = fold (\<lambda>(q, eq) b. b[eq := NUL]) argv b"
| "nulterminate (REDIR c q eq mode fd) b = (nulterminate c b)[eq := NUL]"
| "nulterminate (PIPE c d) b = nulterminate d (nulterminate c b)"
| "nulterminate (LIST c d) b = nulterminate d (nulterminate c b)"
| "nulterminate (BACK c) b = nulterminate c b"

text \<open>The command and the buffer it points into.\<close>

definition parsecmd :: "string \<Rightarrow> (cmd \<times> string) pres" where
  "parsecmd l =
     pbind (parseline (4 * (length l + 1)) l 0) (\<lambda>(c, s).
     let (_, s) = peek l s [] in
     if s \<noteq> length l then Inl (Panicked ''syntax'')
     else Inr (c, nulterminate c (l @ [NUL])))"

section \<open>Well-formed commands\<close>

definition plain :: "char \<Rightarrow> bool" where
  "plain c \<longleftrightarrow> \<not> strchr whitespace c \<and> \<not> strchr symbols c"

text \<open>The positions of a whole token of the line.\<close>

definition token :: "string \<Rightarrow> nat \<times> nat \<Rightarrow> bool" where
  "token l t \<longleftrightarrow> fst t < snd t \<and> snd t \<le> length l \<and> (\<forall>i. fst t \<le> i \<and> i < snd t \<longrightarrow> plain (l ! i))
     \<and> (snd t < length l \<longrightarrow> \<not> plain (l ! snd t))"

definition redir_ok :: "string \<Rightarrow> nat \<times> nat \<times> int \<times> int \<Rightarrow> bool" where
  "redir_ok l r = (case r of (q, eq, m, fd) \<Rightarrow> token l (q, eq) \<and> (m, fd) \<in> {(RDONLY, 0), (WRCREATE, 1)})"

fun wf_cmd :: "string \<Rightarrow> cmd \<Rightarrow> bool" where
  "wf_cmd l (EXEC argv) \<longleftrightarrow> length argv < MAXARGS \<and> (\<forall>t\<in>set argv. token l t)"
| "wf_cmd l (REDIR c q eq m fd) \<longleftrightarrow> wf_cmd l c \<and> redir_ok l (q, eq, m, fd)"
| "wf_cmd l (PIPE c d) \<longleftrightarrow> wf_cmd l c \<and> wf_cmd l d"
| "wf_cmd l (LIST c d) \<longleftrightarrow> wf_cmd l c \<and> wf_cmd l d"
| "wf_cmd l (BACK c) \<longleftrightarrow> wf_cmd l c"

lemma wf_redircmds: "wf_cmd l (redircmds c rs) \<longleftrightarrow> wf_cmd l c \<and> (\<forall>r\<in>set rs. redir_ok l r)"
  by (induction rs arbitrary: c) (auto simp: redircmds_def)

lemma skip_between: "s \<le> i \<Longrightarrow> i < skip P l s \<Longrightarrow> P (chr_at l i)"
proof (induction P l s rule: skip.induct)
  case (1 P l s)
  show ?case
  proof (cases "s < length l \<and> P (chr_at l s)")
    case True
    then have "skip P l s = skip P l (s + 1)" by (subst skip.simps) simp
    then show ?thesis using 1 True by (cases "i = s") auto
  next
    case False
    then have "skip P l s = s" by (subst skip.simps) auto
    then show ?thesis using "1.prems" by simp
  qed
qed

lemma gettoken_word:
  assumes "gettoken l s = (CHR ''a'', q, eq, s')" "s \<le> length l"
  shows "token l (q, eq)"
proof -
  note B = gettoken_bounds [OF assms(1)]
  have n: "CHR ''a'' \<noteq> NUL" by (simp add: NUL_def)
  have eq: "eq = skip (\<lambda>c. \<not> strchr whitespace c \<and> \<not> strchr symbols c) l q"
    using assms(1) by (auto simp: gettoken_def Let_def NUL_def split: if_splits)
  have "plain (l ! i)" if "q \<le> i" "i < eq" for i
    using skip_between [of q i _ l] that eq B(3) B(4) [OF assms(2)] by (force simp: plain_def chr_at_def)
  moreover have "\<not> plain (l ! eq)" if "eq < length l"
    using skip_stop [of _ l q] that eq by (auto simp: plain_def chr_at_def)
  ultimately show ?thesis using B n assms(2) by (auto simp: token_def)
qed

text \<open>The results of the loops.\<close>

lemma parseredirs_wf:
  assumes "s \<le> length l" "\<forall>r\<in>set rs. redir_ok l r"
  shows "parseredirs rs l s \<noteq> Inl Out_of_fuel"
    "parseredirs rs l s = Inr (rs', s') \<Longrightarrow> s \<le> s' \<and> s' \<le> length l \<and> (\<forall>r\<in>set rs'. redir_ok l r)"
proof -
  have "parseredirs rs l s \<noteq> Inl Out_of_fuel \<and>
      (\<forall>rs' s'. parseredirs rs l s = Inr (rs', s') \<longrightarrow> s \<le> s' \<and> s' \<le> length l \<and> (\<forall>r\<in>set rs'. redir_ok l r))"
    using assms
  proof (induction rs l s rule: parseredirs.induct)
    case (1 rs l s)
    obtain b s1 where p: "peek l s ''<>'' = (b, s1)" by (cases "peek l s ''<>''")
    obtain tok x y s2 where g: "gettoken l s1 = (tok, x, y, s2)" by (cases "gettoken l s1")
    obtain u q e s3 where h: "gettoken l s2 = (u, q, e, s3)" by (cases "gettoken l s2")
    have s1: "s1 \<le> length l" "s \<le> s1" using peek_bounds [OF p] "1.prems" by simp_all
    have s2: "s2 \<le> length l" "s1 \<le> s2" using gettoken_bounds(1-4) [OF g] s1 by simp_all
    have s3: "s3 \<le> length l" "s2 \<le> s3" using gettoken_bounds(1-4) [OF h] s2 by simp_all
    let ?r = "if tok = CHR ''<'' then (q, e, RDONLY, 0) else (q, e, WRCREATE, 1)"
    have e: "parseredirs rs l s = (if b then if u \<noteq> CHR ''a'' then Inl (Panicked ''missing file for redirection'')
        else parseredirs (rs @ [?r]) l s3 else Inr (rs, s1))"
      using p g h by (subst parseredirs.simps) simp
    show ?case
    proof (cases "b \<and> u = CHR ''a''")
      case True
      have "token l (q, e)" using gettoken_word [of l s2 q e s3] h True s2 by simp
      then have ok: "\<forall>r\<in>set (rs @ [?r]). redir_ok l r" using "1.prems"(2) by (auto simp: redir_ok_def)
      have b: "b" and u: "\<not> u \<noteq> CHR ''a''" using True by simp_all
      note IH = "1.IH" [OF p [symmetric] refl b g [symmetric] refl refl refl h [symmetric] refl refl refl u s3(1) ok]
      then show ?thesis using True s1 s2 s3 by (auto simp: e)
    next
      case False
      then show ?thesis using "1.prems" s1 by (auto simp: e)
    qed
  qed
  then show "parseredirs rs l s \<noteq> Inl Out_of_fuel"
    "parseredirs rs l s = Inr (rs', s') \<Longrightarrow> s \<le> s' \<and> s' \<le> length l \<and> (\<forall>r\<in>set rs'. redir_ok l r)" by simp_all
qed

text \<open>A result that is no lack of fuel, with a well-formed command and a later position.\<close>

definition parsed :: "string \<Rightarrow> nat \<Rightarrow> (cmd \<times> nat) pres \<Rightarrow> bool" where
  "parsed l s r = (case r of Inl e \<Rightarrow> e \<noteq> Out_of_fuel | Inr (c, s') \<Rightarrow> wf_cmd l c \<and> s \<le> s' \<and> s' \<le> length l)"

lemma parseexec_loop_wf:
  assumes "s \<le> length l" "\<forall>r\<in>set rs. redir_ok l r" "\<forall>t\<in>set argv. token l t" "length argv < MAXARGS"
  shows "parsed l s (parseexec_loop argv rs l s)"
  using assms
proof (induction argv rs l s rule: parseexec_loop.induct)
  case (1 argv rs l s)
  obtain b s1 where p: "peek l s ''|)&;'' = (b, s1)" by (cases "peek l s ''|)&;''")
  obtain u q e s2 where g: "gettoken l s1 = (u, q, e, s2)" by (cases "gettoken l s1")
  have s1: "s1 \<le> length l" "s \<le> s1" using peek_bounds [OF p] "1.prems" by simp_all
  have s2: "s2 \<le> length l" "s1 \<le> s2" using gettoken_bounds(1-4) [OF g] s1 by simp_all
  have e: "parseexec_loop argv rs l s = (if b then Inr (redircmds (EXEC argv) rs, s1)
      else if u = NUL then Inr (redircmds (EXEC argv) rs, s2)
      else if u \<noteq> CHR ''a'' then Inl (Panicked ''syntax'')
      else if length (argv @ [(q, e)]) \<ge> MAXARGS then Inl (Panicked ''too many args'')
      else case parseredirs rs l s2 of Inl e \<Rightarrow> Inl e | Inr (rs, s) \<Rightarrow> parseexec_loop (argv @ [(q, e)]) rs l s)"
    using p g by (subst parseexec_loop.simps) simp
  show ?case
  proof (cases "b \<or> u = NUL \<or> u \<noteq> CHR ''a'' \<or> length (argv @ [(q, e)]) \<ge> MAXARGS")
    case True
    then show ?thesis using "1.prems" s1 s2 by (auto simp: e parsed_def wf_redircmds)
  next
    case False
    note P = parseredirs_wf [OF s2(1) "1.prems"(2)]
    show ?thesis
    proof (cases "parseredirs rs l s2")
      case (Inl x)
      then show ?thesis using False P(1) by (simp add: e parsed_def)
    next
      case (Inr y)
      obtain rs3 s3 where y: "y = (rs3, s3)" by (cases y)
      have s3: "s2 \<le> s3" "s3 \<le> length l" "\<forall>r\<in>set rs3. redir_ok l r" using P(2) Inr y by simp_all
      have "token l (q, e)" using gettoken_word [of l s1 q e s2] g False s1 by simp
      then have "parsed l s3 (parseexec_loop (argv @ [(q, e)]) rs3 l s3)"
        using "1.IH" [OF p [symmetric] refl _ g [symmetric] refl refl refl _ _ _ Inr y [symmetric] s3(2,3)] False "1.prems"(3) by simp
      then show ?thesis using False Inr y s1 s2 s3 by (auto simp: e parsed_def split: sum.splits)
    qed
  qed
qed

lemma back_loop_wf:
  assumes "back_loop c l s = (d, s')" "wf_cmd l c" "s \<le> length l"
  shows "wf_cmd l d" "s \<le> s'" "s' \<le> length l"
proof -
  have "wf_cmd l d \<and> s \<le> s' \<and> s' \<le> length l"
    using assms
  proof (induction c l s rule: back_loop.induct)
    case (1 c l s)
    obtain b s1 where p: "peek l s ''&'' = (b, s1)" by (cases "peek l s ''&''")
    obtain u q e s2 where g: "gettoken l s1 = (u, q, e, s2)" by (cases "gettoken l s1")
    have s1: "s1 \<le> length l" "s \<le> s1" using peek_bounds [OF p] "1.prems" by simp_all
    have s2: "s2 \<le> length l" "s1 \<le> s2" using gettoken_bounds(1-4) [OF g] s1 by simp_all
    have e: "back_loop c l s = (if b then back_loop (BACK c) l s2 else (c, s1))" using p g by (subst back_loop.simps) simp
    show ?case
    proof (cases b)
      case True
      then show ?thesis
        using "1.IH" [OF p [symmetric] refl True g [symmetric] refl refl refl] "1.prems" s1 s2 by (simp add: e)
    next
      case False
      then show ?thesis using "1.prems" s1 by (simp add: e)
    qed
  qed
  then show "wf_cmd l d" "s \<le> s'" "s' \<le> length l" by simp_all
qed

lemma after_token_bounds:
  assumes "peek l s toks = (True, s')" "s \<le> length l"
  shows "s < after_token l s'" "after_token l s' \<le> length l"
proof -
  obtain u q e s2 where g: "gettoken l s' = (u, q, e, s2)" by (cases "gettoken l s'")
  show "s < after_token l s'" using peek_gettoken(1) [OF assms(1) g] peek_bounds(1) [OF assms(1)] by (simp add: after_token_def g)
  show "after_token l s' \<le> length l" using gettoken_bounds(4) [OF g] peek_bounds(2) [OF assms(1)] assms(2) by (simp add: after_token_def g)
qed

lemma parsed_pbind:
  assumes "parsed l s m" "\<And>c s'. m = Inr (c, s') \<Longrightarrow> wf_cmd l c \<Longrightarrow> s \<le> s' \<Longrightarrow> s' \<le> length l \<Longrightarrow> parsed l s (f (c, s'))"
  shows "parsed l s (pbind m f)"
  using assms by (cases m) (auto simp: parsed_def pbind_def split: sum.splits)

lemma parsed_mono: "parsed l s r \<Longrightarrow> t \<le> s \<Longrightarrow> parsed l t r"
  by (auto simp: parsed_def split: sum.splits)

lemma parsed_redirs:
  assumes "s \<le> length l" "\<And>rs s'. s \<le> s' \<Longrightarrow> s' \<le> length l \<Longrightarrow> \<forall>r\<in>set rs. redir_ok l r \<Longrightarrow> parsed l s (f (rs, s'))"
  shows "parsed l s (pbind (parseredirs [] l s) f)"
proof (cases "parseredirs [] l s")
  case (Inl e)
  then show ?thesis using parseredirs_wf(1) [OF assms(1), of "[]"] by (simp add: pbind_def parsed_def)
next
  case (Inr y)
  obtain rs s' where y: "y = (rs, s')" by (cases y)
  show ?thesis using parseredirs_wf(2) [OF assms(1), of "[]" rs s'] assms(2) [of s' rs] Inr y by (simp add: pbind_def)
qed

section \<open>The parser returns\<close>

text \<open>Four units of fuel for every character that is left are enough.\<close>

definition enough :: "nat \<Rightarrow> string \<Rightarrow> nat \<Rightarrow> nat \<Rightarrow> bool" where
  "enough k l s n \<longleftrightarrow> s \<le> length l \<and> 4 * (length l - s) + k \<le> n"

lemma enough_step:
  "enough (Suc k) l s (Suc n) \<Longrightarrow> enough k l s n"
  "enough k l s (Suc n) \<Longrightarrow> s < s' \<Longrightarrow> s' \<le> length l \<Longrightarrow> k' \<le> k + 3 \<Longrightarrow> enough k' l s' n"
  by (auto simp: enough_def)

lemma parsed_later:
  assumes "\<And>s. enough k' l s n \<Longrightarrow> parsed l s (f s)" "enough k l s (Suc n)" "s < s'" "s' \<le> length l" "k' \<le> k + 3"
  shows "parsed l s (f s')"
  using parsed_mono [OF assms(1) [OF enough_step(2) [OF assms(2-5)]]] assms(3) by simp

lemma line_step:
  assumes "\<And>s. enough 3 l s n \<Longrightarrow> parsed l s (parsepipe n l s)" "\<And>s. enough 4 l s n \<Longrightarrow> parsed l s (parseline n l s)"
    "enough 4 l s (Suc n)"
  shows "parsed l s (parseline (Suc n) l s)"
  unfolding parseline.simps
proof (rule parsed_pbind)
  show "parsed l s (parsepipe n l s)" using assms(1) enough_step(1) [of 3] assms(3) by simp
next
  fix c s1 assume c: "wf_cmd l c" "s \<le> s1" "s1 \<le> length l"
  obtain d s2 where b: "back_loop c l s1 = (d, s2)" by (cases "back_loop c l s1")
  note B = back_loop_wf [OF b c(1,3)]
  obtain ok s3 where p: "peek l s2 '';'' = (ok, s3)" by (cases "peek l s2 '';''")
  note P = peek_bounds [OF p]
  show "parsed l s ((\<lambda>(c, s). let (c, s) = back_loop c l s; (b, s) = peek l s '';'' in
      if b then pbind (parseline n l (after_token l s)) (\<lambda>(d, s). Inr (LIST c d, s)) else Inr (c, s)) (c, s1))"
  proof (cases ok)
    case True
    note A = after_token_bounds [OF p [unfolded True[THEN eqTrueI]] B(3)]
    have "parsed l s (parseline n l (after_token l s3))"
      by (rule parsed_later [where f = "parseline n l", OF assms(2,3)]) (use A B(2) c(2) in auto)
    then have "parsed l s (pbind (parseline n l (after_token l s3)) (\<lambda>(e, s). Inr (LIST d e, s)))"
      by (rule parsed_pbind) (use B(1) in \<open>simp add: parsed_def\<close>)
    then show ?thesis using True by (simp add: b p)
  next
    case False
    then show ?thesis using B P c(2) by (simp add: b p parsed_def)
  qed
qed

lemma pipe_step:
  assumes "\<And>s. enough 2 l s n \<Longrightarrow> parsed l s (parseexec n l s)" "\<And>s. enough 3 l s n \<Longrightarrow> parsed l s (parsepipe n l s)"
    "enough 3 l s (Suc n)"
  shows "parsed l s (parsepipe (Suc n) l s)"
  unfolding parsepipe.simps
proof (rule parsed_pbind)
  show "parsed l s (parseexec n l s)" using assms(1) enough_step(1) [of 2] assms(3) by simp
next
  fix c s1 assume c: "wf_cmd l c" "s \<le> s1" "s1 \<le> length l"
  obtain ok s3 where p: "peek l s1 ''|'' = (ok, s3)" by (cases "peek l s1 ''|''")
  note P = peek_bounds [OF p]
  show "parsed l s ((\<lambda>(c, s). let (b, s) = peek l s ''|'' in
      if b then pbind (parsepipe n l (after_token l s)) (\<lambda>(d, s). Inr (PIPE c d, s)) else Inr (c, s)) (c, s1))"
  proof (cases ok)
    case True
    note A = after_token_bounds [OF p [unfolded True[THEN eqTrueI]] c(3)]
    have "parsed l s (parsepipe n l (after_token l s3))"
      by (rule parsed_later [where f = "parsepipe n l", OF assms(2,3)]) (use A c(2) in auto)
    then have "parsed l s (pbind (parsepipe n l (after_token l s3)) (\<lambda>(e, s). Inr (PIPE c e, s)))"
      by (rule parsed_pbind) (use c(1) in \<open>simp add: parsed_def\<close>)
    then show ?thesis using True by (simp add: p)
  next
    case False
    then show ?thesis using P c by (simp add: p parsed_def)
  qed
qed

lemma exec_step:
  assumes "\<And>s. enough 1 l s n \<Longrightarrow> parsed l s (parseblock n l s)" "enough 2 l s (Suc n)"
  shows "parsed l s (parseexec (Suc n) l s)"
proof -
  obtain b s1 where p: "peek l s ''('' = (b, s1)" by (cases "peek l s ''(''")
  have s: "s \<le> length l" using assms(2) by (simp add: enough_def)
  have s1: "s \<le> s1" "s1 \<le> length l" using peek_bounds [OF p] s by simp_all
  have "parsed l s1 (pbind (parseredirs [] l s1) (\<lambda>(rs, s). parseexec_loop [] rs l s))"
  proof (rule parsed_redirs [OF s1(2)])
    fix rs s2 assume a: "s1 \<le> s2" "s2 \<le> length l" "\<forall>r\<in>set rs. redir_ok l r"
    have "parsed l s2 (parseexec_loop [] rs l s2)" by (rule parseexec_loop_wf [OF a(2,3)]) (simp_all add: MAXARGS_def)
    then show "parsed l s1 ((\<lambda>(rs, s). parseexec_loop [] rs l s) (rs, s2))" using parsed_mono a(1) by simp
  qed
  moreover have "enough 1 l s1 n" using assms(2) s1 by (auto simp: enough_def)
  ultimately show ?thesis using parsed_mono [OF _ s1(1)] assms(1) [of s1] by (simp add: p)
qed

lemma block_step:
  assumes "\<And>s. enough 4 l s n \<Longrightarrow> parsed l s (parseline n l s)" "enough 1 l s (Suc n)"
  shows "parsed l s (parseblock (Suc n) l s)"
proof -
  obtain b s1 where p: "peek l s ''('' = (b, s1)" by (cases "peek l s ''(''")
  have s: "s \<le> length l" using assms(2) by (simp add: enough_def)
  show ?thesis
  proof (cases b)
    case True
    note A = after_token_bounds [OF p [unfolded True[THEN eqTrueI]] s]
    have "parsed l s (parseline n l (after_token l s1))"
      by (rule parsed_later [where f = "parseline n l", OF assms(1,2)]) (use A in auto)
    then have "parsed l s (pbind (parseline n l (after_token l s1)) (\<lambda>(c, s).
        let (b, s) = peek l s '')'' in
        if \<not> b then Inl (Panicked ''syntax - missing )'')
        else pbind (parseredirs [] l (after_token l s)) (\<lambda>(rs, s). Inr (redircmds c rs, s))))"
    proof (rule parsed_pbind)
      fix c s2 assume c: "wf_cmd l c" "s \<le> s2" "s2 \<le> length l"
      obtain ok s3 where q: "peek l s2 '')'' = (ok, s3)" by (cases "peek l s2 '')''")
      have "parsed l s (pbind (parseredirs [] l (after_token l s3)) (\<lambda>(rs, s). Inr (redircmds c rs, s)))" if ok
      proof -
        note R = after_token_bounds [OF q [unfolded that[THEN eqTrueI]] c(3)]
        have "parsed l (after_token l s3) (pbind (parseredirs [] l (after_token l s3)) (\<lambda>(rs, s). Inr (redircmds c rs, s)))"
          by (rule parsed_redirs [OF R(2)]) (use c(1) in \<open>auto simp: parsed_def wf_redircmds\<close>)
        then show ?thesis by (rule parsed_mono) (use R(1) c(2) in simp)
      qed
      then show "parsed l s ((\<lambda>(c, s). let (b, s) = peek l s '')'' in
          if \<not> b then Inl (Panicked ''syntax - missing )'')
          else pbind (parseredirs [] l (after_token l s)) (\<lambda>(rs, s). Inr (redircmds c rs, s))) (c, s2))"
        by (cases ok) (simp_all add: q parsed_def)
    qed
    then show ?thesis using True by (simp add: p)
  next
    case False
    then show ?thesis by (simp add: p parsed_def)
  qed
qed

lemma parse_wf:
  "(enough 4 l s n \<longrightarrow> parsed l s (parseline n l s)) \<and> (enough 3 l s n \<longrightarrow> parsed l s (parsepipe n l s)) \<and>
   (enough 2 l s n \<longrightarrow> parsed l s (parseexec n l s)) \<and> (enough 1 l s n \<longrightarrow> parsed l s (parseblock n l s))"
proof (induction n arbitrary: s)
  case 0
  then show ?case by (simp add: enough_def)
next
  case (Suc n)
  then show ?case using line_step [of l n s] pipe_step [of l n s] exec_step [of l n s] block_step [of l n s] by blast
qed

section \<open>The strings of a command\<close>

text \<open>The string a position of the final buffer points to.\<close>

definition cstr :: "string \<Rightarrow> nat \<Rightarrow> string" where
  "cstr b q = takeWhile (\<lambda>c. c \<noteq> NUL) (drop q b)"

fun spans :: "cmd \<Rightarrow> (nat \<times> nat) set" where
  "spans (EXEC argv) = set argv"
| "spans (REDIR c q eq m fd) = insert (q, eq) (spans c)"
| "spans (PIPE c d) = spans c \<union> spans d"
| "spans (LIST c d) = spans c \<union> spans d"
| "spans (BACK c) = spans c"

lemma spans_token: "wf_cmd l c \<Longrightarrow> t \<in> spans c \<Longrightarrow> token l t"
  by (induction c) (auto simp: redir_ok_def)

lemma length_nulterminate [simp]:
  "length (fold (\<lambda>(q, eq) b. b[eq := NUL]) ts b) = length b" "length (nulterminate c b) = length b"
proof -
  show f: "length (fold (\<lambda>(q, eq) b. b[eq := NUL]) ts b) = length b" for ts and b :: string
    by (induction ts arbitrary: b) auto
  show "length (nulterminate c b) = length b" by (induction c arbitrary: b) (simp_all add: f)
qed

lemma nth_nul: "i < length b \<Longrightarrow> b[e := NUL] ! i = (if i = e then NUL else b ! i)"
  by (cases "i = e") simp_all

lemma nth_fold_nul:
  "i < length b \<Longrightarrow> fold (\<lambda>(q, eq) b. b[eq := NUL]) ts b ! i = (if i \<in> snd ` set ts then NUL else b ! i)"
  by (induction ts arbitrary: b) (simp_all add: nth_nul split_beta)

lemma nth_nulterminate: "i < length b \<Longrightarrow> nulterminate c b ! i = (if i \<in> snd ` spans c then NUL else b ! i)"
  by (induction c arbitrary: b) (simp_all add: nth_fold_nul nth_nul image_Un)

text \<open>No token reaches into another: the NULs leave every token whole.\<close>

lemma token_string:
  assumes "wf_cmd l c" "(q, eq) \<in> spans c" "NUL \<notin> set l"
  shows "cstr (nulterminate c (l @ [NUL])) q = take (eq - q) (drop q l)"
proof -
  let ?b = "nulterminate c (l @ [NUL])"
  have t: "q < eq" "eq \<le> length l" "\<And>i. q \<le> i \<Longrightarrow> i < eq \<Longrightarrow> plain (l ! i)"
    using spans_token [OF assms(1,2)] by (auto simp: token_def)
  have keep: "?b ! i = l ! i" if "q \<le> i" "i < eq" for i
  proof -
    have "i \<notin> snd ` spans c"
    proof
      assume "i \<in> snd ` spans c"
      then obtain t' where t': "t' \<in> spans c" "snd t' = i" by auto
      then show False using spans_token [OF assms(1) t'(1)] t(2) t(3) [of i] that by (auto simp: token_def)
    qed
    then show ?thesis using that t(2) by (simp add: nth_nulterminate nth_append)
  qed
  have n: "?b ! eq = NUL" using assms(2) t(2) by (force simp: nth_nulterminate)
  have len: "length ?b = length l + 1" by (simp add: nth_nulterminate)
  have "take (eq - q) (drop q ?b) = take (eq - q) (drop q l)"
    using t(1,2) keep len by (auto intro!: nth_equalityI)
  moreover have "drop eq ?b = NUL # drop (eq + 1) ?b" using Cons_nth_drop_Suc [of eq ?b] t(2) n len by simp
  moreover have "drop q ?b = take (eq - q) (drop q ?b) @ drop eq ?b"
    using append_take_drop_id [of "eq - q" "drop q ?b"] t(1) by simp
  ultimately have split: "drop q ?b = take (eq - q) (drop q l) @ NUL # drop (eq + 1) ?b" by simp
  have "\<forall>c\<in>set (take (eq - q) (drop q l)). c \<noteq> NUL" 
    using assms(3) by (auto dest!: in_set_takeD in_set_dropD)
  then show ?thesis unfolding cstr_def split by (simp add: takeWhile_append2)
qed

text \<open>C39. The shell's parser returns on every line: it panics with a message or gives a command, and the fuel of the model
  is always enough.\<close>

theorem parsecmd_returns: "parsecmd l \<noteq> Inl Out_of_fuel"
proof -
  have "parsed l 0 (parseline (4 * (length l + 1)) l 0)" using parse_wf [of l 0 "4 * (length l + 1)"] by (simp add: enough_def)
  then show ?thesis by (auto simp: parsecmd_def parsed_def pbind_def Let_def split: sum.splits prod.splits if_splits)
qed

text \<open>C40. The shell's parser: a parsed command is well-formed (fewer than \<open>MAXARGS\<close> arguments for every program, every string a
  whole token of the line), and after the NULs are written every string of the command, read as a C string, is its token: no NUL cuts another string.\<close>

theorem parsecmd_strings:
  assumes "parsecmd l = Inr (c, b)" "NUL \<notin> set l"
  shows "wf_cmd l c \<and> length b = length l + 1 \<and> (\<forall>(q, eq)\<in>spans c. cstr b q = take (eq - q) (drop q l))"
proof -
  have p: "parsed l 0 (parseline (4 * (length l + 1)) l 0)" using parse_wf [of l 0 "4 * (length l + 1)"] by (simp add: enough_def)
  obtain s where "parseline (4 * (length l + 1)) l 0 = Inr (c, s)" "b = nulterminate c (l @ [NUL])"
    using assms(1) by (auto simp: parsecmd_def pbind_def Let_def split: sum.splits prod.splits if_splits)
  then have "wf_cmd l c" "b = nulterminate c (l @ [NUL])" using p by (simp_all add: parsed_def)
  then show ?thesis using token_string [OF _ _ assms(2)] by auto
qed

text \<open>Witness: \<open>ls>o\<close>, where the end of one string is the position of an operator.\<close>

lemma demo_line: "parsecmd ''ls>o'' = Inr (REDIR (EXEC [(0, 2)]) 3 4 WRCREATE 1, [CHR ''l'', CHR ''s'', NUL, CHR ''o'', NUL])"
  by code_simp

theorem parsecmd_strings_witness:
  "\<exists>b. parsecmd ''ls>o'' = Inr (REDIR (EXEC [(0, 2)]) 3 4 WRCREATE 1, b) \<and> cstr b 0 = ''ls'' \<and> cstr b 3 = ''o''"
  using parsecmd_strings [OF demo_line] demo_line by (simp add: NUL_def)

end
