(* ===== verification/Xv6_ShProps.thy ===== *)
theory Xv6_ShProps
  imports Xv6_Sh
begin

text \<open>
  The grammar of the shell: commands with their strings, how they are written, and that the parser
  of \<open>sh.c\<close> reads back what was written.
\<close>

section \<open>Commands with their strings\<close>

datatype acmd = AExec "string list" | ARedir acmd bool string | APipe acmd acmd | AList acmd acmd | ABack acmd

definition span :: "string \<Rightarrow> nat \<times> nat \<Rightarrow> string" where
  "span l t = take (snd t - fst t) (drop (fst t) l)"

fun acmd_of :: "string \<Rightarrow> cmd \<Rightarrow> acmd" where
  "acmd_of l (EXEC argv) = AExec (map (span l) argv)"
| "acmd_of l (REDIR c q eq m fd) = ARedir (acmd_of l c) (m = WRCREATE \<and> fd = 1) (span l (q, eq))"
| "acmd_of l (PIPE c d) = APipe (acmd_of l c) (acmd_of l d)"
| "acmd_of l (LIST c d) = AList (acmd_of l c) (acmd_of l d)"
| "acmd_of l (BACK c) = ABack (acmd_of l c)"

text \<open>Writing a command. The first argument is the loosest operator that needs no parentheses: 0 for none, 1
  for \<open>|\<close>, 2 for \<open>&\<close>, 3 for \<open>;\<close>.\<close>

definition paren :: "bool \<Rightarrow> string \<Rightarrow> string" where
  "paren b x = (if b then ''('' @ x @ '')'' else x)"

definition word_text :: "string \<Rightarrow> string" where
  "word_text w = '' '' @ w"

definition redir_text :: "bool \<Rightarrow> string \<Rightarrow> string" where
  "redir_text out f = CHR '' '' # (if out then CHR ''>'' else CHR ''<'') # CHR '' '' # f"

fun show_cmd :: "nat \<Rightarrow> acmd \<Rightarrow> string" where
  "show_cmd p (AExec args) = concat (map word_text args)"
| "show_cmd p (ARedir c out f) = show_cmd 0 c @ redir_text out f"
| "show_cmd p (APipe c d) = paren (p < 1) (show_cmd 0 c @ ''|'' @ show_cmd 1 d)"
| "show_cmd p (ABack c) = paren (p < 2) (show_cmd 2 c @ ''&'')"
| "show_cmd p (AList c d) = paren (p < 3) (show_cmd 2 c @ '';'' @ show_cmd 3 d)"

definition is_word :: "string \<Rightarrow> bool" where
  "is_word w \<longleftrightarrow> w \<noteq> [] \<and> (\<forall>c\<in>set w. plain c \<and> c \<noteq> NUL)"

fun writable :: "acmd \<Rightarrow> bool" where
  "writable (AExec args) \<longleftrightarrow> length args < MAXARGS \<and> (\<forall>w\<in>set args. is_word w)"
| "writable (ARedir c out f) \<longleftrightarrow> writable c \<and> is_word f"
| "writable (APipe c d) \<longleftrightarrow> writable c \<and> writable d"
| "writable (AList c d) \<longleftrightarrow> writable c \<and> writable d"
| "writable (ABack c) \<longleftrightarrow> writable c"

section \<open>The rest of the line\<close>

definition rest :: "string \<Rightarrow> nat \<Rightarrow> string \<Rightarrow> bool" where
  "rest l s xs \<longleftrightarrow> s \<le> length l \<and> drop s l = xs"

abbreviation W :: "string \<Rightarrow> string" where
  "W \<equiv> dropWhile (strchr whitespace)"

lemma rest_length: "rest l s xs \<Longrightarrow> length l = s + length xs"
  by (auto simp: rest_def)

lemma rest_append: "rest l s (xs @ ys) \<Longrightarrow> rest l (s + length xs) ys \<and> span l (s, s + length xs) = xs"
proof -
  assume r: "rest l s (xs @ ys)"
  have d: "drop s l = xs @ ys" using r by (simp add: rest_def)
  have "drop (length xs + s) l = drop (length xs) (drop s l)" by (simp only: drop_drop)
  also have "\<dots> = ys" unfolding d by simp
  finally show ?thesis using rest_length [OF r] d by (simp add: rest_def span_def add.commute)
qed

lemma rest_Cons: "rest l s (x # xs) \<Longrightarrow> rest l (s + 1) xs"
  using rest_append [of l s "[x]" xs] by simp

lemma chr_at_rest: "rest l s xs \<Longrightarrow> chr_at l s = (case xs of [] \<Rightarrow> NUL | x # _ \<Rightarrow> x)"
  by (auto simp: rest_def chr_at_def hd_drop_conv_nth [symmetric] split: list.splits)

lemma skip_rest: "rest l s xs \<Longrightarrow> skip P l s = s + length (takeWhile P xs)"
proof (induction xs arbitrary: s)
  case Nil
  then show ?case using rest_length [of l s "[]"] by (subst skip.simps) simp
next
  case (Cons x xs)
  then show ?case using rest_length [of l s "x # xs"] chr_at_rest [of l s "x # xs"] Cons.IH [OF rest_Cons]
    by (subst skip.simps) simp
qed

lemma skip_ws: "rest l s xs \<Longrightarrow> rest l (skip (strchr whitespace) l s) (W xs)"
  using rest_append [of l s "takeWhile (strchr whitespace) xs" "W xs"] skip_rest [of l s xs] by simp

text \<open>The character \<open>peek\<close> looks at.\<close>

definition starts :: "string \<Rightarrow> string \<Rightarrow> bool" where
  "starts toks xs = (case W xs of [] \<Rightarrow> False | c # _ \<Rightarrow> c \<noteq> NUL \<and> strchr toks c)"

lemma peek_rest:
  assumes "rest l s xs"
  obtains s' where "peek l s toks = (starts toks xs, s')" "rest l s' (W xs)"
proof -
  note r = skip_ws [OF assms]
  show ?thesis
    by (rule that [OF _ r]) (use chr_at_rest [OF r] in 
      \<open>cases "W xs"; simp add: peek_def Let_def starts_def del: dropWhile_eq_Nil_conv\<close>)
qed

lemma W_idem [simp]: "W (W xs) = W xs"
  by (induction xs) auto

lemma token_symbol:
  assumes "rest l s xs" "W xs = c # ys" "strchr ''|();&<'' c"
  shows "\<exists>q e s'. gettoken l s = (c, q, e, s') \<and> rest l s' (W ys)"
proof -
  note r = skip_ws [OF assms(1), unfolded assms(2)]
  note r1 = rest_Cons [OF r]
  have "gettoken l s = (c, skip (strchr whitespace) l s, skip (strchr whitespace) l s + 1, skip (strchr whitespace) l (skip (strchr whitespace) l s + 1))"
    using chr_at_rest [OF r] assms(3) by (auto simp: gettoken_def Let_def NUL_def)
  then show ?thesis using skip_ws [OF r1] by blast
qed

lemma token_gt:
  assumes "rest l s xs" "W xs = CHR ''>'' # ys" "ys = [] \<or> hd ys \<noteq> CHR ''>''"
  shows "\<exists>q e s'. gettoken l s = (CHR ''>'', q, e, s') \<and> rest l s' (W ys)"
proof -
  note r = skip_ws [OF assms(1), unfolded assms(2)]
  note r1 = rest_Cons [OF r]
  have "chr_at l (skip (strchr whitespace) l s + 1) \<noteq> CHR ''>''"
    using chr_at_rest [OF r1] assms(3) by (auto simp: NUL_def split: list.splits)
  then have "gettoken l s = (CHR ''>'', skip (strchr whitespace) l s, skip (strchr whitespace) l s + 1, skip (strchr whitespace) l (skip (strchr whitespace) l s + 1))"
    using chr_at_rest [OF r] by (auto simp: gettoken_def Let_def NUL_def)
  then show ?thesis using skip_ws [OF r1] by blast
qed

lemma plain_not: "plain c \<Longrightarrow> c \<notin> {CHR ''|'', CHR ''('', CHR '')'', CHR '';'', CHR ''&'', CHR ''<'', CHR ''>''} \<and> \<not> strchr whitespace c"
  by (auto simp: plain_def symbols_def)

lemma token_word:
  assumes "rest l s xs" "W xs = w @ ys" "is_word w" "ys = [] \<or> \<not> plain (hd ys)"
  shows "\<exists>q e s'. gettoken l s = (CHR ''a'', q, e, s') \<and> span l (q, e) = w \<and> rest l s' (W ys)"
proof -
  let ?q = "skip (strchr whitespace) l s"
  note r = skip_ws [OF assms(1), unfolded assms(2)]
  note r1 = rest_append [OF r]
  obtain c w' where w: "w = c # w'" using assms(3) by (cases w) (auto simp: is_word_def)
  then have c: "plain c" "c \<noteq> NUL" using assms(3) by (auto simp: is_word_def)
  have "takeWhile plain (w @ ys) = w"
    using assms(3,4) by (cases ys) (auto simp: is_word_def takeWhile_append2)
  then have e: "skip plain l ?q = ?q + length w" using skip_rest [OF r, of plain] by simp
  have "(\<lambda>c. \<not> strchr whitespace c \<and> \<not> strchr symbols c) = plain" by (simp add: plain_def fun_eq_iff)
  then have "gettoken l s = (CHR ''a'', ?q, ?q + length w, skip (strchr whitespace) l (?q + length w))"
    using chr_at_rest [OF r] c plain_not [OF c(1)] e w by (auto simp: gettoken_def Let_def)
  then show ?thesis using r1 skip_ws by blast
qed

section \<open>Redirections\<close>

definition redirs_text :: "(bool \<times> string) list \<Rightarrow> string" where
  "redirs_text rs = concat (map (\<lambda>(out, f). redir_text out f) rs)"

definition redir_of :: "string \<Rightarrow> nat \<times> nat \<times> int \<times> int \<Rightarrow> bool \<times> string" where
  "redir_of l r = (case r of (q, e, m, fd) \<Rightarrow> (m = WRCREATE \<and> fd = 1, span l (q, e)))"

text \<open>The end of a word.\<close>

definition ends :: "string \<Rightarrow> bool" where
  "ends ys \<longleftrightarrow> ys = [] \<or> \<not> plain (hd ys)"

lemma space_ws [simp]: "strchr whitespace CHR '' ''" "\<not> strchr whitespace CHR ''<''" "\<not> strchr whitespace CHR ''>''"
  "\<not> strchr whitespace CHR ''|''" "\<not> strchr whitespace CHR ''&''" "\<not> strchr whitespace CHR '';''"
  "\<not> strchr whitespace CHR ''(''" "\<not> strchr whitespace CHR '')''"
  by (simp_all add: whitespace_def)

lemma W_word: "is_word w \<Longrightarrow> W (w @ ys) = w @ ys"
  using plain_not by (cases w) (auto simp: is_word_def)

lemma ends_text: "ends ys \<Longrightarrow> ends (redirs_text rs @ ys)" "ends ys \<Longrightarrow> ends (concat (map word_text args) @ ys)"
  by (cases rs; auto simp: ends_def redirs_text_def redir_text_def plain_def)
    (cases args; auto simp: ends_def word_text_def plain_def)

lemma parseredirs_reads:
  assumes "rest l s xs" "W xs = W (redirs_text rs @ ys)" "\<forall>(out, f)\<in>set rs. is_word f" "\<not> starts ''<>'' ys" "ends ys"
  shows "\<exists>rs' s'. parseredirs acc l s = Inr (acc @ rs', s') \<and> map (redir_of l) rs' = rs \<and> rest l s' (W ys)"
  using assms
proof (induction rs arbitrary: acc s xs)
  case Nil
  have W: "W xs = W ys" using Nil.prems(2) by (simp add: redirs_text_def)
  then have "\<not> starts ''<>'' xs" using Nil.prems(4) by (simp add: starts_def)
  then obtain s' where "peek l s ''<>'' = (False, s')" "rest l s' (W xs)" using peek_rest [OF Nil.prems(1), of "''<>''"] by metis
  then show ?case using W by (subst parseredirs.simps) auto
next
  case (Cons r rs)
  obtain out f where r: "r = (out, f)" by (cases r)
  have f: "is_word f" using Cons.prems(3) r by simp
  let ?R = "redirs_text rs @ ys" and ?c = "if out then CHR ''>'' else CHR ''<''"
  have W: "W xs = ?c # CHR '' '' # f @ ?R" using Cons.prems(2) r by (simp add: redirs_text_def redir_text_def)
  have "starts ''<>'' xs" unfolding starts_def W by (simp add: NUL_def)
  then obtain s1 where p: "peek l s ''<>'' = (True, s1)" "rest l s1 (W xs)" using peek_rest [OF Cons.prems(1), of "''<>''"] by metis
  have "\<exists>q e s2. gettoken l s1 = (?c, q, e, s2) \<and> rest l s2 (W (CHR '' '' # f @ ?R))"
    using token_symbol [OF p(2), of "CHR ''<''"] token_gt [OF p(2)] W by (cases out) auto
  then obtain x y s2 where g: "gettoken l s1 = (?c, x, y, s2)" "rest l s2 (f @ ?R)" using W_word [OF f] by auto
  have "ends ?R" by (rule ends_text(1) [OF Cons.prems(5)])
  then obtain q e s3 where h: "gettoken l s2 = (CHR ''a'', q, e, s3)" "span l (q, e) = f" "rest l s3 (W ?R)"
    using token_word [OF g(2) W_word [OF f] f] by (auto simp: ends_def)
  let ?r = "if ?c = CHR ''<'' then (q, e, RDONLY, 0) else (q, e, WRCREATE, 1)"
  obtain rs' s' where i: "parseredirs (acc @ [?r]) l s3 = Inr ((acc @ [?r]) @ rs', s')" "map (redir_of l) rs' = rs" "rest l s' (W ys)"
    using Cons.IH [OF h(3), of "acc @ [?r]"] Cons.prems(3-5) by auto
  have "parseredirs acc l s = parseredirs (acc @ [?r]) l s3" using p(1) g(1) h(1) by (subst parseredirs.simps) simp
  moreover have "redir_of l ?r = (out, f)" using h(2) by (cases out) (simp_all add: redir_of_def RDONLY_def WRCREATE_def)
  ultimately show ?case using i r by (intro exI [of _ "?r # rs'"] exI [of _ s']) simp
qed

section \<open>Programs\<close>

abbreviation words_text :: "string list \<Rightarrow> string" where
  "words_text args \<equiv> concat (map word_text args)"

definition follow :: "string \<Rightarrow> string \<Rightarrow> bool" where
  "follow toks ys \<longleftrightarrow> ys = [] \<or> hd ys \<in> set toks"

lemma followD:
  assumes "follow ''|&;)'' ys"
  shows "W ys = ys" "ends ys" "\<not> starts ''<>'' ys" "\<not> starts ''('' ys" "ys \<noteq> [] \<Longrightarrow> starts ''|)&;'' ys"
  using assms by (cases ys; auto simp: follow_def ends_def plain_def starts_def symbols_def NUL_def)+

lemma token_end:
  assumes "rest l s xs" "W xs = []"
  shows "\<exists>q e s'. gettoken l s = (NUL, q, e, s') \<and> rest l s' []"
proof -
  have r: "rest l (skip (strchr whitespace) l s) []" using skip_ws [OF assms(1)] unfolding assms(2) .
  then have "chr_at l (skip (strchr whitespace) l s) = NUL" using chr_at_rest [OF r] by simp
  then have "gettoken l s = (NUL, skip (strchr whitespace) l s, skip (strchr whitespace) l s, skip (strchr whitespace) l s)"
    by (simp add: gettoken_def Let_def)
  then show ?thesis using r by blast
qed

lemma word_start: "is_word w \<Longrightarrow> \<not> starts ''|)&;'' (w @ ys)" "is_word w \<Longrightarrow> \<not> starts ''<>'' (w @ ys)"
  "is_word w \<Longrightarrow> \<not> starts ''('' (w @ ys)"
  using W_word [of w ys] plain_not by (cases w; auto simp: starts_def is_word_def)+

lemma starts_W: "W xs = W ys \<Longrightarrow> starts t xs = starts t ys"
  by (simp add: starts_def)

lemma exec_reads:
  assumes "rest l s xs" "W xs = W (words_text args @ redirs_text rs @ ys)" "\<forall>w\<in>set args. is_word w" "\<forall>(out, f)\<in>set rs. is_word f"
    "args = [] \<longrightarrow> rs = []" "length argv + length args < MAXARGS" "follow ''|&;)'' ys"
  shows "\<exists>argv' rs' s'. parseexec_loop argv rs0 l s = Inr (redircmds (EXEC (argv @ argv')) (rs0 @ rs'), s')
    \<and> map (span l) argv' = args \<and> map (redir_of l) rs' = rs \<and> rest l s' ys"
  using assms
proof (induction args arbitrary: argv rs0 s xs rs)
  case Nil
  note F = followD [OF Nil.prems(7)]
  have W: "W xs = ys" "rs = []" using Nil.prems(2,5) F(1) by (simp_all add: redirs_text_def)
  obtain s1 where p: "peek l s ''|)&;'' = (starts ''|)&;'' xs, s1)" "rest l s1 (W xs)" by (rule peek_rest [OF Nil.prems(1)])
  show ?case
  proof (cases "ys = []")
    case True
    then obtain q e s2 where g: "gettoken l s1 = (NUL, q, e, s2)" "rest l s2 []" using token_end [OF p(2)] W by auto
    have "\<not> starts ''|)&;'' xs" using True W by (simp add: starts_def del: dropWhile_eq_Nil_conv)
    then show ?thesis using p g True W by (subst parseexec_loop.simps) (auto simp: redircmds_def)
  next
    case False
    then have "starts ''|)&;'' xs" using F(5) starts_W [of xs ys] W F(1) by simp
    then show ?thesis using p W by (subst parseexec_loop.simps) auto
  qed
next
  case (Cons w args)
  note F = followD [OF Cons.prems(7)]
  have w: "is_word w" using Cons.prems(3) by simp
  let ?R = "words_text args @ redirs_text rs @ ys"
  have W: "W xs = w @ ?R" using Cons.prems(2) W_word [OF w] by (simp add: word_text_def [of w])
  have ns: "\<not> starts ''|)&;'' xs" using word_start(1) [OF w, of ?R] starts_W [of xs "w @ ?R"] W W_word [OF w] by simp
  obtain s1 where p: "peek l s ''|)&;'' = (False, s1)" "rest l s1 (w @ ?R)"
    using peek_rest [OF Cons.prems(1), of "''|)&;''"] ns W by metis
  have "ends ?R" using ends_text(2) [OF ends_text(1) [OF F(2)]] by simp
  then obtain q e s2 where g: "gettoken l s1 = (CHR ''a'', q, e, s2)" "span l (q, e) = w" "rest l s2 (W ?R)"
    using token_word [OF p(2) W_word [OF w] w] by (auto simp: ends_def)
  have "\<exists>rs1 rs2 s3. parseredirs rs0 l s2 = Inr (rs0 @ rs1, s3) \<and> rs = map (redir_of l) rs1 @ rs2 \<and> (args = [] \<longrightarrow> rs2 = [])
      \<and> rest l s3 (W (words_text args @ redirs_text rs2 @ ys))"
  proof (cases args)
    case Nil
    then show ?thesis
      using parseredirs_reads [OF g(3), of rs ys rs0] Cons.prems(4) F(2,3) by (fastforce simp: redirs_text_def)
  next
    case (Cons v vs)
    then have v: "is_word v" using Cons.prems(3) by simp
    have "\<not> starts ''<>'' ?R" using word_start(2) [OF v, of "words_text vs @ redirs_text rs @ ys"] Cons by (simp add: starts_def word_text_def [of v])
    then show ?thesis
      using parseredirs_reads [OF g(3), of "[]" ?R rs0] \<open>ends ?R\<close> Cons by (auto simp: redirs_text_def)
  qed
  then obtain rs1 rs2 s3 where r: "parseredirs rs0 l s2 = Inr (rs0 @ rs1, s3)" "rs = map (redir_of l) rs1 @ rs2" "args = [] \<longrightarrow> rs2 = []"
    "rest l s3 (W (words_text args @ redirs_text rs2 @ ys))" by blast
  obtain argv' rs' s' where i: "parseexec_loop (argv @ [(q, e)]) (rs0 @ rs1) l s3 = Inr (redircmds (EXEC ((argv @ [(q, e)]) @ argv')) ((rs0 @ rs1) @ rs'), s')"
    "map (span l) argv' = args" "map (redir_of l) rs' = rs2" "rest l s' ys"
    using Cons.IH [OF r(4), of rs2 "argv @ [(q, e)]" "rs0 @ rs1"] Cons.prems(3-7) r(2,3) by auto
  have "parseexec_loop argv rs0 l s = parseexec_loop (argv @ [(q, e)]) (rs0 @ rs1) l s3"
    using p(1) g(1) r(1) Cons.prems(6) by (subst parseexec_loop.simps) (simp add: NUL_def)
  then show ?case using i g(2) r(2) by (intro exI [of _ "(q, e) # argv'"] exI [of _ "rs1 @ rs'"] exI [of _ s']) simp
qed

section \<open>Commands are read back\<close>

text \<open>A parser reads the command \<open>c\<close>, written at level \<open>p\<close>, when one of the given characters or the end follows.\<close>

definition reads :: "(nat \<Rightarrow> string \<Rightarrow> nat \<Rightarrow> (cmd \<times> nat) pres) \<Rightarrow> nat \<Rightarrow> nat \<Rightarrow> string \<Rightarrow> acmd \<Rightarrow> bool" where
  "reads f k p toks c \<longleftrightarrow> (\<forall>l n s xs ys. rest l s xs \<longrightarrow> W xs = W (show_cmd p c @ ys) \<longrightarrow> follow toks ys \<longrightarrow> 4 * length xs + k \<le> n
     \<longrightarrow> (\<exists>d s'. f n l s = Inr (d, s') \<and> acmd_of l d = c \<and> rest l s' ys))"

text \<open>The same for \<open>parsepipe\<close> with the background operators behind it, of which more may follow.\<close>

definition reads_back :: "acmd \<Rightarrow> bool" where
  "reads_back c \<longleftrightarrow> (\<forall>l n s xs ys. rest l s xs \<longrightarrow> W xs = W (show_cmd 2 c @ ys) \<longrightarrow> follow ''&;)'' ys \<longrightarrow> 4 * length xs + 3 \<le> n
     \<longrightarrow> (\<exists>d s' d1 s1. parsepipe n l s = Inr (d1, s1) \<and> back_loop d1 l s1 = back_loop d l s' \<and> acmd_of l d = c \<and> rest l s' ys))"

abbreviation read0 :: "acmd \<Rightarrow> bool" where "read0 \<equiv> reads parseexec 2 0 ''|&;)''"
abbreviation read1 :: "acmd \<Rightarrow> bool" where "read1 \<equiv> reads parsepipe 3 1 ''&;)''"
abbreviation read3 :: "acmd \<Rightarrow> bool" where "read3 \<equiv> reads parseline 4 3 '')''"

lemma readsD:
  assumes "reads f k p toks c" "rest l s xs" "W xs = W (show_cmd p c @ ys)" "follow toks ys" "4 * length xs + k \<le> n"
  obtains d s' where "f n l s = Inr (d, s')" "acmd_of l d = c" "rest l s' ys"
  using assms unfolding reads_def by blast

lemma reads_backD:
  assumes "reads_back c" "rest l s xs" "W xs = W (show_cmd 2 c @ ys)" "follow ''&;)'' ys" "4 * length xs + 3 \<le> n"
  obtains d s' d1 s1 where "parsepipe n l s = Inr (d1, s1)" "back_loop d1 l s1 = back_loop d l s'" "acmd_of l d = c" "rest l s' ys"
  using assms unfolding reads_back_def by blast

lemma W_length: "length (W xs) \<le> length xs"
  by (simp add: length_dropWhile_le)

lemma shorter:
  assumes "W xs = W (u @ c # v)" "\<not> strchr whitespace c"
  shows "length (W v) < length xs"
proof -
  have "length v < length (W (u @ c # v))" using assms(2) by (induction u) auto
  also have "\<dots> \<le> length xs" using W_length [of xs] assms(1) by simp
  finally show ?thesis using W_length [of v] by simp
qed

text \<open>A symbol is seen and consumed.\<close>

lemma symbol_reads:
  assumes "rest l s xs" "W xs = c # ys" "strchr ''|();&<'' c"
  obtains s' where "peek l s [c] = (True, s')" "rest l (after_token l s') (W ys)"
proof -
  have "c \<noteq> NUL" using assms(3) by (auto simp: NUL_def)
  then have "starts [c] xs" unfolding starts_def assms(2) by simp
  then obtain s' where p: "peek l s [c] = (True, s')" "rest l s' (W xs)" using peek_rest [OF assms(1), of "[c]"] by metis
  then show ?thesis using that token_symbol [OF p(2), of c ys] assms(2,3) by (auto simp: after_token_def)
qed

lemma symbol_absent:
  assumes "rest l s ys" "follow toks ys" "c \<notin> set toks" "\<forall>d\<in>set toks. \<not> strchr whitespace d"
  obtains s' where "peek l s [c] = (False, s')" "rest l s' ys"
proof -
  have W: "W ys = ys" using assms(2,4) by (cases ys) (auto simp: follow_def)
  then have "\<not> starts [c] ys" using assms(2,3) by (cases ys) (auto simp: starts_def follow_def)
  then show ?thesis using that peek_rest [OF assms(1), of "[c]"] W by metis
qed

lemma read1_exec:
  assumes "read0 c" "show_cmd 1 c = show_cmd 0 c"
  shows "read1 c"
  unfolding reads_def
proof (intro allI impI)
  fix l n s xs ys
  assume a: "rest l s xs" "W xs = W (show_cmd 1 c @ ys)" "follow ''&;)'' ys" "4 * length xs + 3 \<le> n"
  then obtain m where n: "n = Suc m" by (cases n) auto
  have f: "follow ''|&;)'' ys" using a(3) by (auto simp: follow_def)
  obtain d s1 where d: "parseexec m l s = Inr (d, s1)" "acmd_of l d = c" "rest l s1 ys"
    by (rule readsD [where n = m, OF assms(1) a(1) _ f]) (use a n assms(2) in auto)
  obtain s' where "peek l s1 ''|'' = (False, s')" "rest l s' ys" by (rule symbol_absent [OF d(3) a(3), of "CHR ''|''"]) auto
  then show "\<exists>d s'. parsepipe n l s = Inr (d, s') \<and> acmd_of l d = c \<and> rest l s' ys"
    using d by (auto simp: n pbind_def)
qed

lemma read1_pipe:
  assumes "read0 a" "read1 b"
  shows "read1 (APipe a b)"
  unfolding reads_def
proof (intro allI impI)
  fix l n s xs ys
  assume h: "rest l s xs" "W xs = W (show_cmd 1 (APipe a b) @ ys)" "follow ''&;)'' ys" "4 * length xs + 3 \<le> n"
  then obtain m where n: "n = Suc m" by (cases n) auto
  let ?zs = "CHR ''|'' # show_cmd 1 b @ ys"
  obtain d s1 where d: "parseexec m l s = Inr (d, s1)" "acmd_of l d = a" "rest l s1 ?zs"
    by (rule readsD [where n = m, OF assms(1) h(1), of ?zs]) (use h n in \<open>auto simp: follow_def paren_def\<close>)
  obtain s2 where p: "peek l s1 ''|'' = (True, s2)" "rest l (after_token l s2) (W (show_cmd 1 b @ ys))"
    by (rule symbol_reads [OF d(3), of "CHR ''|''"]) auto
  have len: "length (W (show_cmd 1 b @ ys)) < length xs"
    by (rule shorter [of xs "show_cmd 0 a" "CHR ''|''"]) (use h(2) in \<open>simp_all add: paren_def\<close>)
  obtain e s3 where e: "parsepipe m l (after_token l s2) = Inr (e, s3)" "acmd_of l e = b" "rest l s3 ys"
    by (rule readsD [where n = m, OF assms(2) p(2) _ h(3)]) (use h(4) n len in auto)
  show "\<exists>d s'. parsepipe n l s = Inr (d, s') \<and> acmd_of l d = APipe a b \<and> rest l s' ys"
    using d p e by (auto simp: n pbind_def)
qed

lemma back_loop_next:
  assumes "rest l s (CHR ''&'' # ys)"
  obtains s' where "back_loop d l s = back_loop (BACK d) l s'" "rest l s' (W ys)"
proof -
  obtain s1 where p: "peek l s ''&'' = (True, s1)" "rest l (after_token l s1) (W ys)"
    by (rule symbol_reads [OF assms, of "CHR ''&''"]) auto
  have "back_loop d l s = back_loop (BACK d) l (after_token l s1)"
    using p(1) by (subst back_loop.simps) (simp add: after_token_def split_beta)
  then show ?thesis using that p(2) by blast
qed

lemma back_loop_stop:
  assumes "rest l s ys" "follow '';)'' ys"
  obtains s' where "back_loop d l s = (d, s')" "rest l s' ys"
proof -
  obtain s' where "peek l s ''&'' = (False, s')" "rest l s' ys" by (rule symbol_absent [OF assms, of "CHR ''&''"]) auto
  then show ?thesis using that by (subst (asm) back_loop.simps) simp
qed

lemma read2_pipe: "read1 c \<Longrightarrow> show_cmd 2 c = show_cmd 1 c \<Longrightarrow> reads_back c"
  unfolding reads_def reads_back_def by metis

lemma read2_back:
  assumes "reads_back a"
  shows "reads_back (ABack a)"
  unfolding reads_back_def
proof (intro allI impI)
  fix l n s xs ys
  assume h: "rest l s xs" "W xs = W (show_cmd 2 (ABack a) @ ys)" "follow ''&;)'' ys" "4 * length xs + 3 \<le> n"
  obtain d s' d1 s1 where d: "parsepipe n l s = Inr (d1, s1)" "back_loop d1 l s1 = back_loop d l s'" "acmd_of l d = a" "rest l s' (CHR ''&'' # ys)"
    by (rule reads_backD [where n = n, OF assms h(1), of "CHR ''&'' # ys"]) (use h in \<open>auto simp: follow_def paren_def\<close>)
  obtain s2 where b: "back_loop d l s' = back_loop (BACK d) l s2" "rest l s2 (W ys)" by (rule back_loop_next [OF d(4)])
  have "W ys = ys" using h(3) by (cases ys) (auto simp: follow_def)
  then show "\<exists>d s' d1 s1. parsepipe n l s = Inr (d1, s1) \<and> back_loop d1 l s1 = back_loop d l s' \<and> acmd_of l d = ABack a \<and> rest l s' ys"
    using d b by (intro exI [of _ "BACK d"] exI [of _ s2] exI [of _ d1] exI [of _ s1]) simp
qed

lemma read3_back:
  assumes "reads_back c" "show_cmd 3 c = show_cmd 2 c"
  shows "read3 c"
  unfolding reads_def
proof (intro allI impI)
  fix l n s xs ys
  assume h: "rest l s xs" "W xs = W (show_cmd 3 c @ ys)" "follow '')'' ys" "4 * length xs + 4 \<le> n"
  then obtain m where n: "n = Suc m" by (cases n) auto
  have f: "follow ''&;)'' ys" "follow '';)'' ys" using h(3) by (auto simp: follow_def)
  obtain d s' d1 s1 where d: "parsepipe m l s = Inr (d1, s1)" "back_loop d1 l s1 = back_loop d l s'" "acmd_of l d = c" "rest l s' ys"
    by (rule reads_backD [where n = m, OF assms(1) h(1) _ f(1)]) (use h n assms(2) in auto)
  obtain s2 where b: "back_loop d l s' = (d, s2)" "rest l s2 ys" by (rule back_loop_stop [OF d(4) f(2)])
  obtain s3 where p: "peek l s2 '';'' = (False, s3)" "rest l s3 ys" by (rule symbol_absent [OF b(2) h(3), of "CHR '';''"]) auto
  show "\<exists>d s'. parseline n l s = Inr (d, s') \<and> acmd_of l d = c \<and> rest l s' ys"
    using d b p by (auto simp: n pbind_def)
qed

lemma read3_list:
  assumes "reads_back a" "read3 b"
  shows "read3 (AList a b)"
  unfolding reads_def
proof (intro allI impI)
  fix l n s xs ys
  assume h: "rest l s xs" "W xs = W (show_cmd 3 (AList a b) @ ys)" "follow '')'' ys" "4 * length xs + 4 \<le> n"
  then obtain m where n: "n = Suc m" by (cases n) auto
  let ?zs = "CHR '';'' # show_cmd 3 b @ ys"
  have f: "follow ''&;)'' ?zs" "follow '';)'' ?zs" by (simp_all add: follow_def)
  obtain d s' d1 s1 where d: "parsepipe m l s = Inr (d1, s1)" "back_loop d1 l s1 = back_loop d l s'" "acmd_of l d = a" "rest l s' ?zs"
    by (rule reads_backD [where n = m, OF assms(1) h(1) _ f(1)]) (use h n in \<open>auto simp: paren_def\<close>)
  obtain s2 where b: "back_loop d l s' = (d, s2)" "rest l s2 ?zs" by (rule back_loop_stop [OF d(4) f(2)])
  obtain s3 where p: "peek l s2 '';'' = (True, s3)" "rest l (after_token l s3) (W (show_cmd 3 b @ ys))"
    by (rule symbol_reads [OF b(2), of "CHR '';''"]) auto
  have len: "length (W (show_cmd 3 b @ ys)) < length xs"
    by (rule shorter [of xs "show_cmd 2 a" "CHR '';''"]) (use h(2) in \<open>simp_all add: paren_def\<close>)
  obtain e s4 where e: "parseline m l (after_token l s3) = Inr (e, s4)" "acmd_of l e = b" "rest l s4 ys"
    by (rule readsD [where n = m, OF assms(2) p(2) _ h(3)]) (use h(4) n len in auto)
  show "\<exists>d s'. parseline n l s = Inr (d, s') \<and> acmd_of l d = AList a b \<and> rest l s' ys"
    using d b p e by (auto simp: n pbind_def)
qed

definition redir_wrap :: "acmd \<Rightarrow> (bool \<times> string) list \<Rightarrow> acmd" where
  "redir_wrap c rs = foldl (\<lambda>c (out, f). ARedir c out f) c rs"

lemma show_wrap: "show_cmd 0 (redir_wrap c rs) = show_cmd 0 c @ redirs_text rs"
  by (induction rs arbitrary: c) (auto simp: redir_wrap_def redirs_text_def)

lemma acmd_of_redircmds: "acmd_of l (redircmds d rs) = redir_wrap (acmd_of l d) (map (redir_of l) rs)"
  by (induction rs arbitrary: d) (auto simp: redir_wrap_def redircmds_def redir_of_def)

lemma text_start:
  assumes "\<forall>w\<in>set args. is_word w" "follow ''|&;)'' ys"
  shows "\<not> starts ''('' (words_text args @ redirs_text rs @ ys)" "args \<noteq> [] \<Longrightarrow> \<not> starts ''<>'' (words_text args @ redirs_text rs @ ys)"
proof -
  have w: "\<not> starts t (words_text (v # vs) @ zs)" if "is_word v" "t \<in> {''('', ''<>''}" for t v vs zs
    using word_start(2,3) [OF that(1), of "words_text vs @ zs"] that(2) by (auto simp: starts_def word_text_def [of v])
  show "args \<noteq> [] \<Longrightarrow> \<not> starts ''<>'' (words_text args @ redirs_text rs @ ys)" using w assms(1) by (cases args) auto
  show "\<not> starts ''('' (words_text args @ redirs_text rs @ ys)"
  proof (cases args)
    case Nil
    then show ?thesis using followD(4) [OF assms(2)]
      by (cases rs) (auto simp: redirs_text_def starts_def redir_text_def split: if_splits)
  qed (use w assms(1) in auto)
qed

lemma read0_exec:
  assumes "\<forall>w\<in>set args. is_word w" "\<forall>(out, f)\<in>set rs. is_word f" "length args < MAXARGS"
  shows "read0 (redir_wrap (AExec args) rs)"
  unfolding reads_def
proof (intro allI impI)
  fix l n s xs ys
  assume h: "rest l s xs" "W xs = W (show_cmd 0 (redir_wrap (AExec args) rs) @ ys)" "follow ''|&;)'' ys" "4 * length xs + 2 \<le> n"
  then obtain m where n: "n = Suc m" by (cases n) auto
  note F = followD [OF h(3)]
  let ?R = "words_text args @ redirs_text rs @ ys"
  have W: "W xs = W ?R" using h(2) by (simp add: show_wrap)
  have "\<not> starts ''('' xs" using text_start(1) [OF assms(1) h(3), of rs] starts_W [OF W] by simp
  then obtain s1 where p: "peek l s ''('' = (False, s1)" "rest l s1 (W xs)" using peek_rest [OF h(1), of "''(''"] by metis
  have "\<exists>rs1 rs2 s2. parseredirs [] l s1 = Inr (rs1, s2) \<and> rs = map (redir_of l) rs1 @ rs2 \<and> (args = [] \<longrightarrow> rs2 = [])
      \<and> rest l s2 (W (words_text args @ redirs_text rs2 @ ys))"
  proof (cases "args = []")
    case True
    then show ?thesis
      using parseredirs_reads [OF p(2), of rs ys "[]"] W assms(2) F(2,3) by (fastforce simp: redirs_text_def)
  next
    case False
    have "ends ?R" using ends_text(2) [OF ends_text(1) [OF F(2)]] by simp
    then show ?thesis
      using parseredirs_reads [OF p(2), of "[]" ?R "[]"] text_start(2) [OF assms(1) h(3) False] W False by (auto simp: redirs_text_def)
  qed
  then obtain rs1 rs2 s2 where r: "parseredirs [] l s1 = Inr (rs1, s2)" "rs = map (redir_of l) rs1 @ rs2" "args = [] \<longrightarrow> rs2 = []"
    "rest l s2 (W (words_text args @ redirs_text rs2 @ ys))" by blast
  obtain argv' rs' s' where e: "parseexec_loop [] rs1 l s2 = Inr (redircmds (EXEC argv') (rs1 @ rs'), s')"
    "map (span l) argv' = args" "map (redir_of l) rs' = rs2" "rest l s' ys"
    using exec_reads [OF r(4), of args rs2 ys "[]" rs1] assms r(2,3) h(3) by auto
  show "\<exists>d s'. parseexec n l s = Inr (d, s') \<and> acmd_of l d = redir_wrap (AExec args) rs \<and> rest l s' ys"
    using p(1) r(1,2) e by (auto simp: n pbind_def acmd_of_redircmds)
qed

lemma read0_block:
  assumes "read3 b" "show_cmd 0 b = paren True (show_cmd 3 b)" "\<forall>(out, f)\<in>set rs. is_word f"
  shows "read0 (redir_wrap b rs)"
  unfolding reads_def
proof (intro allI impI)
  fix l n s xs ys
  assume h: "rest l s xs" "W xs = W (show_cmd 0 (redir_wrap b rs) @ ys)" "follow ''|&;)'' ys" "4 * length xs + 2 \<le> n"
  obtain m where n: "n = Suc (Suc m)" using h(4) by (cases n; cases "n - 1") auto
  note F = followD [OF h(3)]
  let ?R = "CHR '')'' # redirs_text rs @ ys"
  have W: "W xs = CHR ''('' # show_cmd 3 b @ ?R" using h(2) assms(2) by (simp add: show_wrap paren_def)
  obtain s0 where p0: "peek l s ''('' = (True, s0)" "rest l s0 (W xs)"
    using peek_rest [OF h(1), of "''(''"] W by (auto simp: starts_def NUL_def)
  obtain s1 where p: "peek l s0 ''('' = (True, s1)" "rest l (after_token l s1) (W (show_cmd 3 b @ ?R))"
    by (rule symbol_reads [OF p0(2), of "CHR ''(''"]) (use W in auto)
  have len: "length (W (show_cmd 3 b @ ?R)) < length xs" by (rule shorter [of xs "[]" "CHR ''(''"]) (use W in simp_all)
  obtain d s2 where d: "parseline m l (after_token l s1) = Inr (d, s2)" "acmd_of l d = b" "rest l s2 ?R"
    by (rule readsD [where n = m, OF assms(1) p(2), of ?R]) (use h(4) n len in \<open>auto simp: follow_def\<close>)
  obtain s3 where q: "peek l s2 '')'' = (True, s3)" "rest l (after_token l s3) (W (redirs_text rs @ ys))"
    by (rule symbol_reads [OF d(3), of "CHR '')''"]) auto
  obtain rs' s' where r: "parseredirs [] l (after_token l s3) = Inr (rs', s')" "map (redir_of l) rs' = rs" "rest l s' ys"
    using parseredirs_reads [OF q(2), of rs ys "[]"] assms(3) F(1-3) by auto
  show "\<exists>d s'. parseexec n l s = Inr (d, s') \<and> acmd_of l d = redir_wrap b rs \<and> rest l s' ys"
    using p0(1) p(1) d q(1) r by (auto simp: n pbind_def acmd_of_redircmds)
qed

lemma strip_none:
  assumes "writable c" "\<forall>d out f. c \<noteq> ARedir d out f"
  shows "\<exists>b rs. c = redir_wrap b rs \<and> (\<forall>d out f. b \<noteq> ARedir d out f) \<and> (b = c \<or> size b < size c)
    \<and> writable b \<and> (\<forall>(out, f)\<in>set rs. is_word f)"
  using assms by (intro exI [of _ c] exI [of _ "[]"]) (simp add: redir_wrap_def)

lemma strip_redirs:
  "writable c \<Longrightarrow> \<exists>b rs. c = redir_wrap b rs \<and> (\<forall>d out f. b \<noteq> ARedir d out f) \<and> (b = c \<or> size b < size c)
    \<and> writable b \<and> (\<forall>(out, f)\<in>set rs. is_word f)"
proof (induction c)
  case (ARedir c out f)
  then obtain b rs where b: "c = redir_wrap b rs" "\<forall>d out f. b \<noteq> ARedir d out f" "b = c \<or> size b < size c" "writable b"
    "\<forall>(out, f)\<in>set rs. is_word f"
    by auto
  have "ARedir c out f = redir_wrap b (rs @ [(out, f)])" using b(1) by (simp add: redir_wrap_def)
  moreover have "size b < size (ARedir c out f)" using b(3) by auto
  moreover have "\<forall>(out, f)\<in>set (rs @ [(out, f)]). is_word f" using b(5) ARedir.prems by simp
  ultimately show ?case using b(2,4) by blast
qed (rule strip_none; simp)+

lemma all_read: "writable c \<Longrightarrow> read0 c \<and> read1 c \<and> reads_back c \<and> read3 c"
proof (induction c rule: measure_induct_rule [of size])
  case (less c)
  show ?case
  proof (cases c)
    case (AExec args)
    then have r: "read0 c" using read0_exec [of args "[]"] less.prems by (simp add: redir_wrap_def)
    then show ?thesis using read1_exec [of c] read2_pipe [of c] read3_back [of c] AExec by simp
  next
    case (ARedir d out f)
    obtain b rs where b: "c = redir_wrap b rs" "\<forall>d out f. b \<noteq> ARedir d out f" "b = c \<or> size b < size c" "writable b"
      "\<forall>(out, f)\<in>set rs. is_word f"
      using strip_redirs [OF less.prems] by blast
    have "size b < size c" using b(2,3) ARedir by blast
    then have "read3 b" using less.IH b(4) by blast
    then have "read0 c" using read0_block [of b rs] read0_exec [of _ rs] b by (cases b) (auto simp: paren_def)
    then show ?thesis using read1_exec [of c] read2_pipe [of c] read3_back [of c] ARedir by simp
  next
    case (APipe x y)
    then have "read1 c" using less read1_pipe [of x y] by simp
    then have r: "read1 c" "reads_back c" "read3 c" using read2_pipe [of c] read3_back [of c] APipe by (simp_all add: paren_def)
    moreover have "read0 c" using read0_block [of c "[]"] r(3) APipe by (simp add: paren_def redir_wrap_def)
    ultimately show ?thesis by simp
  next
    case (AList x y)
    then have r: "read3 c" using less read3_list [of x y] by simp
    then have "read0 c" using read0_block [of c "[]"] AList by (simp add: paren_def redir_wrap_def)
    then show ?thesis using r read1_exec [of c] read2_pipe [of c] AList by (simp add: paren_def)
  next
    case (ABack x)
    then have "reads_back c" using less read2_back [of x] by simp
    then have r: "reads_back c" "read3 c" using read3_back [of c] ABack by (simp_all add: paren_def)
    moreover have "read0 c" using read0_block [of c "[]"] r(2) ABack by (simp add: paren_def redir_wrap_def)
    ultimately show ?thesis using read1_exec [of c] ABack by (simp add: paren_def)
  qed
qed

section \<open>The round trip\<close>

text \<open>The command as \<open>runcmd\<close> sees it: its strings are C strings of the buffer.\<close>

fun acmd_str :: "string \<Rightarrow> cmd \<Rightarrow> acmd" where
  "acmd_str b (EXEC argv) = AExec (map (\<lambda>(q, eq). cstr b q) argv)"
| "acmd_str b (REDIR c q eq m fd) = ARedir (acmd_str b c) (m = WRCREATE \<and> fd = 1) (cstr b q)"
| "acmd_str b (PIPE c d) = APipe (acmd_str b c) (acmd_str b d)"
| "acmd_str b (LIST c d) = AList (acmd_str b c) (acmd_str b d)"
| "acmd_str b (BACK c) = ABack (acmd_str b c)"

lemma acmd_str_of: "(\<And>q eq. (q, eq) \<in> spans c \<Longrightarrow> cstr b q = take (eq - q) (drop q l)) \<Longrightarrow> acmd_str b c = acmd_of l c"
  by (induction c) (auto simp: span_def)

lemma show_no_nul: "writable c \<Longrightarrow> NUL \<notin> set (show_cmd p c)"
  by (induction c arbitrary: p) (auto simp: paren_def word_text_def redir_text_def is_word_def NUL_def)

text \<open>C12. The shell: a command written with the operators of the grammar (parentheses where the precedence needs them) is parsed back to
  itself; its arguments and file names are exactly the C strings that \<open>runcmd\<close> will read.\<close>

theorem shell_roundtrip:
  assumes "writable c"
  shows "\<exists>d b. parsecmd (show_cmd 3 c) = Inr (d, b) \<and> acmd_str b d = c"
proof -
  let ?l = "show_cmd 3 c"
  have "read3 c" using all_read [OF assms] by simp
  then obtain d s where d: "parseline (4 * (length ?l + 1)) ?l 0 = Inr (d, s)" "acmd_of ?l d = c" "rest ?l s []"
    by (rule readsD [where n = "4 * (length ?l + 1)" and l = ?l and s = 0 and xs = ?l and ys = "[]"])
      (simp_all add: rest_def follow_def)
  obtain s' where p: "peek ?l s [] = (starts [] [], s')" "rest ?l s' (W [])" by (rule peek_rest [OF d(3)])
  then have "s' = length ?l" using rest_length [of ?l s' "[]"] by simp
  then have r: "parsecmd ?l = Inr (d, nulterminate d (?l @ [NUL]))" using d(1) p(1) by (simp add: parsecmd_def pbind_def)
  have "parsed ?l 0 (parseline (4 * (length ?l + 1)) ?l 0)" using parse_wf [of ?l 0 "4 * (length ?l + 1)"] by (simp add: enough_def)
  then have "wf_cmd ?l d" using d(1) by (simp add: parsed_def)
  then have "acmd_str (nulterminate d (?l @ [NUL])) d = acmd_of ?l d"
    using token_string show_no_nul [OF assms] by (intro acmd_str_of) blast
  then show ?thesis using r d(2) by auto
qed

text \<open>Witness: \<open>(ls -l; echo) < in | wc > out &\<close>.\<close>

definition demo_cmd :: acmd where
  "demo_cmd = ABack (APipe (ARedir (AList (AExec [''ls'', ''-l'']) (AExec [''echo''])) False ''in'') (ARedir (AExec [''wc'']) True ''out''))"

theorem shell_roundtrip_witness:
  "show_cmd 3 demo_cmd = ''( ls -l; echo) < in| wc > out&''
    \<and> (\<exists>d b. parsecmd (show_cmd 3 demo_cmd) = Inr (d, b) \<and> acmd_str b d = demo_cmd)"
proof
  show "show_cmd 3 demo_cmd = ''( ls -l; echo) < in| wc > out&''"
    by (simp add: demo_cmd_def paren_def word_text_def redir_text_def)
  have "writable demo_cmd" by (simp add: demo_cmd_def MAXARGS_def is_word_def plain_def whitespace_def symbols_def NUL_def)
  then show "\<exists>d b. parsecmd (show_cmd 3 demo_cmd) = Inr (d, b) \<and> acmd_str b d = demo_cmd" by (rule shell_roundtrip)
qed

end
