(* ===== verification/Spec2Isabelle.thy ===== *)
theory Spec2Isabelle
  imports Xv6_VmProps Xv6_SwapProps Xv6_FileProps Xv6_FsProps Xv6_MkfsProps Xv6_Spinlock Xv6_Grep Xv6_ShProps
begin

text \<open>
  A verification library for xv6 with copy-on-write \<^verbatim>\<open>fork\<close> and swapping: the kernel's memory
  management, processes, file system with its log, pipes, console and system calls, its spin locks, the
  image builder \<open>mkfs\<close>, the shell's parser and the user program \<open>grep\<close>. All definitions are translated from the C sources under \<open>src/\<close> and are executable.

  \<^bold>\<open>How the program is modelled.\<close> A C integer is a word of its width (\<open>u8\<close>, \<open>u16\<close>, \<open>u32\<close> of \<^verbatim>\<open>types.h\<close>), so
  arithmetic wraps as in C; a struct is a record; an array of structs is a function from indices; a
  pointer into such an array is the index. Physical memory is a function from 32-bit addresses to
  bytes, and page directories, page tables and the free list live in it. A function that changes the
  state takes it and returns it; it has a result in \<open>'a res\<close>: \<open>Inr\<close> of its result, or \<open>Inl\<close> of a
  \<open>kerr\<close>, which is a call of \<open>panic\<close>, an access that C does not define (a null pointer, an index
  outside its array), or a call of \<open>sleep\<close> that nothing in the modelled step can end. A loop is a recursion
  over the values of its counter, or a function with a termination proof; \<open>strlen\<close>, which need not end, is a
  \<open>partial_function\<close>. Concurrency is modelled where a property depends on it: pipes (\<open>pstep\<close>),
  parents and children (\<open>wstep\<close>) and spin locks (\<open>lstep\<close>) have step relations whose steps are the code between two points
  where another process or processor can run, and the log has the set of disk states at which the
  power may fail. Everywhere else an operation runs to its end, as the kernel's locks make it.

  \<^bold>\<open>The parts.\<close>

  \<^item> \<open>Xv6_Prelude\<close>, \<open>Xv6_Mmu\<close>, \<open>Xv6_Mem\<close>: results and searches; \<^verbatim>\<open>param.h\<close>, \<^verbatim>\<open>memlayout.h\<close>, \<^verbatim>\<open>mmu.h\<close>; \<^verbatim>\<open>string.c\<close> and
    the string instructions of \<^verbatim>\<open>x86.h\<close>. Shown: \<open>memset\<close> fills exactly its range on both paths, \<open>memmove\<close> copies
    overlapping ranges, \<open>strncmp\<close> compares C strings, \<open>safestrcpy\<close> stays in its buffer.
  \<^item> \<open>Xv6_Rmap\<close>: the reverse map of \<^verbatim>\<open>proc.c\<close>. Its interface is the locale \<open>page_refs\<close> (a bounded multiset of
    page table entries), interpreted on the entries of the source.
  \<^item> \<open>Xv6_Bio\<close>, \<open>Xv6_Cache\<close>, \<open>Xv6_Bytes\<close>: sleep locks, \<^verbatim>\<open>ide.c\<close> against a disk of blocks, the buffer cache of \<^verbatim>\<open>bio.c\<close> with the page
    transfers of swapping, and fields in blocks. The locale \<open>block_store\<close> says that a block reads back what was written; it is
    interpreted on \<open>bget\<close>, \<open>bread\<close>, \<open>bwrite\<close> and \<open>brelse\<close>.
  \<^item> \<open>Xv6_Kstate\<close>, \<open>Xv6_Pgdir\<close>, \<open>Xv6_Swap\<close>: the state of the memory subsystem, \<^verbatim>\<open>kalloc.c\<close>, page table walks, and
    the page replacement of \<^verbatim>\<open>proc.c\<close>. Shown: freeing and allocating are a stack, the victim
    process is the largest.
  \<^item> \<open>Xv6_Vm\<close>, \<open>Xv6_VmMap\<close>, \<open>Xv6_VmKern\<close>, \<open>Xv6_Grow\<close>, \<open>Xv6_CopyUvm\<close>, \<open>Xv6_Fault\<close>, \<open>Xv6_Cow\<close>, \<open>Xv6_VmProps\<close>: \<^verbatim>\<open>vm.c\<close> and the fault
    handler of \<^verbatim>\<open>proc.c\<close>. \<open>pteval\<close> abstracts a page directory to a function from addresses to entries, \<open>uview\<close> to what a process
    sees; \<open>cow_inv\<close> says that the reverse map records exactly the mappings and that a writable page has one. Shown: \<open>setupkvm\<close> builds
    the kernel's map, \<open>copyuvm\<close> gives the child the parent's view and keeps the invariant, a write after the fault handler is
    seen by the writer only, \<open>allocuvm\<close> adds zeroed pages.
  \<^item> \<open>Xv6_SwapProps\<close>: swapping out and in. A page with one owner comes back with its bytes, marked accessed and not writable, from any later
    state that left its slot, the slot's record and its entry alone and has a free page and an idle buffer cache. \<open>kalloc\<close> never returns null, fails
    only with the page replacement, and succeeds when memory is full if the victim has one owner, a slot is free and the buffer cache is idle. A page that other
    processes share leaves them with mappings of a free page, which is a defect of the code.
  \<^item> \<open>Xv6_Console\<close>: \<^verbatim>\<open>console.c\<close>, \<^verbatim>\<open>uart.c\<close>, \<^verbatim>\<open>kbd.c\<close>: printing, line editing, scan codes.
  \<^item> \<open>Xv6_Fstate\<close>, \<open>Xv6_Log\<close>, \<open>Xv6_Crash\<close>: the file system's state and \<^verbatim>\<open>log.c\<close>. Shown: whenever the power fails
    during \<open>commit\<close>, recovery leaves all blocks of the transaction or none.
  \<^item> \<open>Xv6_Fs\<close>, \<open>Xv6_FsProps\<close>: \<^verbatim>\<open>fs.c\<close>: block and inode allocation, inode contents, directories, paths. Shown: the path parser
    is the split at slashes.
  \<^item> \<open>Xv6_Mkfs\<close>, \<open>Xv6_MkfsProps\<close>: \<^verbatim>\<open>mkfs.c\<close>. \<open>stores\<close> abstracts an image to the list of its files; allocating an inode adds an
    empty file and \<open>iappend\<close> appends to one. Shown: \<open>main\<close> stores every file it is given. Together with the
    kernel's swapping and its bitmap: all these files lie in the swap area, and the log and the inodes are marked free, which
    are defects of the layout.
  \<^item> \<open>Xv6_Pipe\<close>: \<^verbatim>\<open>pipe.c\<close> under interleaving: a bounded queue without lost wakeups, except after a killed writer.
  \<^item> \<open>Xv6_Kern\<close>, \<open>Xv6_File\<close>, \<open>Xv6_Sysfile\<close>, \<open>Xv6_Proc\<close>, \<open>Xv6_Exec\<close>, \<open>Xv6_Syscall\<close>: the kernel as a whole: the state \<open>kern\<close>
    joins memory, file system, open files and pipes; user memory is accessed through the page tables, and an access may run
    the fault handler. On it: the argument fetching of \<^verbatim>\<open>syscall.c\<close>, \<^verbatim>\<open>file.c\<close>, \<^verbatim>\<open>sysfile.c\<close>, the process operations
    of \<^verbatim>\<open>proc.c\<close>, \<^verbatim>\<open>exec.c\<close>, \<^verbatim>\<open>sysproc.c\<close> and \<^verbatim>\<open>trap.c\<close>. Linker symbols are the record \<open>linker\<close>.
  \<^item> \<open>Xv6_ProcProps\<close>, \<open>Xv6_FileProps\<close>: buffers accepted by \<open>argptr\<close> are inside the process, the scheduler is
    fair, no process waits for a child that is already a zombie, open files are counted right across \<open>fork\<close> and \<open>exit\<close>.
  \<^item> \<open>Xv6_Spinlock\<close>: \<^verbatim>\<open>spinlock.c\<close> on several processors: mutual exclusion.
  \<^item> \<open>Xv6_Grep\<close>: \<^verbatim>\<open>grep.c\<close>: the matcher decides the language of its pattern.
  \<^item> \<open>Xv6_Sh\<close>, \<open>Xv6_ShProps\<close>: the parser of \<^verbatim>\<open>sh.c\<close>. Shown: it returns on every line, the NULs it writes leave every
    string of the command whole, and it reads back every command that is written in the shell's grammar.

  \<^bold>\<open>Bounds and fuel.\<close> There are two. The fuel of \<open>idewait_buf\<close> is the number of disk interrupts that \<open>iderw\<close> waits for;
  it is the length of the request queue, which is enough because each interrupt finishes one request. The fuel of the shell's parser is four
  times the length of the line and four more, which is shown to be enough: at most four calls are made before a character is
  consumed. The console
  loops over the keys that arrived. All table sizes are those of \<^verbatim>\<open>param.h\<close>.

  \<^bold>\<open>Not modelled.\<close> Assembly and boot code; segment and interrupt descriptors; the port protocols of the disk, serial line, keyboard
  and interrupt controllers; the tables of \<^verbatim>\<open>mp.c\<close>; debug output (\<open>procdump\<close>, \<open>print_rss\<close>, messages of \<open>cprintf\<close> inside other
  functions); the reordering of memory accesses by processors; the user programs other than \<open>grep\<close>, the part of the
  shell that runs commands, the user library and the tests.
\<close>

end
